(* ===== verification/Prelude.thy ===== *)
theory Prelude
  imports Main "HOL-Library.Word" "HOL-Library.List_Lexorder"
begin

text \<open>
  What every component shares: bytes and little-endian integers (Go's \<open>encoding/binary\<close>),
  buffers updated in place (\<open>copy\<close> and \<open>PutUint\<close> on a sub-slice), byte streams with
  \<open>Seek\<close>, \<open>ReadFull\<close> and \<open>Write\<close>, error values, and the state-passing combinators
  in which the operations are written.

  A Go \<open>string\<close> is its bytes.  A stream (\<open>io.ReadWriteSeeker\<close>) is the list of its
  bytes: every operation modelled here seeks to an absolute offset before it reads or
  writes, so the stream position needs no component of its own.  A write past the end fills
  the gap with zero bytes, as a file does.  Failures of the device itself are not modelled.
\<close>

unbundle bit_operations_syntax

named_theorems codec \<open>reading back what an encoder wrote\<close>
named_theorems steps \<open>execution of one state-passing step\<close>

type_synonym byte = "8 word"
type_synonym bytes = "byte list"
type_synonym u16 = "16 word"
type_synonym u32 = "32 word"

section \<open>Errors and state-passing\<close>

text \<open>
  The error values of the program.  Sentinel errors are constructors; \<open>Errorf\<close> is a plain
  \<open>fmt.Errorf\<close> (the format text without its arguments) and \<open>Wrap\<close> one that wraps another
  error with \<open>%w\<close>.  \<open>Panic\<close> is a run-time panic of the Go program.  \<open>OutOfFuel\<close> is not an
  error of the program: it is the value of a loop that has not ended within the fuel given
  to it.
\<close>

datatype error =
    UnexpectedEOF
  | IoEOF
  | ErrEOF
  | ErrInvalidRecord
  | ErrUnsupported
  | ErrNumericOverflow
  | ErrNotLocked
  | ErrLockUnsupported
  | ErrLockHeld
  | ErrNotFAT
  | ErrUnsupportedFAT
  | ErrNotFound
  | ErrReadOnly
  | ErrCorrupt
  | ErrNoSpace
  | Errorf string
  | Wrap string error
  | Panic string
  | OutOfFuel

type_synonym 'a res = "error + 'a"

text \<open>An operation on a state \<open>'s\<close>: the new state and the result, or the error.\<close>

type_synonym ('s, 'a) op = "'s \<Rightarrow> 's \<times> (error + 'a)"

definition returnS :: "'a \<Rightarrow> ('s, 'a) op" where
  "returnS x = (\<lambda>s. (s, Inr x))"

definition failS :: "error \<Rightarrow> ('s, 'a) op" where
  "failS e = (\<lambda>s. (s, Inl e))"

definition bindS :: "('s, 'a) op \<Rightarrow> ('a \<Rightarrow> ('s, 'b) op) \<Rightarrow> ('s, 'b) op" where
  "bindS m f = (\<lambda>s. case m s of (s', Inl e) \<Rightarrow> (s', Inl e) | (s', Inr x) \<Rightarrow> f x s')"

text \<open>A query: an operation that leaves the state alone.\<close>

definition queryS :: "('s \<Rightarrow> error + 'a) \<Rightarrow> ('s, 'a) op" where
  "queryS q = (\<lambda>s. (s, q s))"

definition bindR :: "error + 'a \<Rightarrow> ('a \<Rightarrow> error + 'b) \<Rightarrow> error + 'b" where
  "bindR m f = (case m of Inl e \<Rightarrow> Inl e | Inr x \<Rightarrow> f x)"

lemma returnS_apply [steps]: "returnS x s = (s, Inr x)"
  by (simp add: returnS_def)

lemma failS_apply [steps]: "failS e s = (s, Inl e)"
  by (simp add: failS_def)

lemma queryS_apply [steps]: "queryS q s = (s, q s)"
  by (simp add: queryS_def)

lemma bindS_Inr [steps]: "m s = (s', Inr x) \<Longrightarrow> bindS m f s = f x s'"
  by (simp add: bindS_def)

lemma bindS_Inl [steps]: "m s = (s', Inl e) \<Longrightarrow> bindS m f s = (s', Inl e)"
  by (simp add: bindS_def)

lemma bindS_apply: "bindS m f s = (case m s of (s', Inl e) \<Rightarrow> (s', Inl e) | (s', Inr x) \<Rightarrow> f x s')"
  by (simp add: bindS_def)

lemma bindS_query_Inr [steps]: "q s = Inr x \<Longrightarrow> bindS (queryS q) f s = f x s"
  by (simp add: bindS_def queryS_def)

lemma bindS_query_Inl [steps]: "q s = Inl e \<Longrightarrow> bindS (queryS q) f s = (s, Inl e)"
  by (simp add: bindS_def queryS_def)

lemma bindR_simps [simp]: "bindR (Inl e) f = Inl e" "bindR (Inr x) f = f x"
  by (simp_all add: bindR_def)

lemma bindR_Inr_iff: "bindR m f = Inr y \<longleftrightarrow> (\<exists>x. m = Inr x \<and> f x = Inr y)"
  by (cases m) auto

text \<open>A loop that maps a fallible function over a list and stops at the first error.\<close>

fun mapR :: "('a \<Rightarrow> error + 'b) \<Rightarrow> 'a list \<Rightarrow> error + 'b list" where
  "mapR f [] = Inr []"
| "mapR f (x # xs) = bindR (f x) (\<lambda>y. bindR (mapR f xs) (\<lambda>ys. Inr (y # ys)))"

lemma mapR_map: "(\<And>x. x \<in> set xs \<Longrightarrow> f x = Inr (g x)) \<Longrightarrow> mapR f xs = Inr (map g xs)"
  by (induction xs) auto

lemma mapR_length: "mapR f xs = Inr ys \<Longrightarrow> length ys = length xs"
  by (induction xs arbitrary: ys) (auto simp: bindR_Inr_iff)

lemma mapR_nth: "mapR f xs = Inr ys \<Longrightarrow> i < length xs \<Longrightarrow> f (xs ! i) = Inr (ys ! i)"
  by (induction xs arbitrary: ys i) (auto simp: bindR_Inr_iff nth_Cons split: nat.splits)

lemma mapR_cong: "(\<And>x. x \<in> set xs \<Longrightarrow> f x = g x) \<Longrightarrow> mapR f xs = mapR g xs"
  by (induction xs) auto

lemma take_nth_drop: "m < length xs \<Longrightarrow> take m xs @ xs ! m # drop (Suc m) xs = xs"
  by (rule id_take_nth_drop [symmetric])

section \<open>Buffers\<close>

text \<open>\<open>seg off n raw\<close> is Go's \<open>raw[off : off+n]\<close>; \<open>put_at raw off bs\<close> is
  \<open>copy(raw[off:], bs)\<close> for a \<open>bs\<close> that fits, the buffer keeping its length.\<close>

definition seg :: "nat \<Rightarrow> nat \<Rightarrow> 'a list \<Rightarrow> 'a list" where
  "seg off n raw = take n (drop off raw)"

definition put_at :: "'a list \<Rightarrow> nat \<Rightarrow> 'a list \<Rightarrow> 'a list" where
  "put_at raw off bs = take off raw @ take (length raw - off) bs @ drop (off + length bs) raw"

lemma length_put_at [simp]: "length (put_at raw off bs) = length raw"
  by (simp add: put_at_def)

lemma length_seg [simp]: "off + n \<le> length raw \<Longrightarrow> length (seg off n raw) = n"
  by (simp add: seg_def)

lemma nth_seg [simp]: "i < n \<Longrightarrow> off + n \<le> length raw \<Longrightarrow> seg off n raw ! i = raw ! (off + i)"
  by (simp add: seg_def)

lemma nth_put_at:
  "i < length raw \<Longrightarrow>
   put_at raw off bs ! i = (if off \<le> i \<and> i < off + length bs then bs ! (i - off) else raw ! i)"
  by (auto simp: put_at_def nth_append min_def)

lemma seg_eqI:
  assumes "off + n \<le> length raw" "length bs = n"
    and "\<And>i. i < n \<Longrightarrow> raw ! (off + i) = bs ! i"
  shows "seg off n raw = bs"
  using assms by (auto intro: nth_equalityI)

lemma seg_put_at_same [codec]:
  "off + length bs \<le> length raw \<Longrightarrow> n = length bs \<Longrightarrow> seg off n (put_at raw off bs) = bs"
  by (rule seg_eqI) (auto simp: nth_put_at)

lemma seg_put_at_other [codec]:
  assumes "off + n \<le> length raw" "off + n \<le> o2 \<or> o2 + length bs \<le> off"
  shows "seg off n (put_at raw o2 bs) = seg off n raw"
  using assms by (intro nth_equalityI) (auto simp: nth_put_at)

lemma seg_seg: "i + n \<le> m \<Longrightarrow> seg i n (seg off m raw) = seg (off + i) n raw"
  by (simp add: seg_def drop_take min_def add.commute)

lemma seg_append1: "off + n \<le> length xs \<Longrightarrow> seg off n (xs @ ys) = seg off n xs"
  by (simp add: seg_def)

lemma seg_0_all [simp]: "seg 0 (length xs) xs = xs"
  by (simp add: seg_def)

text \<open>A loop that writes fields of one width \<open>w\<close> at consecutive positions of a buffer.\<close>

fun put_fields :: "nat \<Rightarrow> 'a list list \<Rightarrow> 'a list \<Rightarrow> 'a list" where
  "put_fields off [] raw = raw"
| "put_fields off (f # fs) raw = put_fields (off + length f) fs (put_at raw off f)"

lemma length_put_fields [simp]: "length (put_fields off fs raw) = length raw"
  by (induction off fs raw rule: put_fields.induct) auto

lemma seg_put_fields_other [codec]:
  assumes "o2 + n \<le> length raw" "o2 + n \<le> off \<or> off + sum_list (map length fs) \<le> o2"
  shows "seg o2 n (put_fields off fs raw) = seg o2 n raw"
  using assms
  by (induction off fs raw rule: put_fields.induct) (auto simp: seg_put_at_other)

lemma seg_put_fields_nth:
  assumes "\<And>f. f \<in> set fs \<Longrightarrow> length f = w" "i < length fs" "off + length fs * w \<le> length raw"
  shows "seg (off + i * w) w (put_fields off fs raw) = fs ! i"
  using assms
proof (induction off fs raw arbitrary: i rule: put_fields.induct)
  case (1 off raw)
  then show ?case by simp
next
  case (2 off f fs raw)
  have w: "length f = w" and ws: "sum_list (map length fs) = length fs * w"
    using "2.prems"(1) by (simp_all add: sum_list_triv cong: map_cong)
  show ?case
  proof (cases i)
    case 0
    then show ?thesis
      using "2.prems" w ws by (simp add: seg_put_fields_other seg_put_at_same)
  next
    case (Suc j)
    then show ?thesis
      using "2.IH" [of j] "2.prems" w by (simp add: add.assoc)
  qed
qed

section \<open>Little-endian integers\<close>

definition put_u16 :: "u16 \<Rightarrow> bytes" where
  "put_u16 v = [ucast v, ucast (drop_bit 8 v)]"

definition put_u32 :: "u32 \<Rightarrow> bytes" where
  "put_u32 v = [ucast v, ucast (drop_bit 8 v), ucast (drop_bit 16 v), ucast (drop_bit 24 v)]"

definition get_u16 :: "bytes \<Rightarrow> u16" where
  "get_u16 b = ucast (b ! 0) OR push_bit 8 (ucast (b ! 1))"

definition get_u32 :: "bytes \<Rightarrow> u32" where
  "get_u32 b = ucast (b ! 0) OR push_bit 8 (ucast (b ! 1))
     OR push_bit 16 (ucast (b ! 2)) OR push_bit 24 (ucast (b ! 3))"

lemma length_put_u16 [simp]: "length (put_u16 v) = 2"
  by (simp add: put_u16_def)

lemma length_put_u32 [simp]: "length (put_u32 v) = 4"
  by (simp add: put_u32_def)

lemma get_put_u16 [codec]: "get_u16 (put_u16 v) = v"
proof (rule bit_word_eqI)
  fix n assume "n < LENGTH(16)"
  then show "bit (get_u16 (put_u16 v)) n = bit v n"
    by (auto simp: get_u16_def put_u16_def bit_simps)
qed

lemma get_put_u32 [codec]: "get_u32 (put_u32 v) = v"
proof (rule bit_word_eqI)
  fix n assume "n < LENGTH(32)"
  then show "bit (get_u32 (put_u32 v)) n = bit v n"
    by (cases "n < 8"; cases "n < 16"; cases "n < 24")
      (auto simp: get_u32_def put_u32_def bit_simps)
qed

lemma get_u16_append [codec]: "get_u16 (put_u16 v @ rest) = v"
  using get_put_u16 [of v] by (simp add: get_u16_def put_u16_def)

lemma get_u32_append [codec]: "get_u32 (put_u32 v @ rest) = v"
  using get_put_u32 [of v] by (simp add: get_u32_def put_u32_def)

section \<open>Streams\<close>

text \<open>\<open>readAt f off n\<close> is \<open>Seek(off, SeekStart)\<close> followed by \<open>io.ReadFull\<close> of \<open>n\<close> bytes;
  \<open>writeAt f off bs\<close> is \<open>Seek\<close> followed by \<open>Write\<close>.\<close>

definition readAt :: "bytes \<Rightarrow> nat \<Rightarrow> nat \<Rightarrow> error + bytes" where
  "readAt f off n =
     (if off + n \<le> length f then Inr (seg off n f)
      else if length f \<le> off \<and> 0 < n then Inl IoEOF
      else if n = 0 then Inr [] else Inl UnexpectedEOF)"

definition writeAt :: "bytes \<Rightarrow> nat \<Rightarrow> bytes \<Rightarrow> bytes" where
  "writeAt f off bs =
     (let f' = f @ replicate (off + length bs - length f) 0 in put_at f' off bs)"

lemma length_writeAt: "length (writeAt f off bs) = max (length f) (off + length bs)"
  by (simp add: writeAt_def Let_def)

lemma readAt_Inr_iff:
  "0 < n \<Longrightarrow> readAt f off n = Inr bs \<longleftrightarrow> off + n \<le> length f \<and> bs = seg off n f"
  by (auto simp: readAt_def)

lemma readAt_length: "readAt f off n = Inr bs \<Longrightarrow> length bs = n"
  by (auto simp: readAt_def split: if_splits)

lemma readAt_writeAt_same [codec]:
  "0 < length bs \<Longrightarrow> n = length bs \<Longrightarrow> readAt (writeAt f off bs) off n = Inr bs"
  by (simp add: readAt_Inr_iff length_writeAt) (simp add: writeAt_def Let_def seg_put_at_same)

lemma readAt_writeAt_other [codec]:
  assumes "readAt f off n = Inr bs" "0 < n" "off + n \<le> o2 \<or> o2 + length ws \<le> off"
  shows "readAt (writeAt f o2 ws) off n = Inr bs"
  using assms
  by (auto simp: readAt_Inr_iff length_writeAt)
     (auto simp: writeAt_def Let_def seg_put_at_other seg_append1)

text \<open>The front of a region that was written as a whole.\<close>

lemma readAt_prefix:
  "readAt f off n = Inr bs \<Longrightarrow> 0 < m \<Longrightarrow> m \<le> n \<Longrightarrow> readAt f off m = Inr (take m bs)"
  by (auto simp: readAt_Inr_iff seg_def readAt_def min_def split: if_splits)

lemma nth_writeAt:
  "i < length (writeAt f off bs) \<Longrightarrow>
   writeAt f off bs ! i = (if off \<le> i \<and> i < off + length bs then bs ! (i - off) else if i < length f then f ! i else 0)"
  by (auto simp: writeAt_def Let_def nth_put_at nth_append)

lemma seg_writeAt_other:
  "off + n \<le> length f \<Longrightarrow> off + n \<le> o2 \<or> o2 + length bs \<le> off \<Longrightarrow> seg off n (writeAt f o2 bs) = seg off n f"
  by (auto simp: writeAt_def Let_def seg_put_at_other seg_append1)

lemma seg_writeAt_same: "n = length bs \<Longrightarrow> seg off n (writeAt f off bs) = bs"
  by (auto simp: writeAt_def Let_def seg_put_at_same)

lemma seg_writeAt_prefix:
  assumes "n \<le> length bs"
  shows "seg off n (writeAt f off bs) = take n bs"
proof -
  have "seg off n (writeAt f off bs) = take n (seg off (length bs) (writeAt f off bs))"
    using assms by (simp add: seg_def min_def)
  then show ?thesis
    by (simp add: seg_writeAt_same)
qed

lemma drop_seg: "drop off f = seg off n f @ drop (off + n) f"
  by (simp add: seg_def add.commute flip: drop_drop)

lemma take_writeAt: "n \<le> off \<Longrightarrow> n \<le> length f \<Longrightarrow> take n (writeAt f off bs) = take n f"
  by (intro nth_equalityI) (auto simp: length_writeAt nth_writeAt)

lemma writeAt_end: "off \<le> length f \<Longrightarrow> length f \<le> off + length bs \<Longrightarrow> writeAt f off bs = take off f @ bs"
  by (intro nth_equalityI) (auto simp: length_writeAt nth_writeAt nth_append)

section \<open>Slots\<close>

text \<open>The \<open>n\<close> slots of width \<open>w\<close> that a file holds from \<open>start\<close> on.\<close>

definition slots :: "nat \<Rightarrow> nat \<Rightarrow> nat \<Rightarrow> 'a list \<Rightarrow> 'a list list" where
  "slots start w n f = map (\<lambda>i. seg (start + i * w) w f) [0..<n]"

lemma length_slots [simp]: "length (slots start w n f) = n"
  by (simp add: slots_def)

lemma nth_slots [simp]: "i < n \<Longrightarrow> slots start w n f ! i = seg (start + i * w) w f"
  by (simp add: slots_def)

lemma slot_bound: "i < n \<Longrightarrow> i * w + w \<le> n * (w :: nat)"
  using mult_le_mono1 [of "Suc i" n w] by simp

lemma slot_disjoint: "i \<noteq> j \<Longrightarrow> i * w + w \<le> j * w \<or> j * w + w \<le> i * (w :: nat)"
  using slot_bound by (metis linorder_neq_iff)

lemma take_slots: "k \<le> n \<Longrightarrow> take k (slots start w n f) = slots start w k f"
  by (simp add: slots_def take_map min_def)

lemma slots_write_outside:
  assumes "start + n * w \<le> length f" "off + length bs \<le> start \<or> start + n * w \<le> off"
  shows "slots start w n (writeAt f off bs) = slots start w n f"
proof (rule nth_equalityI)
  fix i assume "i < length (slots start w n (writeAt f off bs))"
  then have i: "i < n" by simp
  with slot_bound [of i n w] assms show "slots start w n (writeAt f off bs) ! i = slots start w n f ! i"
    by (auto intro!: seg_writeAt_other)
qed simp

lemma slots_write:
  assumes "i < n" "length bs = w" "start + n * w \<le> length f"
  shows "slots start w n (writeAt f (start + i * w) bs) = (slots start w n f)[i := bs]"
proof (rule nth_equalityI)
  fix j assume "j < length (slots start w n (writeAt f (start + i * w) bs))"
  then have "j < n" by simp
  then show "slots start w n (writeAt f (start + i * w) bs) ! j = (slots start w n f)[i := bs] ! j"
    using assms slot_bound [of j n w] slot_disjoint [of i j w]
    by (cases "i = j") (auto simp: seg_writeAt_same intro!: seg_writeAt_other)
qed simp

lemma slots_write_head:
  assumes "i < n" "0 < w" "start + n * w \<le> length f"
  shows "slots start w n (writeAt f (start + i * w) [m]) = (slots start w n f)[i := m # tl (slots start w n f ! i)]"
proof (rule nth_equalityI)
  fix j assume "j < length (slots start w n (writeAt f (start + i * w) [m]))"
  then have j: "j < n" by simp
  show "slots start w n (writeAt f (start + i * w) [m]) ! j
      = (slots start w n f)[i := m # tl (slots start w n f ! i)] ! j"
  proof (cases "i = j")
    case True
    have "seg (start + i * w) w (writeAt f (start + i * w) [m]) = m # tl (seg (start + i * w) w f)"
      using assms slot_bound [of i n w]
      by (intro nth_equalityI) (auto simp: nth_writeAt length_writeAt nth_Cons nth_tl split: nat.splits)
    then show ?thesis
      using True j by simp
  next
    case False
    then show ?thesis
      using assms j slot_bound [of j n w] slot_disjoint [of i j w] by (auto intro!: seg_writeAt_other)
  qed
qed simp

lemma slots_write_next:
  assumes "length bs = w" "start + n * w \<le> length f"
  shows "slots start w (Suc n) (writeAt f (start + n * w) bs) = slots start w n f @ [bs]"
proof -
  have "slots start w (Suc n) g = slots start w n g @ [seg (start + n * w) w g]" for g :: bytes
    by (simp add: slots_def)
  then show ?thesis
    using assms by (simp add: seg_writeAt_same slots_write_outside)
qed

section \<open>Sorting\<close>

text \<open>\<open>sort.SliceStable\<close>: equal elements keep their order.\<close>

fun insert_by :: "('a \<Rightarrow> 'a \<Rightarrow> bool) \<Rightarrow> 'a \<Rightarrow> 'a list \<Rightarrow> 'a list" where
  "insert_by lt x [] = [x]"
| "insert_by lt x (y # ys) = (if lt y x then y # insert_by lt x ys else x # y # ys)"

definition SliceStable :: "('a \<Rightarrow> 'a \<Rightarrow> bool) \<Rightarrow> 'a list \<Rightarrow> 'a list" where
  "SliceStable lt xs = foldr (insert_by lt) xs []"

lemma insert_by_insort:
  assumes "\<And>y. y \<in> set ys \<Longrightarrow> lt y x \<longleftrightarrow> f y < f x"
  shows "insert_by lt x ys = insort_key f x ys"
  using assms by (induction ys) (auto simp: not_less)

lemma SliceStable_sort:
  assumes "\<And>x y. x \<in> set xs \<Longrightarrow> y \<in> set xs \<Longrightarrow> lt y x \<longleftrightarrow> f y < f x"
  shows "SliceStable lt xs = sort_key f xs"
  using assms
proof (induction xs)
  case (Cons x xs)
  then have "SliceStable lt xs = sort_key f xs"
    by simp
  then show ?case
    using insert_by_insort [of "sort_key f xs" lt x f] Cons.prems by (simp add: SliceStable_def)
qed (simp add: SliceStable_def)

end
