(* ===== verification/NtxPage.thy ===== *)
theory NtxPage
  imports Prelude
begin

text \<open>
  The page layer of package \<open>ntx\<close>: the open index (\<open>types.go\<close>), its header
  (\<open>header.go\<close>), the 1024-byte node pages and the free-page list (\<open>page.go\<close>).
  File offsets are the \<open>int64\<close> values of the code; they come from unsigned 32-bit fields or
  from the size of the file, so they are natural numbers here, and the conversion
  \<open>uint32(offset)\<close> on write is the truncating \<open>word_of_nat\<close>.
\<close>

section \<open>The open index and its nodes\<close>

record ntx_index =
  ix_rw :: bytes
  ix_keyExpr :: bytes
  ix_keySize :: u16
  ix_decimals :: u16
  ix_unique :: bool
  ix_itemSize :: u16
  ix_maxItem :: u16
  ix_halfPage :: u16
  ix_root :: nat
  ix_nextFree :: nat
  ix_fileSize :: nat

record item =
  it_child :: nat
  it_recno :: u32
  it_key :: bytes

record node =
  nd_offset :: nat
  nd_items :: "item list"
  nd_right :: nat
  nd_leaf :: bool

definition pageSize :: nat where "pageSize = 1024"

definition MaxKeySize :: u16 where "MaxKeySize = 250"

definition maxKeyExpr :: nat where "maxKeyExpr = 256"

definition childAt :: "node \<Rightarrow> nat \<Rightarrow> nat" where
  "childAt n i = (if i = length (nd_items n) then nd_right n else it_child (nd_items n ! i))"

definition setChildAt :: "node \<Rightarrow> nat \<Rightarrow> nat \<Rightarrow> node" where
  "setChildAt n i off =
     (if i = length (nd_items n) then n\<lparr>nd_right := off\<rparr>
      else n\<lparr>nd_items := (nd_items n)[i := (nd_items n ! i)\<lparr>it_child := off\<rparr>]\<rparr>)"

section \<open>The header page\<close>

definition computeMaxItem :: "u16 \<Rightarrow> u16" where
  "computeMaxItem itemSize = (1024 - 2) div (itemSize + 2) - 1"

text \<open>The fixed fields at offsets 0..20, the key expression at 22 (at most 255 bytes, the rest
  zero) and the unique flag at 278.\<close>

definition header_bytes :: "ntx_index \<Rightarrow> bytes" where
  "header_bytes ix =
     (let raw = replicate pageSize 0;
          raw = put_at raw 0 (put_u16 6);
          raw = put_at raw 2 (put_u16 1);
          raw = put_at raw 4 (put_u32 (word_of_nat (ix_root ix)));
          raw = put_at raw 8 (put_u32 (word_of_nat (ix_nextFree ix)));
          raw = put_at raw 12 (put_u16 (ix_itemSize ix));
          raw = put_at raw 14 (put_u16 (ix_keySize ix));
          raw = put_at raw 16 (put_u16 (ix_decimals ix));
          raw = put_at raw 18 (put_u16 (ix_maxItem ix));
          raw = put_at raw 20 (put_u16 (ix_halfPage ix));
          raw = put_at raw 22 (take (maxKeyExpr - 1) (ix_keyExpr ix))
      in if ix_unique ix then put_at raw 278 [1] else raw)"

definition ntx_writeHeader :: "(ntx_index, unit) op" where
  "ntx_writeHeader = (\<lambda>ix. (ix\<lparr>ix_rw := writeAt (ix_rw ix) 0 (header_bytes ix)\<rparr>, Inr ()))"

definition ntx_readHeader :: "(ntx_index, unit) op" where
  "ntx_readHeader ix =
    (case readAt (ix_rw ix) 0 pageSize of
       Inl e \<Rightarrow> (ix, Inl (Wrap ''reading NTX header'' e))
     | Inr raw \<Rightarrow>
       let sig = get_u16 (seg 0 2 raw) in
       if sig \<noteq> 3 \<and> sig \<noteq> 6 \<and> sig \<noteq> 0x26 then (ix, Inl (Errorf ''unsupported NTX signature''))
       else
         let ix = ix\<lparr>
               ix_root := unat (get_u32 (seg 4 4 raw)),
               ix_nextFree := unat (get_u32 (seg 8 4 raw)),
               ix_itemSize := get_u16 (seg 12 2 raw),
               ix_keySize := get_u16 (seg 14 2 raw),
               ix_decimals := get_u16 (seg 16 2 raw),
               ix_maxItem := get_u16 (seg 18 2 raw),
               ix_halfPage := get_u16 (seg 20 2 raw),
               ix_keyExpr := takeWhile (\<lambda>c. c \<noteq> 0) (seg 22 maxKeyExpr raw),
               ix_unique := raw ! 278 \<noteq> 0\<rparr> in
         if ix_keySize ix = 0 \<or> ix_keySize ix > MaxKeySize then (ix, Inl (Errorf ''bad key size''))
         else if ix_itemSize ix \<noteq> ix_keySize ix + 8
           then (ix, Inl (Errorf ''item size disagrees with key size''))
         else if ix_maxItem ix = 0 \<or> ix_maxItem ix > computeMaxItem (ix_itemSize ix)
           then (ix, Inl (Errorf ''max item does not fit a page''))
         else if ix_root ix = 0 \<or> ix_root ix mod pageSize \<noteq> 0
           then (ix, Inl (Errorf ''bad root page offset''))
         else (ix, Inr ()))"

section \<open>Node pages\<close>

definition readItem :: "ntx_index \<Rightarrow> bytes \<Rightarrow> nat \<Rightarrow> error + item" where
  "readItem ix raw slot =
     (let itemOff = unat (get_u16 (seg (2 + 2 * slot) 2 raw)) in
      if itemOff < 2 \<or> itemOff + unat (ix_itemSize ix) > pageSize
      then Inl (Errorf ''slot points outside the page'')
      else Inr \<lparr>it_child = unat (get_u32 (seg itemOff 4 raw)),
                it_recno = get_u32 (seg (itemOff + 4) 4 raw),
                it_key = seg (itemOff + 8) (unat (ix_keySize ix)) raw\<rparr>)"

definition decode_page :: "ntx_index \<Rightarrow> nat \<Rightarrow> bytes \<Rightarrow> error + node" where
  "decode_page ix off raw =
     (let count = unat (get_u16 (seg 0 2 raw)) in
      if count > unat (ix_maxItem ix) then Inl (Errorf ''page claims too many items'')
      else bindR (mapR (readItem ix raw) [0..<count]) (\<lambda>items.
           bindR (readItem ix raw count) (\<lambda>r.
           Inr \<lparr>nd_offset = off, nd_items = items, nd_right = it_child r,
                nd_leaf = (list_all (\<lambda>it. it_child it = 0) items \<and> it_child r = 0)\<rparr>)))"

definition readNode :: "ntx_index \<Rightarrow> nat \<Rightarrow> error + node" where
  "readNode ix off =
     (if off = 0 \<or> off mod pageSize \<noteq> 0 then Inl (Errorf ''bad page offset'')
      else case readAt (ix_rw ix) off pageSize of
             Inl e \<Rightarrow> Inl (Wrap ''reading page'' e)
           | Inr raw \<Rightarrow> decode_page ix off raw)"

definition itemArea :: "ntx_index \<Rightarrow> nat" where
  "itemArea ix = 2 + 2 * (unat (ix_maxItem ix) + 1)"

definition slot_table :: "ntx_index \<Rightarrow> bytes list" where
  "slot_table ix = map (\<lambda>slot. put_u16 (word_of_nat (itemArea ix + slot * unat (ix_itemSize ix))))
     [0..<Suc (unat (ix_maxItem ix))]"

definition item_bytes :: "item \<Rightarrow> bytes" where
  "item_bytes it = put_u32 (word_of_nat (it_child it)) @ put_u32 (it_recno it) @ it_key it"

definition node_bytes :: "ntx_index \<Rightarrow> node \<Rightarrow> bytes" where
  "node_bytes ix n =
     (let raw = replicate pageSize 0;
          raw = put_at raw 0 (put_u16 (word_of_nat (length (nd_items n))));
          raw = put_fields 2 (slot_table ix) raw;
          raw = put_fields (itemArea ix) (map item_bytes (nd_items n)) raw
      in put_at raw (itemArea ix + length (nd_items n) * unat (ix_itemSize ix))
           (put_u32 (word_of_nat (nd_right n))))"

definition writeNode :: "node \<Rightarrow> (ntx_index, unit) op" where
  "writeNode n ix =
     (if length (nd_items n) > unat (ix_maxItem ix) then (ix, Inl (Errorf ''node has too many items''))
      else if \<not> list_all (\<lambda>it. length (it_key it) = unat (ix_keySize ix)) (nd_items n)
        then (ix, Inl (Errorf ''item key has the wrong length''))
      else (ix\<lparr>ix_rw := writeAt (ix_rw ix) (nd_offset n) (node_bytes ix n)\<rparr>, Inr ()))"

section \<open>The free-page list\<close>

definition allocPage :: "(ntx_index, nat) op" where
  "allocPage ix =
     (if ix_nextFree ix \<noteq> 0 then
        (case readAt (ix_rw ix) (ix_nextFree ix) 4 of
           Inl e \<Rightarrow> (ix, Inl (Wrap ''reading free page'' e))
         | Inr raw \<Rightarrow> (ix\<lparr>ix_nextFree := unat (get_u32 raw)\<rparr>, Inr (ix_nextFree ix)))
      else (ix\<lparr>ix_fileSize := ix_fileSize ix + pageSize\<rparr>, Inr (ix_fileSize ix)))"

definition freePage :: "nat \<Rightarrow> (ntx_index, unit) op" where
  "freePage off = (\<lambda>ix.
     let raw = put_at (replicate pageSize 0) 0 (put_u32 (word_of_nat (ix_nextFree ix)))
     in (ix\<lparr>ix_rw := writeAt (ix_rw ix) off raw, ix_nextFree := off\<rparr>, Inr ()))"


section \<open>Geometry\<close>

text \<open>What \<open>Create\<close> establishes and \<open>readHeader\<close> checks of the sizes.\<close>

definition geom_ok :: "ntx_index \<Rightarrow> bool" where
  "geom_ok ix \<longleftrightarrow> ix_keySize ix \<noteq> 0 \<and> ix_keySize ix \<le> MaxKeySize
     \<and> ix_itemSize ix = ix_keySize ix + 8
     \<and> ix_maxItem ix \<noteq> 0 \<and> ix_maxItem ix \<le> computeMaxItem (ix_itemSize ix)"

lemma unat_itemSize:
  assumes "k \<le> (250 :: u16)"
  shows "unat (k + 8) = unat k + 8"
  using assms by (simp add: unat_word_ariths word_le_nat_alt)

lemma unat_computeMaxItem:
  assumes "1 \<le> (k :: u16)" "k \<le> 250"
  shows "unat (computeMaxItem (k + 8)) = 1022 div (unat k + 10) - 1"
proof -
  have k: "1 \<le> unat k" "unat k \<le> 250"
    using assms by (simp_all add: word_le_nat_alt)
  define d :: u16 where "d = (1024 - 2) div (k + 8 + 2)"
  have "unat (k + 8 + 2) = unat k + 10"
    using k by (simp add: unat_word_ariths)
  then have d: "unat d = 1022 div (unat k + 10)"
    by (simp only: d_def unat_div) simp
  moreover have "1 \<le> 1022 div (unat k + 10)"
    using k by (simp add: Suc_le_eq div_greater_zero_iff)
  ultimately have "1 \<le> d"
    by (simp add: word_le_nat_alt)
  then show ?thesis
    by (simp only: computeMaxItem_def d_def [symmetric] unat_sub d) simp
qed

lemma geom_nat:
  assumes "geom_ok ix"
  shows "unat (ix_itemSize ix) = unat (ix_keySize ix) + 8"
    and "1 \<le> unat (ix_keySize ix)" and "unat (ix_keySize ix) \<le> 250"
    and "1 \<le> unat (ix_maxItem ix)"
    and "(unat (ix_maxItem ix) + 1) * (unat (ix_itemSize ix) + 2) \<le> 1022"
proof -
  have k: "1 \<le> ix_keySize ix" "ix_keySize ix \<le> 250"
    using assms by (auto simp: geom_ok_def MaxKeySize_def word_le_nat_alt unat_eq_0 Suc_le_eq
        intro: unat_gt_0 [THEN iffD2])
  have s: "ix_itemSize ix = ix_keySize ix + 8"
    using assms by (simp add: geom_ok_def)
  show kk: "1 \<le> unat (ix_keySize ix)" "unat (ix_keySize ix) \<le> 250"
    using k by (simp_all add: word_le_nat_alt)
  show i: "unat (ix_itemSize ix) = unat (ix_keySize ix) + 8"
    using unat_itemSize [OF k(2)] s by simp
  have m0: "ix_maxItem ix \<noteq> 0" and m: "unat (ix_maxItem ix) \<le> 1022 div (unat (ix_keySize ix) + 10) - 1"
    using assms unat_computeMaxItem [OF k] by (auto simp: geom_ok_def word_le_nat_alt s)
  show "1 \<le> unat (ix_maxItem ix)"
    using m0 by (simp add: Suc_le_eq unat_gt_0)
  then have "unat (ix_maxItem ix) + 1 \<le> 1022 div (unat (ix_keySize ix) + 10)"
    using m by simp
  then have "(unat (ix_maxItem ix) + 1) * (unat (ix_keySize ix) + 10)
      \<le> 1022 div (unat (ix_keySize ix) + 10) * (unat (ix_keySize ix) + 10)"
    by (rule mult_le_mono1)
  also have "\<dots> \<le> 1022"
    by simp
  finally show "(unat (ix_maxItem ix) + 1) * (unat (ix_itemSize ix) + 2) \<le> 1022"
    by (simp add: i algebra_simps)
qed

text \<open>Slots and items of a page: where the code puts them, they fit the page.\<close>

lemma itemArea_fits:
  assumes "geom_ok ix" "n \<le> unat (ix_maxItem ix)"
  shows "itemArea ix + n * unat (ix_itemSize ix) + unat (ix_itemSize ix) \<le> pageSize"
proof -
  have "n * unat (ix_itemSize ix) \<le> unat (ix_maxItem ix) * unat (ix_itemSize ix)"
    by (rule mult_le_mono1 [OF assms(2)])
  moreover have "(unat (ix_maxItem ix) + 1) * (unat (ix_itemSize ix) + 2)
      = unat (ix_maxItem ix) * unat (ix_itemSize ix) + 2 * unat (ix_maxItem ix)
        + unat (ix_itemSize ix) + 2"
    by (simp add: algebra_simps)
  moreover have "2 + 2 * (m + 1) + a + w \<le> 1024"
    if "a \<le> b" "c = b + 2 * m + w + 2" "c \<le> 1022" for a b c m w :: nat
    using that by simp
  ultimately show ?thesis
    using geom_nat(5) [OF assms(1)] unfolding itemArea_def pageSize_def by blast
qed

section \<open>A written page decodes to the node\<close>

definition node_ok :: "ntx_index \<Rightarrow> node \<Rightarrow> bool" where
  "node_ok ix n \<longleftrightarrow> length (nd_items n) \<le> unat (ix_maxItem ix)
     \<and> list_all (\<lambda>it. length (it_key it) = unat (ix_keySize ix) \<and> it_child it < 2 ^ 32) (nd_items n)
     \<and> nd_right n < 2 ^ 32
     \<and> nd_leaf n = (list_all (\<lambda>it. it_child it = 0) (nd_items n) \<and> nd_right n = 0)"

lemma length_node_bytes [simp]: "length (node_bytes ix n) = pageSize"
  by (simp add: node_bytes_def Let_def)

lemma length_item_bytes:
  assumes "geom_ok ix" "node_ok ix n" "f \<in> set (map item_bytes (nd_items n))"
  shows "length f = unat (ix_itemSize ix)"
  using assms geom_nat(1) [OF assms(1)] by (auto simp: item_bytes_def node_ok_def list_all_iff)

lemma sum_item_bytes:
  assumes "geom_ok ix" "node_ok ix n"
  shows "sum_list (map length (map item_bytes (nd_items n))) = length (nd_items n) * unat (ix_itemSize ix)"
proof -
  have "map length (map item_bytes (nd_items n)) = map (\<lambda>_. unat (ix_itemSize ix)) (nd_items n)"
    using length_item_bytes [OF assms] by auto
  then show ?thesis
    by (metis sum_list_triv of_nat_id)
qed

lemma sum_slot_table: "sum_list (map length (slot_table ix)) = 2 * (unat (ix_maxItem ix) + 1)"
  by (simp add: slot_table_def comp_def sum_list_triv del: upt_Suc)

lemma seg_node_count:
  assumes "geom_ok ix" "node_ok ix n"
  shows "seg 0 2 (node_bytes ix n) = put_u16 (word_of_nat (length (nd_items n)))"
  using itemArea_fits [OF assms(1), of "length (nd_items n)"] sum_item_bytes [OF assms] assms
  by (simp add: node_bytes_def Let_def seg_put_at_other seg_put_fields_other seg_put_at_same
      itemArea_def pageSize_def node_ok_def)

lemma seg_node_slot:
  assumes "geom_ok ix" "node_ok ix n" "slot \<le> unat (ix_maxItem ix)"
  shows "seg (2 + 2 * slot) 2 (node_bytes ix n)
    = put_u16 (word_of_nat (itemArea ix + slot * unat (ix_itemSize ix)))"
proof -
  have b: "2 + 2 * slot + 2 \<le> itemArea ix" "itemArea ix \<le> pageSize"
    using assms(3) itemArea_fits [OF assms(1), of 0] by (simp_all add: itemArea_def)
  let ?raw = "put_at (replicate pageSize 0) 0 (put_u16 (word_of_nat (length (nd_items n))))"
  have "seg (2 + slot * 2) 2 (put_fields 2 (slot_table ix) ?raw) = slot_table ix ! slot"
    using b assms(3) by (intro seg_put_fields_nth)
      (auto simp: slot_table_def itemArea_def simp del: upt_Suc)
  moreover have "slot_table ix ! slot = put_u16 (word_of_nat (itemArea ix + slot * unat (ix_itemSize ix)))"
    using assms(3) by (simp add: slot_table_def del: upt_Suc)
  moreover have "seg (2 + 2 * slot) 2 (node_bytes ix n)
      = seg (2 + 2 * slot) 2 (put_fields 2 (slot_table ix) ?raw)"
    using b by (simp add: node_bytes_def Let_def seg_put_at_other seg_put_fields_other)
  ultimately show ?thesis
    by (simp add: mult.commute)
qed

lemma seg_node_item:
  assumes "geom_ok ix" "node_ok ix n" "i < length (nd_items n)"
  shows "seg (itemArea ix + i * unat (ix_itemSize ix)) (unat (ix_itemSize ix)) (node_bytes ix n)
    = item_bytes (nd_items n ! i)"
proof -
  let ?w = "unat (ix_itemSize ix)"
  have len: "length (nd_items n) \<le> unat (ix_maxItem ix)"
    using assms(2) by (simp add: node_ok_def)
  have fit: "itemArea ix + length (nd_items n) * ?w + ?w \<le> pageSize"
    using itemArea_fits [OF assms(1) len] .
  have ii: "i * ?w + ?w \<le> length (nd_items n) * ?w"
    using mult_le_mono1 [of "Suc i" "length (nd_items n)" ?w] assms(3) by simp
  let ?raw = "put_fields 2 (slot_table ix) (put_at (replicate pageSize 0) 0
      (put_u16 (word_of_nat (length (nd_items n)))))"
  have "seg (itemArea ix + i * ?w) ?w (put_fields (itemArea ix) (map item_bytes (nd_items n)) ?raw)
      = map item_bytes (nd_items n) ! i"
    using assms(3) fit length_item_bytes [OF assms(1,2)] by (intro seg_put_fields_nth) auto
  moreover have "seg (itemArea ix + i * ?w) ?w (node_bytes ix n)
      = seg (itemArea ix + i * ?w) ?w (put_fields (itemArea ix) (map item_bytes (nd_items n)) ?raw)"
    using fit ii by (simp add: node_bytes_def Let_def seg_put_at_other)
  ultimately show ?thesis
    using assms(3) by simp
qed

lemma seg_node_right:
  assumes "geom_ok ix" "node_ok ix n"
  shows "seg (itemArea ix + length (nd_items n) * unat (ix_itemSize ix)) 4 (node_bytes ix n)
    = put_u32 (word_of_nat (nd_right n))"
proof -
  have "length (nd_items n) \<le> unat (ix_maxItem ix)"
    using assms(2) by (simp add: node_ok_def)
  then show ?thesis
    using itemArea_fits [OF assms(1)] geom_nat(1) [OF assms(1)]
    by (fastforce simp: node_bytes_def Let_def intro!: seg_put_at_same)
qed

lemma slot_offset:
  assumes "geom_ok ix" "slot \<le> unat (ix_maxItem ix)"
  shows "unat (word_of_nat (itemArea ix + slot * unat (ix_itemSize ix)) :: u16)
    = itemArea ix + slot * unat (ix_itemSize ix)"
  using itemArea_fits [OF assms] by (subst unat_of_nat) (simp add: pageSize_def)

lemma readItem_node:
  assumes "geom_ok ix" "node_ok ix n" "i < length (nd_items n)"
  shows "readItem ix (node_bytes ix n) i = Inr (nd_items n ! i)"
proof -
  let ?o = "itemArea ix + i * unat (ix_itemSize ix)"
  have i: "i \<le> unat (ix_maxItem ix)"
    using assms by (simp add: node_ok_def)
  note item = seg_node_item [OF assms]
  have ok: "length (it_key (nd_items n ! i)) = unat (ix_keySize ix)" "it_child (nd_items n ! i) < 2 ^ 32"
    using assms(2,3) by (auto simp: node_ok_def list_all_iff)
  have w: "unat (ix_itemSize ix) = unat (ix_keySize ix) + 8"
    by (rule geom_nat(1) [OF assms(1)])
  have "seg ?o 4 (node_bytes ix n) = seg 0 4 (item_bytes (nd_items n ! i))"
    and "seg (?o + 4) 4 (node_bytes ix n) = seg 4 4 (item_bytes (nd_items n ! i))"
    and "seg (?o + 8) (unat (ix_keySize ix)) (node_bytes ix n)
      = seg 8 (unat (ix_keySize ix)) (item_bytes (nd_items n ! i))"
    unfolding item [symmetric] by (simp_all add: seg_seg w)
  then have "seg ?o 4 (node_bytes ix n) = put_u32 (word_of_nat (it_child (nd_items n ! i)))"
    and "seg (?o + 4) 4 (node_bytes ix n) = put_u32 (it_recno (nd_items n ! i))"
    and "seg (?o + 8) (unat (ix_keySize ix)) (node_bytes ix n) = it_key (nd_items n ! i)"
    using ok by (simp_all add: item_bytes_def seg_def)
  then show ?thesis
    using itemArea_fits [OF assms(1) i] ok
    unfolding readItem_def seg_node_slot [OF assms(1,2) i] get_put_u16 slot_offset [OF assms(1) i] Let_def
    by (simp add: get_put_u32 unat_of_nat) (simp add: itemArea_def)
qed

lemma readItem_right:
  assumes "geom_ok ix" "node_ok ix n"
  shows "\<exists>r. readItem ix (node_bytes ix n) (length (nd_items n)) = Inr r \<and> it_child r = nd_right n"
proof -
  have i: "length (nd_items n) \<le> unat (ix_maxItem ix)"
    using assms by (simp add: node_ok_def)
  show ?thesis
    using itemArea_fits [OF assms(1) i] assms(2)
    unfolding readItem_def seg_node_slot [OF assms i] get_put_u16 slot_offset [OF assms(1) i] Let_def
      seg_node_right [OF assms]
    by (simp add: get_put_u32 unat_of_nat node_ok_def) (simp add: itemArea_def)
qed

lemma decode_node_bytes [codec]:
  assumes "geom_ok ix" "node_ok ix n"
  shows "decode_page ix (nd_offset n) (node_bytes ix n) = Inr n"
proof -
  have len: "length (nd_items n) \<le> unat (ix_maxItem ix)" "unat (ix_maxItem ix) < 2 ^ 16"
    using assms unsigned_less [of "ix_maxItem ix"] by (simp_all add: node_ok_def)
  then have c: "unat (get_u16 (seg 0 2 (node_bytes ix n))) = length (nd_items n)"
    by (simp add: seg_node_count [OF assms] get_put_u16 unat_of_nat)
  have m: "mapR (readItem ix (node_bytes ix n)) [0..<length (nd_items n)] = Inr (nd_items n)"
    using mapR_map [of "[0..<length (nd_items n)]" "readItem ix (node_bytes ix n)" "(!) (nd_items n)"]
      readItem_node [OF assms] by (simp add: map_nth)
  obtain r where r: "readItem ix (node_bytes ix n) (length (nd_items n)) = Inr r"
      "it_child r = nd_right n"
    using readItem_right [OF assms] by blast
  show ?thesis
    using assms(2) len by (simp add: decode_page_def c m r Let_def node_ok_def)
qed

section \<open>A written header reads back\<close>

text \<open>The key expression as the header can hold it: at most 255 bytes, none of them NUL.\<close>

definition expr_ok :: "ntx_index \<Rightarrow> bool" where
  "expr_ok ix \<longleftrightarrow> length (ix_keyExpr ix) < maxKeyExpr \<and> 0 \<notin> set (ix_keyExpr ix)"

definition header_current :: "ntx_index \<Rightarrow> bool" where
  "header_current ix \<longleftrightarrow> readAt (ix_rw ix) 0 pageSize = Inr (header_bytes ix)"

lemma length_header_bytes [simp]: "length (header_bytes ix) = pageSize"
  by (simp add: header_bytes_def Let_def)

lemma seg_put_at_front:
  assumes "length bs \<le> n" "off + n \<le> length raw"
  shows "seg off n (put_at raw off bs) = bs @ seg (off + length bs) (n - length bs) raw"
  using assms by (intro nth_equalityI) (auto simp: nth_put_at nth_append)

lemma seg_replicate: "off + n \<le> m \<Longrightarrow> seg off n (replicate m x) = replicate n x"
  by (intro nth_equalityI) simp_all

lemma header_flag: "header_bytes ix ! 278 = (if ix_unique ix then 1 else 0)"
  by (simp add: header_bytes_def Let_def nth_put_at pageSize_def maxKeyExpr_def)

lemma header_expr:
  assumes "expr_ok ix"
  shows "takeWhile (\<lambda>c. c \<noteq> 0) (seg 22 maxKeyExpr (header_bytes ix)) = ix_keyExpr ix"
proof -
  have len: "length (ix_keyExpr ix) \<le> 255"
    using assms by (simp add: expr_ok_def maxKeyExpr_def)
  then have "seg 22 maxKeyExpr (header_bytes ix)
      = ix_keyExpr ix @ replicate (256 - length (ix_keyExpr ix)) 0"
    by (simp add: header_bytes_def Let_def maxKeyExpr_def pageSize_def seg_put_at_front
        seg_put_at_other seg_replicate)
  then show ?thesis
    using assms len by (auto simp: expr_ok_def takeWhile_append gr0_conv_Suc)
qed

lemma header_fields:
  "get_u16 (seg 0 2 (header_bytes ix)) = 6"
  "get_u32 (seg 4 4 (header_bytes ix)) = word_of_nat (ix_root ix)"
  "get_u32 (seg 8 4 (header_bytes ix)) = word_of_nat (ix_nextFree ix)"
  "get_u16 (seg 12 2 (header_bytes ix)) = ix_itemSize ix"
  "get_u16 (seg 14 2 (header_bytes ix)) = ix_keySize ix"
  "get_u16 (seg 16 2 (header_bytes ix)) = ix_decimals ix"
  "get_u16 (seg 18 2 (header_bytes ix)) = ix_maxItem ix"
  "get_u16 (seg 20 2 (header_bytes ix)) = ix_halfPage ix"
  by (simp_all add: header_bytes_def Let_def pageSize_def maxKeyExpr_def seg_put_at_same seg_put_at_other
      get_put_u16 get_put_u32)

lemma open_header:
  assumes "header_current ix" "expr_ok ix" "geom_ok ix"
    and "ix_root ix < 2 ^ 32" "0 < ix_root ix" "pageSize dvd ix_root ix" "ix_nextFree ix < 2 ^ 32"
    and "ix_rw ix0 = ix_rw ix" "ix_fileSize ix0 = ix_fileSize ix"
  shows "ntx_readHeader ix0 = (ix, Inr ())"
proof -
  have "unat (word_of_nat (ix_root ix) :: u32) = ix_root ix"
    "unat (word_of_nat (ix_nextFree ix) :: u32) = ix_nextFree ix"
    using assms(4,7) by (simp_all add: unat_of_nat)
  moreover have "ix_keySize ix \<noteq> 0" "\<not> MaxKeySize < ix_keySize ix" "ix_itemSize ix = ix_keySize ix + 8"
    "ix_maxItem ix \<noteq> 0" "\<not> computeMaxItem (ix_keySize ix + 8) < ix_maxItem ix"
    using assms(3) by (auto simp: geom_ok_def not_less)
  ultimately show ?thesis
    using assms header_expr [OF assms(2)]
    by (simp add: ntx_readHeader_def header_current_def header_fields header_flag Let_def
        mod_eq_0_iff_dvd)
qed

end
