(* ===== verification/NtxTree.thy ===== *)
theory NtxTree
  imports NtxPage
begin

text \<open>
  \<open>tree.go\<close> of package \<open>ntx\<close>: creating and opening an index, the order of entries, the binary
  search within a node, and the exact-key query.  The descent loops take a fuel; \<open>ntx_fuel\<close> is
  the number of pages of the file, which bounds the depth of any tree without a cycle, and a
  well-formed index never uses it up (\<open>ContainsKey_correct\<close> and its kin return a value).
\<close>

section \<open>Entries and their order\<close>

datatype entry = Entry (ent_key: bytes) (ent_recno: u32)

text \<open>\<open>bytes.Compare\<close>.\<close>

fun bytes_compare :: "bytes \<Rightarrow> bytes \<Rightarrow> int" where
  "bytes_compare [] [] = 0"
| "bytes_compare [] (y # ys) = -1"
| "bytes_compare (x # xs) [] = 1"
| "bytes_compare (x # xs) (y # ys) =
     (if x < y then -1 else if y < x then 1 else bytes_compare xs ys)"

definition compareEntries :: "bytes \<Rightarrow> u32 \<Rightarrow> bytes \<Rightarrow> u32 \<Rightarrow> int" where
  "compareEntries aKey aRecno bKey bRecno =
     (let c = bytes_compare aKey bKey in
      if c \<noteq> 0 then c
      else if aRecno < bRecno then -1 else if aRecno > bRecno then 1 else 0)"

lemma bytes_compare_less: "bytes_compare xs ys < 0 \<longleftrightarrow> xs < ys"
  by (induction xs ys rule: bytes_compare.induct) auto

lemma bytes_compare_eq: "bytes_compare xs ys = 0 \<longleftrightarrow> xs = ys"
  by (induction xs ys rule: bytes_compare.induct) auto

text \<open>Entries are ordered by the code's comparison.\<close>

instantiation entry :: linorder
begin

definition less_eq_entry :: "entry \<Rightarrow> entry \<Rightarrow> bool" where
  "less_eq_entry a b \<longleftrightarrow> compareEntries (ent_key a) (ent_recno a) (ent_key b) (ent_recno b) \<le> 0"

definition less_entry :: "entry \<Rightarrow> entry \<Rightarrow> bool" where
  "less_entry a b \<longleftrightarrow> compareEntries (ent_key a) (ent_recno a) (ent_key b) (ent_recno b) < 0"

lemma less_entry_iff:
  "a < b \<longleftrightarrow> ent_key a < ent_key b \<or> ent_key a = ent_key b \<and> ent_recno a < ent_recno b"
  using bytes_compare_less [of "ent_key a" "ent_key b"] bytes_compare_eq [of "ent_key a" "ent_key b"]
  by (auto simp: less_entry_def compareEntries_def Let_def)

lemma less_eq_entry_iff:
  "a \<le> b \<longleftrightarrow> ent_key a < ent_key b \<or> ent_key a = ent_key b \<and> ent_recno a \<le> ent_recno b"
  using bytes_compare_less [of "ent_key a" "ent_key b"] bytes_compare_eq [of "ent_key a" "ent_key b"]
  by (auto simp: less_eq_entry_def compareEntries_def Let_def not_less)

instance
proof
  fix x y z :: entry
  show "x < y \<longleftrightarrow> x \<le> y \<and> \<not> y \<le> x"
    by (auto simp: less_entry_iff less_eq_entry_iff)
  show "x \<le> x"
    by (simp add: less_eq_entry_iff)
  show "x \<le> y \<Longrightarrow> y \<le> z \<Longrightarrow> x \<le> z"
    by (auto simp: less_eq_entry_iff)
  show "x \<le> y \<Longrightarrow> y \<le> x \<Longrightarrow> x = y"
    by (auto simp: less_eq_entry_iff intro: entry.expand)
  show "x \<le> y \<or> y \<le> x"
    by (auto simp: less_eq_entry_iff)
qed

end

definition item_entry :: "item \<Rightarrow> entry" where
  "item_entry it = Entry (it_key it) (it_recno it)"

lemma compare_less [simp]: "compareEntries k r k' r' < 0 \<longleftrightarrow> Entry k r < Entry k' r'"
  by (simp add: less_entry_def)

lemma compare_le [simp]: "compareEntries k r k' r' \<le> 0 \<longleftrightarrow> Entry k r \<le> Entry k' r'"
  by (simp add: less_eq_entry_def)

lemma compare_eq [simp]: "compareEntries k r k' r' = 0 \<longleftrightarrow> k = k' \<and> r = r'"
  using bytes_compare_eq [of k k'] by (auto simp: compareEntries_def Let_def)

section \<open>Search within a node\<close>

function find_below :: "item list \<Rightarrow> bytes \<Rightarrow> u32 \<Rightarrow> nat \<Rightarrow> nat \<Rightarrow> nat" where
  "find_below items key recno lo hi =
     (if lo < hi then
        let mid = (lo + hi) div 2; it = items ! mid in
        if compareEntries (it_key it) (it_recno it) key recno < 0
        then find_below items key recno (mid + 1) hi
        else find_below items key recno lo mid
      else lo)"
  by pat_completeness auto
termination
  by (relation "measure (\<lambda>(items, key, recno, lo, hi). hi - lo)") auto

declare find_below.simps [simp del]

definition findInNode :: "node \<Rightarrow> bytes \<Rightarrow> u32 \<Rightarrow> nat" where
  "findInNode n key recno = find_below (nd_items n) key recno 0 (length (nd_items n))"

function find_upto :: "item list \<Rightarrow> bytes \<Rightarrow> u32 \<Rightarrow> nat \<Rightarrow> nat \<Rightarrow> nat" where
  "find_upto items key recno lo hi =
     (if lo < hi then
        let mid = (lo + hi) div 2; it = items ! mid in
        if compareEntries (it_key it) (it_recno it) key recno \<le> 0
        then find_upto items key recno (mid + 1) hi
        else find_upto items key recno lo mid
      else lo)"
  by pat_completeness auto
termination
  by (relation "measure (\<lambda>(items, key, recno, lo, hi). hi - lo)") auto

declare find_upto.simps [simp del]

definition findAbove :: "node \<Rightarrow> bytes \<Rightarrow> u32 \<Rightarrow> nat" where
  "findAbove n key recno = find_upto (nd_items n) key recno 0 (length (nd_items n))"

text \<open>
  Both loops are the bisection of a test that, on a sorted node, holds of a prefix.  The
  interface: the loop's unfolding; the client: it returns the length of that prefix.
\<close>

locale bisection =
  fixes test :: "nat \<Rightarrow> bool" and search :: "nat \<Rightarrow> nat \<Rightarrow> nat"
  assumes search_unfold:
    "search lo hi = (if lo < hi then
       if test ((lo + hi) div 2) then search ((lo + hi) div 2 + 1) hi else search lo ((lo + hi) div 2)
     else lo)"
begin

lemma search_prefix:
  assumes "\<And>i. i < p \<Longrightarrow> test i" and "\<And>i. p \<le> i \<Longrightarrow> i < n \<Longrightarrow> \<not> test i"
    and "lo \<le> p" "p \<le> hi" "hi \<le> n"
  shows "search lo hi = p"
  using assms(3-)
proof (induction "hi - lo" arbitrary: lo hi rule: less_induct)
  case less
  let ?mid = "(lo + hi) div 2"
  show ?case
  proof (cases "lo < hi")
    case False
    then show ?thesis
      using less.prems by (subst search_unfold) simp
  next
    case True
    then have mid: "lo \<le> ?mid" "?mid < hi"
      by simp_all
    show ?thesis
    proof (cases "?mid < p")
      case True
      have "search (?mid + 1) hi = p"
        using True less.prems mid by (intro less.hyps) auto
      then show ?thesis
        using True \<open>lo < hi\<close> assms(1) [of ?mid] by (subst search_unfold) simp
    next
      case False
      have "search lo ?mid = p"
        using False less.prems mid by (intro less.hyps) auto
      then show ?thesis
        using False \<open>lo < hi\<close> mid less.prems assms(2) [of ?mid] by (subst search_unfold) simp
    qed
  qed
qed

end

interpretation below: bisection
  "\<lambda>i. compareEntries (it_key (items ! i)) (it_recno (items ! i)) key recno < 0"
  "find_below items key recno" for items key recno
  by unfold_locales (subst find_below.simps, simp add: Let_def)

interpretation upto: bisection
  "\<lambda>i. compareEntries (it_key (items ! i)) (it_recno (items ! i)) key recno \<le> 0"
  "find_upto items key recno" for items key recno
  by unfold_locales (subst find_upto.simps, simp add: Let_def)

lemma nth_takeWhile_split:
  assumes "sorted xs" "\<And>x y. x \<le> y \<Longrightarrow> P y \<Longrightarrow> P x" "i < length xs"
  shows "P (xs ! i) \<longleftrightarrow> i < length (takeWhile P xs)"
proof
  assume "i < length (takeWhile P xs)"
  then show "P (xs ! i)"
    by (metis nth_mem set_takeWhileD takeWhile_nth)
next
  assume P: "P (xs ! i)"
  have "\<And>j. j \<le> i \<Longrightarrow> P (xs ! j)"
    using assms P sorted_nth_mono by blast
  then show "i < length (takeWhile P xs)"
    using assms(3) by (metis leI nth_length_takeWhile order_le_less_trans)
qed

abbreviation node_entries :: "node \<Rightarrow> entry list" where
  "node_entries n \<equiv> map item_entry (nd_items n)"

lemma findInNode_takeWhile:
  assumes "sorted (node_entries n)"
  shows "findInNode n key recno = length (takeWhile (\<lambda>e. e < Entry key recno) (node_entries n))"
proof -
  let ?P = "\<lambda>e. e < Entry key recno"
  have t: "?P (item_entry (nd_items n ! i)) \<longleftrightarrow> i < length (takeWhile ?P (node_entries n))"
    if "i < length (nd_items n)" for i
    using nth_takeWhile_split [OF assms, of ?P i] that by auto
  have len: "length (takeWhile ?P (node_entries n)) \<le> length (nd_items n)"
    using length_takeWhile_le [of ?P "node_entries n"] by simp
  show ?thesis
    unfolding findInNode_def
    using t len by (intro below.search_prefix [where n = "length (nd_items n)"])
      (auto simp: item_entry_def)
qed

lemma findAbove_takeWhile:
  assumes "sorted (node_entries n)"
  shows "findAbove n key recno = length (takeWhile (\<lambda>e. e \<le> Entry key recno) (node_entries n))"
proof -
  let ?P = "\<lambda>e. e \<le> Entry key recno"
  have t: "?P (item_entry (nd_items n ! i)) \<longleftrightarrow> i < length (takeWhile ?P (node_entries n))"
    if "i < length (nd_items n)" for i
    using nth_takeWhile_split [OF assms, of ?P i] that by auto
  have len: "length (takeWhile ?P (node_entries n)) \<le> length (nd_items n)"
    using length_takeWhile_le [of ?P "node_entries n"] by simp
  show ?thesis
    unfolding findAbove_def
    using t len by (intro upto.search_prefix [where n = "length (nd_items n)"])
      (auto simp: item_entry_def)
qed

section \<open>Create, Open, keys\<close>

record ntx_options =
  op_KeyExpr :: bytes
  op_KeySize :: u16
  op_Decimals :: u16
  op_Unique :: bool

definition ntx_Create :: "bytes \<Rightarrow> ntx_options \<Rightarrow> error + ntx_index" where
  "ntx_Create rw opts =
     (if op_KeySize opts = 0 \<or> op_KeySize opts > MaxKeySize then Inl (Errorf ''key size out of range'')
      else if length (op_KeyExpr opts) \<ge> maxKeyExpr then Inl (Errorf ''key expression too long'')
      else
        let itemSize = op_KeySize opts + 8; maxItem = computeMaxItem itemSize in
        if maxItem < 2 then Inl (Errorf ''fewer than 2 keys per page'')
        else
          let ix = \<lparr>ix_rw = rw, ix_keyExpr = op_KeyExpr opts, ix_keySize = op_KeySize opts,
                    ix_decimals = op_Decimals opts, ix_unique = op_Unique opts,
                    ix_itemSize = itemSize, ix_maxItem = maxItem, ix_halfPage = maxItem div 2,
                    ix_root = pageSize, ix_nextFree = 0, ix_fileSize = 2 * pageSize\<rparr> in
          case bindS ntx_writeHeader (\<lambda>_. writeNode
                 \<lparr>nd_offset = ix_root ix, nd_items = [], nd_right = 0, nd_leaf = True\<rparr>) ix of
            (ix, Inl e) \<Rightarrow> Inl e
          | (ix, Inr _) \<Rightarrow> Inr ix)"

definition ntx_Open :: "bytes \<Rightarrow> error + ntx_index" where
  "ntx_Open rw =
     (if length rw < 2 * pageSize then Inl (Errorf ''file too short for an NTX index'')
      else
        let ix = \<lparr>ix_rw = rw, ix_keyExpr = [], ix_keySize = 0, ix_decimals = 0, ix_unique = False,
                  ix_itemSize = 0, ix_maxItem = 0, ix_halfPage = 0,
                  ix_root = 0, ix_nextFree = 0, ix_fileSize = length rw\<rparr> in
        case ntx_readHeader ix of
          (ix, Inl e) \<Rightarrow> Inl e
        | (ix, Inr _) \<Rightarrow> Inr ix)"

definition normalizeKey :: "ntx_index \<Rightarrow> bytes \<Rightarrow> error + bytes" where
  "normalizeKey ix key =
     (if length key > unat (ix_keySize ix) then Inl (Errorf ''key is too long'')
      else if length key = unat (ix_keySize ix) then Inr key
      else Inr (key @ replicate (unat (ix_keySize ix) - length key) 0x20))"

definition ntx_fuel :: "ntx_index \<Rightarrow> nat" where
  "ntx_fuel ix = ix_fileSize ix div pageSize"

fun containsLoop :: "nat \<Rightarrow> ntx_index \<Rightarrow> bytes \<Rightarrow> nat \<Rightarrow> error + bool" where
  "containsLoop 0 ix key off = Inl OutOfFuel"
| "containsLoop (Suc fuel) ix key off =
     bindR (readNode ix off) (\<lambda>n.
       let i = findInNode n key 0 in
       if i < length (nd_items n) \<and> it_key (nd_items n ! i) = key then Inr True
       else if nd_leaf n then Inr False
       else containsLoop fuel ix key (childAt n i))"

definition ContainsKey :: "ntx_index \<Rightarrow> bytes \<Rightarrow> error + bool" where
  "ContainsKey ix key = bindR (normalizeKey ix key) (\<lambda>key. containsLoop (ntx_fuel ix) ix key (ix_root ix))"

lemma normalizeKey_length: "normalizeKey ix key = Inr k \<Longrightarrow> length k = unat (ix_keySize ix)"
  by (auto simp: normalizeKey_def split: if_splits)

lemma normalizeKey_full: "length k = unat (ix_keySize ix) \<Longrightarrow> normalizeKey ix k = Inr k"
  by (simp add: normalizeKey_def)

end
