(* ===== verification/NtxStore.thy ===== *)
theory NtxStore
  imports NtxTree
begin

text \<open>
  The index as a store of pages.  \<open>wf_store ix fs\<close> is the invariant of the page layer: the
  sizes agree, the file is a whole number of pages, and \<open>fs\<close> is the list of free pages that
  starts at \<open>nextFree\<close>.  \<open>keeps X\<close> is the frame relation of its operations: every page outside
  \<open>X\<close> keeps its bytes.  The locale \<open>page_store\<close> is the contract between the page layer and the
  tree operations, which write a handful of distinct pages in sequence.
\<close>

section \<open>The contract of a page store\<close>

fun seqS :: "('n \<Rightarrow> ('s, unit) op) \<Rightarrow> 'n list \<Rightarrow> ('s, unit) op" where
  "seqS wr [] = returnS ()"
| "seqS wr (n # ns) = bindS (wr n) (\<lambda>_. seqS wr ns)"

locale page_store =
  fixes rd :: "'s \<Rightarrow> nat \<Rightarrow> error + 'n"
    and wr :: "'n \<Rightarrow> ('s, unit) op"
    and addr :: "'n \<Rightarrow> nat"
    and wok :: "'s \<Rightarrow> 'n \<Rightarrow> bool"
    and inv :: "'s \<Rightarrow> bool"
    and frame :: "nat set \<Rightarrow> 's \<Rightarrow> 's \<Rightarrow> bool"
  assumes wr_law: "inv s \<Longrightarrow> wok s n \<Longrightarrow>
      \<exists>s'. wr n s = (s', Inr ()) \<and> inv s' \<and> frame {addr n} s s' \<and> rd s' (addr n) = Inr n"
    and frame_refl: "frame {} s s"
    and frame_trans: "frame X s s' \<Longrightarrow> frame Y s' s'' \<Longrightarrow> frame (X \<union> Y) s s''"
    and frame_read: "frame X s s' \<Longrightarrow> off \<notin> X \<Longrightarrow> rd s off = Inr m \<Longrightarrow> rd s' off = Inr m"
    and frame_wok: "frame X s s' \<Longrightarrow> wok s n \<Longrightarrow> wok s' n"
begin

lemma write_all:
  assumes "inv s" "list_all (wok s) ns" "distinct (map addr ns)"
  shows "\<exists>s'. seqS wr ns s = (s', Inr ()) \<and> inv s' \<and> frame (addr ` set ns) s s'
    \<and> (\<forall>n \<in> set ns. rd s' (addr n) = Inr n)"
  using assms
proof (induction ns arbitrary: s)
  case Nil
  then show ?case
    by (auto simp: returnS_apply frame_refl)
next
  case (Cons n ns)
  obtain s1 where s1: "wr n s = (s1, Inr ())" "inv s1" "frame {addr n} s s1" "rd s1 (addr n) = Inr n"
    using wr_law Cons.prems by force
  have "list_all (wok s1) ns"
    using Cons.prems s1(3) by (auto simp: list_all_iff intro: frame_wok)
  then obtain s2 where s2: "seqS wr ns s1 = (s2, Inr ())" "inv s2" "frame (addr ` set ns) s1 s2"
      "\<forall>n \<in> set ns. rd s2 (addr n) = Inr n"
    using Cons.IH [OF s1(2)] Cons.prems by auto
  have "rd s2 (addr n) = Inr n"
    using frame_read [OF s2(3) _ s1(4)] Cons.prems(3) by auto
  moreover have "frame (addr ` set (n # ns)) s s2"
    using frame_trans [OF s1(3) s2(3)] by simp
  ultimately show ?case
    using s1(1) s2 by (auto simp: steps)
qed

end

section \<open>The frame relation and the invariant of the index\<close>

definition same_shape :: "ntx_index \<Rightarrow> ntx_index \<Rightarrow> bool" where
  "same_shape ix ix' \<longleftrightarrow> ix_keySize ix' = ix_keySize ix \<and> ix_itemSize ix' = ix_itemSize ix
     \<and> ix_maxItem ix' = ix_maxItem ix \<and> ix_halfPage ix' = ix_halfPage ix
     \<and> ix_unique ix' = ix_unique ix \<and> ix_keyExpr ix' = ix_keyExpr ix \<and> ix_decimals ix' = ix_decimals ix"

definition keeps :: "nat set \<Rightarrow> ntx_index \<Rightarrow> ntx_index \<Rightarrow> bool" where
  "keeps X ix ix' \<longleftrightarrow> same_shape ix ix' \<and> ix_fileSize ix \<le> ix_fileSize ix'
     \<and> length (ix_rw ix) \<le> length (ix_rw ix')
     \<and> (\<forall>off bs. off \<notin> X \<longrightarrow> pageSize dvd off \<longrightarrow>
          readAt (ix_rw ix) off pageSize = Inr bs \<longrightarrow> readAt (ix_rw ix') off pageSize = Inr bs)"

fun free_chain :: "bytes \<Rightarrow> nat \<Rightarrow> nat list \<Rightarrow> bool" where
  "free_chain f nf [] \<longleftrightarrow> nf = 0"
| "free_chain f nf (p # ps) \<longleftrightarrow> nf = p \<and> 0 < p \<and> pageSize dvd p \<and> p + pageSize \<le> length f
     \<and> p < 2 ^ 32 \<and> free_chain f (unat (get_u32 (seg p 4 f))) ps"

text \<open>Every page handed out has been written: the file is as long as the handle believes.\<close>

definition synced :: "ntx_index \<Rightarrow> bool" where
  "synced ix \<longleftrightarrow> length (ix_rw ix) = ix_fileSize ix"

definition wf_store :: "ntx_index \<Rightarrow> nat list \<Rightarrow> bool" where
  "wf_store ix fs \<longleftrightarrow> geom_ok ix \<and> pageSize dvd ix_fileSize ix \<and> 0 < ix_fileSize ix
     \<and> length (ix_rw ix) \<le> ix_fileSize ix
     \<and> distinct fs \<and> free_chain (ix_rw ix) (ix_nextFree ix) fs"

text \<open>A node that may be written: it fits its page, and the page is a page of the file that is
  not free.\<close>

definition writable :: "nat list \<Rightarrow> ntx_index \<Rightarrow> node \<Rightarrow> bool" where
  "writable fs ix n \<longleftrightarrow> node_ok ix n \<and> 0 < nd_offset n \<and> pageSize dvd nd_offset n
     \<and> nd_offset n \<notin> set fs \<and> nd_offset n + pageSize \<le> ix_fileSize ix"

lemma keeps_refl: "keeps {} ix ix"
  by (simp add: keeps_def same_shape_def)

lemma keeps_trans: "keeps X a b \<Longrightarrow> keeps Y b c \<Longrightarrow> keeps (X \<union> Y) a c"
  by (auto simp: keeps_def same_shape_def)

lemma keeps_mono: "keeps X a b \<Longrightarrow> X \<subseteq> Y \<Longrightarrow> keeps Y a b"
  by (auto simp: keeps_def)

lemma keeps_shape:
  assumes "keeps X ix ix'"
  shows "ix_keySize ix' = ix_keySize ix" "ix_itemSize ix' = ix_itemSize ix"
    "ix_maxItem ix' = ix_maxItem ix" "ix_halfPage ix' = ix_halfPage ix"
    "ix_unique ix' = ix_unique ix" "ix_keyExpr ix' = ix_keyExpr ix" "ix_decimals ix' = ix_decimals ix"
    "ix_fileSize ix \<le> ix_fileSize ix'" "length (ix_rw ix) \<le> length (ix_rw ix')"
  using assms by (auto simp: keeps_def same_shape_def)

lemma geom_ok_update [simp]:
  "geom_ok (ix\<lparr>ix_rw := f\<rparr>) = geom_ok ix" "geom_ok (ix\<lparr>ix_nextFree := nf\<rparr>) = geom_ok ix"
  "geom_ok (ix\<lparr>ix_fileSize := sz\<rparr>) = geom_ok ix" "geom_ok (ix\<lparr>ix_root := r\<rparr>) = geom_ok ix"
  by (simp_all add: geom_ok_def)

lemma decode_page_cong:
  assumes "ix_keySize ix' = ix_keySize ix" "ix_itemSize ix' = ix_itemSize ix" "ix_maxItem ix' = ix_maxItem ix"
  shows "decode_page ix' off raw = decode_page ix off raw"
proof -
  have "readItem ix' raw = readItem ix raw"
    using assms by (intro ext) (simp add: readItem_def Let_def)
  then show ?thesis
    using assms by (simp add: decode_page_def Let_def)
qed

lemma node_ok_cong:
  assumes "ix_keySize ix' = ix_keySize ix" "ix_maxItem ix' = ix_maxItem ix"
  shows "node_ok ix' n = node_ok ix n"
  using assms by (simp add: node_ok_def)

lemma readNode_Inr:
  assumes "readNode ix off = Inr n"
  shows "0 < off" "pageSize dvd off" "nd_offset n = off"
    "\<exists>raw. readAt (ix_rw ix) off pageSize = Inr raw \<and> decode_page ix off raw = Inr n"
  using assms
  by (auto simp: readNode_def decode_page_def Let_def bindR_Inr_iff mod_eq_0_iff_dvd
      split: if_splits sum.splits)

lemma keeps_readNode:
  assumes "keeps X ix ix'" "off \<notin> X" "readNode ix off = Inr n"
  shows "readNode ix' off = Inr n"
proof -
  obtain raw where raw: "readAt (ix_rw ix) off pageSize = Inr raw" "decode_page ix off raw = Inr n"
    using readNode_Inr(4) [OF assms(3)] by blast
  then have "readAt (ix_rw ix') off pageSize = Inr raw"
    using assms(1,2) readNode_Inr(2) [OF assms(3)] by (simp add: keeps_def)
  then show ?thesis
    using raw readNode_Inr(1,2) [OF assms(3)] decode_page_cong [of ix' ix] assms(1)
    by (simp add: readNode_def keeps_def same_shape_def mod_eq_0_iff_dvd)
qed

lemma free_chain_cong:
  assumes "free_chain f nf fs" "length f \<le> length f'"
    and "\<And>p. p \<in> set fs \<Longrightarrow> seg p 4 f' = seg p 4 f"
  shows "free_chain f' nf fs"
  using assms by (induction f nf fs rule: free_chain.induct) auto

lemma free_chain_pages:
  "free_chain f nf fs \<Longrightarrow> p \<in> set fs \<Longrightarrow> 0 < p \<and> pageSize dvd p \<and> p + pageSize \<le> length f \<and> p < 2 ^ 32"
  by (induction f nf fs rule: free_chain.induct) auto

text \<open>Two page-aligned offsets that differ are a page apart.\<close>

lemma aligned_apart:
  assumes "pageSize dvd a" "pageSize dvd b" "a \<noteq> b"
  shows "a + pageSize \<le> b \<or> b + pageSize \<le> a"
proof -
  obtain i j where "a = pageSize * i" "b = pageSize * j"
    using assms(1,2) unfolding dvd_def by blast
  moreover have "i + 1 \<le> j \<or> j + 1 \<le> i"
    using assms(3) calculation by auto
  ultimately show ?thesis
    using mult_le_mono2 [of "i + 1" j pageSize] mult_le_mono2 [of "j + 1" i pageSize]
    by (auto simp: distrib_left)
qed

lemma aligned_next:
  assumes "pageSize dvd a" "pageSize dvd b" "a < b"
  shows "a + pageSize \<le> b"
  using aligned_apart [OF assms(1,2)] assms(3) by auto

lemma seg_front:
  assumes "readAt f off pageSize = Inr bs" "readAt f' off pageSize = Inr bs"
  shows "seg off 4 f' = seg off 4 f"
proof -
  have "seg off 4 g = seg 0 4 bs" if "readAt g off pageSize = Inr bs" for g
    using that seg_seg [of 0 4 pageSize off g] by (simp add: readAt_Inr_iff pageSize_def)
  then show ?thesis
    using assms by simp
qed

lemma writeAt_page_other:
  assumes "readAt f off pageSize = Inr bs" "length ws \<le> pageSize"
    and "pageSize dvd off" "pageSize dvd o2" "off \<noteq> o2"
  shows "readAt (writeAt f o2 ws) off pageSize = Inr bs"
  using assms aligned_apart [OF assms(3-5)]
  by (intro readAt_writeAt_other) (auto simp: pageSize_def)

text \<open>Writing within one page that is not free keeps the invariant and every other page.\<close>

lemma write_page:
  assumes "wf_store ix fs" "length ws \<le> pageSize" "pageSize dvd off" "off \<notin> set fs"
    and "off + pageSize \<le> ix_fileSize ix"
  shows "wf_store (ix\<lparr>ix_rw := writeAt (ix_rw ix) off ws\<rparr>) fs"
    and "keeps {off} ix (ix\<lparr>ix_rw := writeAt (ix_rw ix) off ws\<rparr>)"
proof -
  note other = writeAt_page_other [OF _ assms(2) _ assms(3)]
  show "keeps {off} ix (ix\<lparr>ix_rw := writeAt (ix_rw ix) off ws\<rparr>)"
    by (auto simp: keeps_def same_shape_def length_writeAt intro: other)
  have "seg p 4 (writeAt (ix_rw ix) off ws) = seg p 4 (ix_rw ix)" if "p \<in> set fs" for p
  proof -
    have p: "pageSize dvd p" "p + pageSize \<le> length (ix_rw ix)" "p \<noteq> off"
      using free_chain_pages assms(1,4) that unfolding wf_store_def by blast+
    then have r: "readAt (ix_rw ix) p pageSize = Inr (seg p pageSize (ix_rw ix))"
      by (simp add: readAt_def)
    show ?thesis
      by (rule seg_front [OF r other [OF r]]) (use p in auto)
  qed
  then have "free_chain (writeAt (ix_rw ix) off ws) (ix_nextFree ix) fs"
    using assms(1) free_chain_cong [of "ix_rw ix"] by (simp add: wf_store_def length_writeAt)
  then show "wf_store (ix\<lparr>ix_rw := writeAt (ix_rw ix) off ws\<rparr>) fs"
    using assms by (auto simp: wf_store_def length_writeAt)
qed

lemma writeNode_store:
  assumes "wf_store ix fs" "writable fs ix n"
  shows "\<exists>ix'. writeNode n ix = (ix', Inr ()) \<and> wf_store ix' fs
    \<and> ix_root ix' = ix_root ix \<and> ix_nextFree ix' = ix_nextFree ix \<and> ix_fileSize ix' = ix_fileSize ix
    \<and> keeps {nd_offset n} ix ix' \<and> readNode ix' (nd_offset n) = Inr n"
proof -
  let ?ix = "ix\<lparr>ix_rw := writeAt (ix_rw ix) (nd_offset n) (node_bytes ix n)\<rparr>"
  have g: "geom_ok ix" and n: "node_ok ix n"
    using assms by (simp_all add: wf_store_def writable_def)
  have "list_all (\<lambda>it. length (it_key it) = unat (ix_keySize ix)) (nd_items n)"
    using n by (auto simp: node_ok_def list_all_iff)
  then have "writeNode n ix = (?ix, Inr ())"
    using n by (simp add: writeNode_def node_ok_def)
  moreover have "wf_store ?ix fs" "keeps {nd_offset n} ix ?ix"
    using assms write_page [OF assms(1)] by (simp_all add: writable_def)
  moreover have "readNode ?ix (nd_offset n) = Inr n"
    using assms(2) decode_node_bytes [OF g n] decode_page_cong [of ?ix ix]
    by (simp add: readNode_def readAt_writeAt_same writable_def pageSize_def mod_eq_0_iff_dvd)
  ultimately show ?thesis
    by force
qed

definition same_roots :: "ntx_index \<Rightarrow> ntx_index \<Rightarrow> bool" where
  "same_roots ix ix' \<longleftrightarrow> ix_root ix' = ix_root ix \<and> ix_nextFree ix' = ix_nextFree ix
     \<and> ix_fileSize ix' = ix_fileSize ix"

interpretation node_store: page_store readNode writeNode nd_offset "writable fs"
  "\<lambda>ix. wf_store ix fs" "\<lambda>X ix ix'. keeps X ix ix' \<and> same_roots ix ix'" for fs
proof
  fix ix n
  assume "wf_store ix fs" "writable fs ix n"
  then show "\<exists>ix'. writeNode n ix = (ix', Inr ()) \<and> wf_store ix' fs
      \<and> (keeps {nd_offset n} ix ix' \<and> same_roots ix ix') \<and> readNode ix' (nd_offset n) = Inr n"
    using writeNode_store unfolding same_roots_def by blast
next
  fix X ix ix' n
  assume "keeps X ix ix' \<and> same_roots ix ix'" "writable fs ix n"
  then show "writable fs ix' n"
    using node_ok_cong [of ix' ix] by (auto simp: writable_def keeps_def same_shape_def same_roots_def)
qed (auto simp: same_roots_def intro: keeps_refl keeps_trans keeps_readNode)

section \<open>Allocating and freeing a page\<close>

lemma allocPage_store:
  assumes "wf_store ix fs"
  shows "\<exists>ix' off fs'. allocPage ix = (ix', Inr off) \<and> wf_store ix' fs' \<and> keeps {} ix ix'
    \<and> ix_rw ix' = ix_rw ix \<and> ix_root ix' = ix_root ix \<and> 0 < off \<and> pageSize dvd off \<and> off \<notin> set fs'
    \<and> set fs' \<subseteq> set fs \<and> (off \<in> set fs \<or> off = ix_fileSize ix)
    \<and> off + pageSize \<le> ix_fileSize ix' \<and> ix_fileSize ix' \<le> ix_fileSize ix + pageSize
    \<and> (off \<in> set fs \<longrightarrow> ix_fileSize ix' = ix_fileSize ix)
    \<and> ix_fileSize ix' + length fs * pageSize = ix_fileSize ix + Suc (length fs') * pageSize
    \<and> (fs' = [] \<or> ix_fileSize ix' = ix_fileSize ix)"
proof (cases fs)
  case Nil
  then have "ix_nextFree ix = 0"
    using assms by (simp add: wf_store_def)
  then show ?thesis
    using assms Nil
    by (auto simp: allocPage_def wf_store_def keeps_def same_shape_def)
next
  case (Cons p ps)
  have p: "ix_nextFree ix = p" "0 < p" "pageSize dvd p" "p + pageSize \<le> length (ix_rw ix)"
      "free_chain (ix_rw ix) (unat (get_u32 (seg p 4 (ix_rw ix)))) ps" "p \<notin> set ps" "distinct ps"
    using assms Cons by (simp_all add: wf_store_def)
  have "readAt (ix_rw ix) p 4 = Inr (seg p 4 (ix_rw ix))"
    using p(4) by (simp add: readAt_def pageSize_def)
  then have "allocPage ix = (ix\<lparr>ix_nextFree := unat (get_u32 (seg p 4 (ix_rw ix)))\<rparr>, Inr p)"
    using p by (simp add: allocPage_def)
  then show ?thesis
    using assms Cons p
    by (auto simp: wf_store_def keeps_def same_shape_def)
qed

lemma freePage_store:
  assumes "wf_store ix fs" "0 < off" "pageSize dvd off" "off \<notin> set fs"
    and "off + pageSize \<le> length (ix_rw ix)" "off < 2 ^ 32"
  shows "\<exists>ix'. freePage off ix = (ix', Inr ()) \<and> wf_store ix' (off # fs) \<and> keeps {off} ix ix'
    \<and> ix_root ix' = ix_root ix \<and> ix_fileSize ix' = ix_fileSize ix"
proof -
  have four: "4 \<le> pageSize" "0 < pageSize"
    by (simp_all add: pageSize_def)
  let ?raw = "put_at (replicate pageSize 0) 0 (put_u32 (word_of_nat (ix_nextFree ix)))"
  let ?ix = "ix\<lparr>ix_rw := writeAt (ix_rw ix) off ?raw\<rparr>"
  have w: "wf_store ?ix fs" "keeps {off} ix ?ix"
    using assms by (intro write_page; simp add: pageSize_def wf_store_def)+
  have nf: "ix_nextFree ix < 2 ^ 32"
    using assms(1) by (cases fs) (auto simp: wf_store_def)
  have "readAt (ix_rw ?ix) off pageSize = Inr ?raw"
    using four by (simp add: readAt_writeAt_same)
  then have "readAt (ix_rw ?ix) off 4 = Inr (take 4 ?raw)"
    using four by (intro readAt_prefix [of _ off pageSize]) simp_all
  moreover have "take 4 ?raw = put_u32 (word_of_nat (ix_nextFree ix))"
  proof -
    have "seg 0 4 ?raw = put_u32 (word_of_nat (ix_nextFree ix))"
      using four by (intro seg_put_at_same) simp_all
    then show ?thesis
      by (simp only: seg_def drop_0)
  qed
  ultimately have "seg off 4 (ix_rw ?ix) = put_u32 (word_of_nat (ix_nextFree ix))"
    by (simp add: readAt_Inr_iff)
  then have "free_chain (ix_rw ?ix) off (off # fs)"
    using assms w(1) nf
    by (simp add: wf_store_def get_put_u32 unat_of_nat length_writeAt)
  then have "wf_store (?ix\<lparr>ix_nextFree := off\<rparr>) (off # fs)"
    using w(1) assms(4) by (simp add: wf_store_def)
  then show ?thesis
    using w(2) by (auto simp: freePage_def Let_def keeps_def same_shape_def)
qed

section \<open>The header page\<close>

lemma wf_store_page0: "wf_store ix fs \<Longrightarrow> 0 \<notin> set fs \<and> pageSize \<le> ix_fileSize ix"
  using free_chain_pages [of "ix_rw ix" "ix_nextFree ix" fs 0] by (auto simp: wf_store_def dvd_imp_le)

lemma writeHeader_store:
  assumes "wf_store ix fs"
  shows "\<exists>ix'. ntx_writeHeader ix = (ix', Inr ()) \<and> wf_store ix' fs \<and> keeps {0} ix ix'
    \<and> same_roots ix ix' \<and> header_current ix'"
proof -
  let ?ix = "ix\<lparr>ix_rw := writeAt (ix_rw ix) 0 (header_bytes ix)\<rparr>"
  have "wf_store ?ix fs" "keeps {0} ix ?ix"
    using write_page [OF assms, of "header_bytes ix" 0] wf_store_page0 [OF assms] by simp_all
  moreover have "header_current ?ix"
    by (simp add: header_current_def readAt_writeAt_same pageSize_def) (simp add: header_bytes_def)
  ultimately show ?thesis
    by (auto simp: ntx_writeHeader_def same_roots_def)
qed

end
