(* ===== verification/NtxModel.thy ===== *)
theory NtxModel
  imports NtxStore "HOL-Library.Multiset"
begin

text \<open>
  The abstract value of an index: a tree whose nodes carry their page offset, the in-order list
  of its entries, and the relation \<open>stored\<close> between a tree and the pages of a file.  A branch
  with \<open>n\<close> separators has \<open>n+1\<close> children; \<open>items[i].child\<close> is child \<open>i\<close> and \<open>right\<close> the last.
\<close>

section \<open>Trees\<close>

datatype btree = BLeaf nat "entry list" | BNode nat "btree list" "entry list"

fun broot :: "btree \<Rightarrow> nat" where
  "broot (BLeaf off es) = off"
| "broot (BNode off ks ss) = off"

fun fore :: "'a list list \<Rightarrow> 'a list \<Rightarrow> 'a list" where
  "fore (k # ks) (s # ss) = k @ s # fore ks ss"
| "fore ks ss = []"

fun aft :: "'a list \<Rightarrow> 'a list list \<Rightarrow> 'a list" where
  "aft (s # ss) (k # ks) = s # k @ aft ss ks"
| "aft ss ks = []"

definition interleave :: "'a list list \<Rightarrow> 'a list \<Rightarrow> 'a list" where
  "interleave ks ss = (case ks of [] \<Rightarrow> [] | k # ks' \<Rightarrow> k @ aft ss ks')"

fun inorder :: "btree \<Rightarrow> entry list" where
  "inorder (BLeaf off es) = es"
| "inorder (BNode off ks ss) = interleave (map inorder ks) ss"

fun pages :: "btree \<Rightarrow> nat list" where
  "pages (BLeaf off es) = [off]"
| "pages (BNode off ks ss) = off # concat (map pages ks)"

text \<open>Balance: every leaf at depth \<open>h\<close>, and one child more than separators.\<close>

fun bal :: "nat \<Rightarrow> btree \<Rightarrow> bool" where
  "bal h (BLeaf off es) \<longleftrightarrow> h = 0"
| "bal h (BNode off ks ss) \<longleftrightarrow>
     (\<exists>h'. h = Suc h' \<and> length ks = Suc (length ss) \<and> (\<forall>k \<in> set ks. bal h' k))"

text \<open>Every node holds at most \<open>M\<close> entries, every key is \<open>K\<close> bytes.\<close>

fun fits :: "nat \<Rightarrow> nat \<Rightarrow> btree \<Rightarrow> bool" where
  "fits K M (BLeaf off es) \<longleftrightarrow> length es \<le> M \<and> (\<forall>e \<in> set es. length (ent_key e) = K)"
| "fits K M (BNode off ks ss) \<longleftrightarrow> length ss \<le> M \<and> (\<forall>e \<in> set ss. length (ent_key e) = K)
     \<and> (\<forall>k \<in> set ks. fits K M k)"

fun bcount :: "btree \<Rightarrow> nat" where
  "bcount (BLeaf off es) = length es"
| "bcount (BNode off ks ss) = length ss"

text \<open>Every node below the root holds at least \<open>m\<close> entries.\<close>

fun filled :: "nat \<Rightarrow> btree \<Rightarrow> bool" where
  "filled m (BLeaf off es) \<longleftrightarrow> True"
| "filled m (BNode off ks ss) \<longleftrightarrow> (\<forall>k \<in> set ks. m \<le> bcount k \<and> filled m k)"

lemma interleave_split:
  "length k1 = length s1 \<Longrightarrow> interleave (k1 @ c # k2) (s1 @ s2) = fore k1 s1 @ c @ aft s2 k2"
  by (induction k1 s1 rule: list_induct2) (auto simp: interleave_def neq_Nil_conv split: list.splits)

lemma interleave_single [simp]: "interleave [k] [] = k"
  by (simp add: interleave_def)

lemma fore_append:
  "length k1 = length s1 \<Longrightarrow> fore (k1 @ k2) (s1 @ s2) = fore k1 s1 @ fore k2 s2"
  by (induction k1 s1 rule: list_induct2) auto

lemma aft_append:
  "length k1 = length s1 \<Longrightarrow> aft (s1 @ s2) (k1 @ k2) = aft s1 k1 @ aft s2 k2"
  by (induction k1 s1 rule: list_induct2) auto

lemma set_fore: "length k1 = length s1 \<Longrightarrow> set (fore k1 s1) = (\<Union>k \<in> set k1. set k) \<union> set s1"
  by (induction k1 s1 rule: list_induct2) auto

lemma set_aft: "length k1 = length s1 \<Longrightarrow> set (aft s1 k1) = (\<Union>k \<in> set k1. set k) \<union> set s1"
  by (induction k1 s1 rule: list_induct2) auto

lemma pages_nonempty [simp]: "pages t \<noteq> []"
  by (cases t) auto

lemma broot_in_pages [simp]: "broot t \<in> set (pages t)"
  by (cases t) auto

section \<open>The pages of a tree\<close>

definition leaf_item :: "entry \<Rightarrow> item" where
  "leaf_item e = \<lparr>it_child = 0, it_recno = ent_recno e, it_key = ent_key e\<rparr>"

definition branch_item :: "btree \<Rightarrow> entry \<Rightarrow> item" where
  "branch_item c e = \<lparr>it_child = broot c, it_recno = ent_recno e, it_key = ent_key e\<rparr>"

fun node_of :: "btree \<Rightarrow> node" where
  "node_of (BLeaf off es) =
     \<lparr>nd_offset = off, nd_items = map leaf_item es, nd_right = 0, nd_leaf = True\<rparr>"
| "node_of (BNode off ks ss) =
     \<lparr>nd_offset = off, nd_items = map2 branch_item (butlast ks) ss, nd_right = broot (last ks),
      nd_leaf = False\<rparr>"

fun stored :: "(nat \<Rightarrow> error + node) \<Rightarrow> btree \<Rightarrow> bool" where
  "stored rd (BLeaf off es) \<longleftrightarrow> rd off = Inr (node_of (BLeaf off es))"
| "stored rd (BNode off ks ss) \<longleftrightarrow> rd off = Inr (node_of (BNode off ks ss)) \<and> (\<forall>k \<in> set ks. stored rd k)"

lemma stored_root: "stored rd t \<Longrightarrow> rd (broot t) = Inr (node_of t)"
  by (cases t) auto

lemma stored_cong:
  assumes "stored rd t" "\<And>off n. off \<in> set (pages t) \<Longrightarrow> rd off = Inr n \<Longrightarrow> rd' off = Inr n"
  shows "stored rd' t"
  using assms by (induction t) auto

lemma stored_keeps:
  assumes "stored (readNode ix) t" "keeps X ix ix'" "set (pages t) \<inter> X = {}"
  shows "stored (readNode ix') t"
  using assms by (intro stored_cong [OF assms(1)]) (auto intro: keeps_readNode)

lemma stored_pages:
  "stored (readNode ix) t \<Longrightarrow> p \<in> set (pages t)
   \<Longrightarrow> 0 < p \<and> pageSize dvd p \<and> p + pageSize \<le> length (ix_rw ix)"
proof (induction t)
  case (BLeaf off es)
  then show ?case
    using readNode_Inr [of ix off "node_of (BLeaf off es)"] by (auto simp: readAt_Inr_iff pageSize_def)
next
  case (BNode off ks ss)
  then show ?case
    using readNode_Inr [of ix off "node_of (BNode off ks ss)"] by (auto simp: readAt_Inr_iff pageSize_def)
qed

lemma item_entry_leaf [simp]: "item_entry (leaf_item e) = e"
  by (simp add: item_entry_def leaf_item_def)

lemma item_entry_branch [simp]: "item_entry (branch_item c e) = e"
  by (simp add: item_entry_def branch_item_def)

lemma map_leaf_item [simp]: "map (item_entry \<circ> leaf_item) es = es"
  by (simp add: comp_def)

lemma map_branch_item [simp]:
  "length ks = length ss \<Longrightarrow> map (item_entry \<circ> (\<lambda>(c, e). branch_item c e)) (zip ks ss) = ss"
  by (induction ks ss rule: list_induct2) auto

fun seps :: "btree \<Rightarrow> entry list" where
  "seps (BLeaf off es) = es"
| "seps (BNode off ks ss) = ss"

lemma length_seps [simp]: "length (seps t) = bcount t"
  by (cases t) auto

lemma node_of_entries: "bal h t \<Longrightarrow> map item_entry (nd_items (node_of t)) = seps t"
  by (cases t) auto

lemma node_of_length: "bal h t \<Longrightarrow> length (nd_items (node_of t)) = bcount t"
  by (cases t) auto

lemma node_of_offset [simp]: "nd_offset (node_of t) = broot t"
  by (cases t) auto

lemma node_of_leaf: "bal h t \<Longrightarrow> nd_leaf (node_of t) \<longleftrightarrow> h = 0"
  by (cases t) auto

lemma childAt_node:
  assumes "bal h (BNode off ks ss)" "i \<le> length ss"
  shows "childAt (node_of (BNode off ks ss)) i = broot (ks ! i)"
proof -
  have ks: "ks \<noteq> []" "length ks = Suc (length ss)"
    using assms(1) by auto
  then show ?thesis
    using assms(2) by (auto simp: childAt_def branch_item_def nth_butlast last_conv_nth)
qed

lemma childAt_split:
  assumes "bal h (BNode off (k1 @ c # k2) (s1 @ s2))" "length k1 = length s1"
  shows "childAt (node_of (BNode off (k1 @ c # k2) (s1 @ s2))) (length s1) = broot c"
  using childAt_node [OF assms(1), of "length s1"] assms(2) by (simp add: nth_append)

lemma node_of_item:
  assumes "bal h t" "i < bcount t"
  shows "Entry (it_key (nd_items (node_of t) ! i)) (it_recno (nd_items (node_of t) ! i)) = seps t ! i"
proof -
  have "item_entry (nd_items (node_of t) ! i) = seps t ! i"
    using node_of_entries [OF assms(1)] node_of_length [OF assms(1)] assms(2) by (metis nth_map)
  then show ?thesis
    by (simp add: item_entry_def)
qed

text \<open>What a node must satisfy to be written, read off the tree.\<close>

lemma node_ok_tree:
  assumes "bal h t" "fits (unat (ix_keySize ix)) (unat (ix_maxItem ix)) t"
    and "\<And>p. p \<in> set (pages t) \<Longrightarrow> 0 < p \<and> p < 2 ^ 32"
  shows "node_ok ix (node_of t)"
proof (cases t)
  case (BLeaf off es)
  then show ?thesis
    using assms by (auto simp: node_ok_def leaf_item_def list_all_iff)
next
  case (BNode off ks ss)
  have ks: "ks \<noteq> []" "length ks = Suc (length ss)"
    using assms(1) BNode by auto
  have child: "0 < broot k \<and> broot k < 2 ^ 32" if "k \<in> set ks" for k
    using assms(3) [of "broot k"] that BNode by fastforce
  have r: "0 < broot (last ks)" "broot (last ks) < 2 ^ 32"
    using child [of "last ks"] ks by auto
  have "length (it_key it) = unat (ix_keySize ix) \<and> it_child it < 2 ^ 32"
    if it: "it \<in> set (nd_items (node_of t))" for it
  proof -
    obtain k e where "it = branch_item k e" "k \<in> set ks" "e \<in> set ss"
      using it BNode by (auto dest: set_zip_leftD set_zip_rightD in_set_butlastD)
    then show ?thesis
      using child assms(2) BNode by (simp add: branch_item_def)
  qed
  then show ?thesis
    using assms(2) BNode ks r by (simp add: node_ok_def list_all_iff)
qed

section \<open>Sorted entries\<close>

lemma sorted_wrt_fore:
  assumes "length k1 = length s1" "sorted (fore k1 s1 @ zs)"
  shows "sorted s1" and "\<And>x z. x \<in> set (fore k1 s1) \<Longrightarrow> z \<in> set zs \<Longrightarrow> x \<le> z"
proof -
  show "sorted s1"
    using assms by (induction k1 s1 arbitrary: zs rule: list_induct2)
      (auto simp: sorted_append set_fore)
  show "x \<le> z" if "x \<in> set (fore k1 s1)" "z \<in> set zs" for x z
    using that assms(2) by (auto simp: sorted_append)
qed

lemma sorted_aft_seps: "length ks = length ss \<Longrightarrow> sorted (aft ss ks) \<Longrightarrow> sorted ss"
  by (induction ss ks rule: list_induct2') (auto simp: sorted_append set_aft)

lemma sorted_seps:
  assumes "bal h t" "sorted (inorder t)"
  shows "sorted (seps t)"
proof (cases t)
  case (BNode off ks ss)
  then obtain k ks' where "ks = k # ks'" "length ks' = length ss"
    using assms(1) by (cases ks) auto
  then show ?thesis
    using assms(2) BNode sorted_aft_seps [of "map inorder ks'" ss]
    by (simp add: interleave_def sorted_append)
qed (use assms in auto)

text \<open>
  The child to descend into: for a downward closed test \<open>P\<close> on entries, the separators that
  satisfy it are a prefix, everything before that child satisfies \<open>P\<close> and the separator after
  it and everything beyond do not.
\<close>

definition downward :: "('a::order \<Rightarrow> bool) \<Rightarrow> bool" where
  "downward P \<longleftrightarrow> (\<forall>x y. x \<le> y \<longrightarrow> P y \<longrightarrow> P x)"

lemma downward_less [simp, intro]: "downward (\<lambda>e. e < x)"
  by (auto simp: downward_def intro: order.strict_trans1)

lemma downward_le [simp, intro]: "downward (\<lambda>e. e \<le> x)"
  by (auto simp: downward_def intro: order_trans)

lemma fore_below:
  assumes "length k1 = length s1" "sorted (fore k1 s1)" "downward P"
    and "\<forall>s \<in> set s1. P s" "x \<in> set (fore k1 s1)"
  shows "P x"
proof (cases k1 rule: rev_cases)
  case Nil
  then show ?thesis
    using assms by simp
next
  case (snoc k1' k)
  then obtain s1' s where s1: "s1 = s1' @ [s]" "length s1' = length k1'"
    using assms(1) by (cases s1 rule: rev_cases) auto
  then have f: "fore k1 s1 = fore k1' s1' @ k @ [s]"
    using snoc by (simp add: fore_append)
  then have "x \<le> s"
    using assms(2,5) by (auto simp: sorted_append)
  then show ?thesis
    using assms(3,4) s1 by (auto simp: downward_def)
qed

lemma aft_above:
  assumes "length ks = length ss" "sorted (aft ss ks)" "downward P"
    and "ss \<noteq> [] \<Longrightarrow> \<not> P (hd ss)" "x \<in> set (aft ss ks)"
  shows "\<not> P x"
proof -
  obtain s ss' k ks' where "ss = s # ss'" "ks = k # ks'"
    using assms(1,5) by (cases ss; cases ks) auto
  then have "s \<le> x" "\<not> P s"
    using assms(2,4,5) by auto
  then show ?thesis
    using assms(3) by (auto simp: downward_def)
qed

lemma descend_split:
  assumes "bal h (BNode off ks ss)" "sorted (inorder (BNode off ks ss))"
    and "downward P"
  obtains k1 c k2 s1 s2 where "ks = k1 @ c # k2" "ss = s1 @ s2" "length k1 = length s1"
    "length k2 = length s2" "takeWhile P ss = s1" "dropWhile P ss = s2"
    "inorder (BNode off ks ss) = fore (map inorder k1) s1 @ inorder c @ aft s2 (map inorder k2)"
    "\<forall>x \<in> set (fore (map inorder k1) s1). P x" "\<forall>x \<in> set (aft s2 (map inorder k2)). \<not> P x"
    "sorted (inorder c)"
proof -
  let ?s1 = "takeWhile P ss" and ?s2 = "dropWhile P ss"
  let ?i = "length ?s1"
  have len: "length ks = Suc (length ss)"
    using assms(1) by auto
  have i: "?i \<le> length ss"
    by (rule length_takeWhile_le)
  let ?k1 = "take ?i ks" and ?c = "ks ! ?i" and ?k2 = "drop (Suc ?i) ks"
  have ks: "ks = ?k1 @ ?c # ?k2"
    using len i by (simp add: id_take_nth_drop [symmetric])
  have l2: "length ?k2 = length ?s2"
    using len i arg_cong [OF takeWhile_dropWhile_id [of P ss], of length] by (simp del: takeWhile_dropWhile_id)
  have l1: "length ?k1 = ?i"
    using len i by simp
  have eq: "inorder (BNode off ks ss) = fore (map inorder ?k1) ?s1 @ inorder ?c @ aft ?s2 (map inorder ?k2)"
  proof -
    have "interleave (map inorder (?k1 @ ?c # ?k2)) (?s1 @ ?s2)
        = fore (map inorder ?k1) ?s1 @ inorder ?c @ aft ?s2 (map inorder ?k2)"
      using l1 by (simp add: interleave_split del: takeWhile_dropWhile_id)
    then show ?thesis
      using ks by simp
  qed
  then have srt: "sorted (fore (map inorder ?k1) ?s1)" "sorted (inorder ?c)"
      "sorted (aft ?s2 (map inorder ?k2))"
    using assms(2) by (simp_all add: sorted_append)
  have f: "P x" if "x \<in> set (fore (map inorder ?k1) ?s1)" for x
    by (rule fore_below [OF _ srt(1) assms(3) _ that])
      (use l1 in \<open>auto dest: set_takeWhileD\<close>)
  have a: "\<not> P x" if "x \<in> set (aft ?s2 (map inorder ?k2))" for x
    by (rule aft_above [OF _ srt(3) assms(3) _ that]) (use l2 hd_dropWhile [of P ss] in simp_all)
  show thesis
    by (rule that [OF ks _ l1 l2 refl refl eq _ _ srt(2)]) (use f a in auto)
qed

end
