(* ===== verification/NtxQuery.thy ===== *)
theory NtxQuery
  imports NtxModel
begin

text \<open>
  \<open>query.go\<close>: the point queries, and what they return on a well-formed index in terms of its
  in-order entries.  A result \<open>(Entry, bool, error)\<close> of the code is an \<open>entry option\<close> or an
  error: the entry is meaningful only where the flag is set.
\<close>

section \<open>The queries\<close>

fun minLoop :: "nat \<Rightarrow> ntx_index \<Rightarrow> nat \<Rightarrow> error + entry option" where
  "minLoop 0 ix off = Inl OutOfFuel"
| "minLoop (Suc fuel) ix off =
     bindR (readNode ix off) (\<lambda>n.
       if nd_leaf n then
         (if nd_items n = [] then Inr None else Inr (Some (item_entry (nd_items n ! 0))))
       else minLoop fuel ix (childAt n 0))"

definition Min :: "ntx_index \<Rightarrow> error + entry option" where
  "Min ix = minLoop (ntx_fuel ix) ix (ix_root ix)"

fun maxLoop :: "nat \<Rightarrow> ntx_index \<Rightarrow> nat \<Rightarrow> error + entry option" where
  "maxLoop 0 ix off = Inl OutOfFuel"
| "maxLoop (Suc fuel) ix off =
     bindR (readNode ix off) (\<lambda>n.
       if nd_leaf n then
         (if nd_items n = [] then Inr None
          else Inr (Some (item_entry (nd_items n ! (length (nd_items n) - 1)))))
       else maxLoop fuel ix (nd_right n))"

definition Max :: "ntx_index \<Rightarrow> error + entry option" where
  "Max ix = maxLoop (ntx_fuel ix) ix (ix_root ix)"

fun descendLoop :: "ntx_index \<Rightarrow> bytes \<Rightarrow> u32 \<Rightarrow> nat \<Rightarrow> entry option \<Rightarrow> nat \<Rightarrow> error + entry option" where
  "descendLoop ix key recno 0 best off = Inl OutOfFuel"
| "descendLoop ix key recno (Suc fuel) best off =
     bindR (readNode ix off) (\<lambda>n.
       let i = findInNode n key recno;
           best = (if i < length (nd_items n) then Some (item_entry (nd_items n ! i)) else best)
       in if nd_leaf n then Inr best else descendLoop ix key recno fuel best (childAt n i))"

definition descendFirst :: "ntx_index \<Rightarrow> bytes \<Rightarrow> u32 \<Rightarrow> error + entry option" where
  "descendFirst ix key recno = descendLoop ix key recno (ntx_fuel ix) None (ix_root ix)"

definition FirstGE :: "ntx_index \<Rightarrow> bytes \<Rightarrow> error + entry option" where
  "FirstGE ix key = bindR (normalizeKey ix key) (\<lambda>key. descendFirst ix key 0)"

fun succLoop :: "ntx_index \<Rightarrow> bytes \<Rightarrow> u32 \<Rightarrow> nat \<Rightarrow> entry option \<Rightarrow> nat \<Rightarrow> error + entry option" where
  "succLoop ix key recno 0 best off = Inl OutOfFuel"
| "succLoop ix key recno (Suc fuel) best off =
     bindR (readNode ix off) (\<lambda>n.
       let i = findAbove n key recno;
           best = (if i < length (nd_items n) then Some (item_entry (nd_items n ! i)) else best)
       in if nd_leaf n then Inr best else succLoop ix key recno fuel best (childAt n i))"

definition Successor :: "ntx_index \<Rightarrow> bytes \<Rightarrow> u32 \<Rightarrow> error + entry option" where
  "Successor ix key recno =
     bindR (normalizeKey ix key) (\<lambda>key. succLoop ix key recno (ntx_fuel ix) None (ix_root ix))"

fun predLoop :: "ntx_index \<Rightarrow> bytes \<Rightarrow> u32 \<Rightarrow> nat \<Rightarrow> entry option \<Rightarrow> nat \<Rightarrow> error + entry option" where
  "predLoop ix key recno 0 best off = Inl OutOfFuel"
| "predLoop ix key recno (Suc fuel) best off =
     bindR (readNode ix off) (\<lambda>n.
       let i = findInNode n key recno;
           best = (if i > 0 then Some (item_entry (nd_items n ! (i - 1))) else best)
       in if nd_leaf n then Inr best else predLoop ix key recno fuel best (childAt n i))"

definition Predecessor :: "ntx_index \<Rightarrow> bytes \<Rightarrow> u32 \<Rightarrow> error + entry option" where
  "Predecessor ix key recno =
     bindR (normalizeKey ix key) (\<lambda>key. predLoop ix key recno (ntx_fuel ix) None (ix_root ix))"

section \<open>Well-formed indexes\<close>

text \<open>
  \<open>ntx_valid ix fs h t\<close>: the file holds the tree \<open>t\<close> of height \<open>h\<close> on pages of its own, the free
  list is \<open>fs\<close>, the entries are in order, no node is over-full, and every node below the root
  holds at least \<open>minFill\<close> entries: what a split leaves in the smaller half.
\<close>

definition minFill :: "ntx_index \<Rightarrow> nat" where
  "minFill ix = (unat (ix_maxItem ix) - 1) div 2"

definition tree_ok :: "ntx_index \<Rightarrow> nat \<Rightarrow> btree \<Rightarrow> bool" where
  "tree_ok ix h t \<longleftrightarrow> stored (readNode ix) t \<and> bal h t
     \<and> fits (unat (ix_keySize ix)) (unat (ix_maxItem ix)) t \<and> filled (minFill ix) t
     \<and> sorted (inorder t) \<and> distinct (pages t)"

definition ntx_valid :: "ntx_index \<Rightarrow> nat list \<Rightarrow> nat \<Rightarrow> btree \<Rightarrow> bool" where
  "ntx_valid ix fs h t \<longleftrightarrow> wf_store ix fs \<and> synced ix
     \<and> 2 \<le> unat (ix_maxItem ix) \<and> ix_halfPage ix = ix_maxItem ix div 2
     \<and> ix_root ix = broot t \<and> tree_ok ix h t \<and> set (pages t) \<inter> set fs = {}"

text \<open>A branch root has a separator.  The code keeps this on every successful operation.\<close>

definition rooted :: "nat \<Rightarrow> btree \<Rightarrow> bool" where
  "rooted h t \<longleftrightarrow> 0 < h \<longrightarrow> 0 < bcount t"

lemma bal_height: "bal h t \<Longrightarrow> h < length (pages t)"
proof (induction t arbitrary: h)
  case (BNode off ks ss)
  then obtain h' k ks' where *: "h = Suc h'" "ks = k # ks'" "bal h' k"
    by (cases ks) auto
  then have "h' < length (pages k)"
    using BNode.IH [of k h'] by simp
  then show ?case
    using * by simp
qed simp

lemma distinct_aligned_bound:
  assumes "distinct ps" "\<And>p. p \<in> set ps \<Longrightarrow> 0 < p \<and> pageSize dvd p \<and> p + pageSize \<le> F"
  shows "length ps \<le> F div pageSize - 1"
proof -
  let ?f = "\<lambda>p. p div pageSize"
  have "inj_on ?f (set ps)"
  proof (rule inj_onI)
    fix x y
    assume "x \<in> set ps" "y \<in> set ps" "x div pageSize = y div pageSize"
    then show "x = y"
      using assms(2) by (metis dvd_div_mult_self)
  qed
  moreover have "?f ` set ps \<subseteq> {1..<F div pageSize}"
  proof
    fix q assume "q \<in> ?f ` set ps"
    then obtain p where p: "p \<in> set ps" "q = p div pageSize"
      by blast
    then obtain k where k: "p = pageSize * k" "0 < k" "p + pageSize \<le> F"
      using assms(2) [of p] by (auto elim: dvdE)
    then have "pageSize * (k + 1) \<le> F"
      by (simp add: algebra_simps)
    then have "k + 1 \<le> F div pageSize"
      using div_le_mono [of "pageSize * (k + 1)" F pageSize] by (simp add: pageSize_def)
    then show "q \<in> {1..<F div pageSize}"
      using k p by (simp add: pageSize_def)
  qed
  ultimately have "card (set ps) \<le> card {1..<F div pageSize}"
    by (metis card_image card_mono finite_atLeastLessThan)
  then show ?thesis
    using assms(1) by (simp add: distinct_card)
qed

lemma fuel_enough:
  assumes "wf_store ix fs" "tree_ok ix h t"
  shows "h < ntx_fuel ix"
proof -
  have "length (pages t) \<le> ix_fileSize ix div pageSize - 1"
    using assms stored_pages [of ix t]
    by (intro distinct_aligned_bound) (auto simp: tree_ok_def wf_store_def intro: order_trans)
  then show ?thesis
    using bal_height [of h t] assms(2) by (auto simp: ntx_fuel_def tree_ok_def)
qed

section \<open>Descending to the least entry that fails a test\<close>

lemma hd_aft: "length ks = length ss \<Longrightarrow> ss \<noteq> [] \<Longrightarrow> \<exists>xs. aft ss ks = hd ss # xs"
  by (cases ss; cases ks) auto

lemma dropWhile_append_split:
  "\<forall>x \<in> set xs. P x \<Longrightarrow> \<forall>z \<in> set zs. \<not> P z \<Longrightarrow>
   dropWhile P (xs @ ys @ zs) = dropWhile P ys @ zs"
  by (cases "\<forall>y \<in> set ys. P y") (auto simp: dropWhile_append dropWhile_eq_self_iff)

lemma takeWhile_append_split:
  "\<forall>x \<in> set xs. P x \<Longrightarrow> \<forall>z \<in> set zs. \<not> P z \<Longrightarrow>
   takeWhile P (xs @ ys @ zs) = xs @ takeWhile P ys"
  by (cases zs; cases "\<forall>y \<in> set ys. P y")
    (auto simp: takeWhile_append takeWhile_eq_all_conv [THEN iffD2])

text \<open>
  \<open>FirstGE\<close> and \<open>Successor\<close> run the same descent, over the two searches of a node.  The contract:
  the search returns the length of the prefix that satisfies a downward closed test, and the
  loop unfolds as written; then it returns the first entry that fails the test.
\<close>

locale descent =
  fixes rd :: "nat \<Rightarrow> error + node" and P :: "entry \<Rightarrow> bool" and pos :: "node \<Rightarrow> nat"
    and loop :: "nat \<Rightarrow> entry option \<Rightarrow> nat \<Rightarrow> error + entry option"
  assumes down: "downward P"
    and pos: "sorted (node_entries n) \<Longrightarrow> pos n = length (takeWhile P (node_entries n))"
    and loop_Suc: "loop (Suc fuel) best off = bindR (rd off) (\<lambda>n.
       let i = pos n;
           best = (if i < length (nd_items n) then Some (item_entry (nd_items n ! i)) else best)
       in if nd_leaf n then Inr best else loop fuel best (childAt n i))"
begin

lemma pos_tree: "bal h t \<Longrightarrow> sorted (inorder t) \<Longrightarrow> pos (node_of t) = length (takeWhile P (seps t))"
  using pos [of "node_of t"] by (simp add: node_of_entries sorted_seps)

lemma candidate:
  assumes "bal h t" "length (takeWhile P (seps t)) < bcount t"
  shows "item_entry (nd_items (node_of t) ! length (takeWhile P (seps t))) = hd (dropWhile P (seps t))"
proof -
  have "item_entry (nd_items (node_of t) ! length (takeWhile P (seps t))) = seps t ! length (takeWhile P (seps t))"
    using node_of_item [OF assms] by (simp add: item_entry_def)
  then show ?thesis
    using assms(2) by (simp add: dropWhile_eq_drop hd_drop_conv_nth)
qed

lemma loop_least:
  assumes "h < fuel" "bal h t" "sorted (inorder t)" "stored rd t"
  shows "loop fuel best (broot t)
    = Inr (case dropWhile P (inorder t) of [] \<Rightarrow> best | e # _ \<Rightarrow> Some e)"
  using assms
proof (induction fuel arbitrary: h t best)
  case (Suc fuel)
  let ?i = "length (takeWhile P (seps t))"
  define best' where "best' = (if ?i < bcount t then Some (hd (dropWhile P (seps t))) else best)"
  have step: "loop (Suc fuel) best (broot t)
      = (if h = 0 then Inr best' else loop fuel best' (childAt (node_of t) ?i))"
    using Suc.prems candidate [of h t]
    by (simp add: loop_Suc stored_root pos_tree node_of_leaf node_of_length best'_def Let_def)
  have b': "best' = (case dropWhile P (seps t) of [] \<Rightarrow> best | e # _ \<Rightarrow> Some e)"
  proof -
    have "length (seps t) = ?i + length (dropWhile P (seps t))"
      by (metis length_append takeWhile_dropWhile_id)
    then have "?i < bcount t \<longleftrightarrow> dropWhile P (seps t) \<noteq> []"
      by (simp del: dropWhile_eq_Nil_conv)
    then show ?thesis
      by (cases "dropWhile P (seps t)") (simp_all add: best'_def del: dropWhile_eq_Nil_conv)
  qed
  show ?case
  proof (cases t)
    case (BLeaf off es)
    then show ?thesis
      using step Suc.prems(2) b' by simp
  next
    case (BNode off ks ss)
    then obtain h' where h: "h = Suc h'" "\<forall>k \<in> set ks. bal h' k"
      using Suc.prems(2) by auto
    obtain k1 c k2 s1 s2 where sp: "ks = k1 @ c # k2" "ss = s1 @ s2" "length k1 = length s1"
        "length k2 = length s2" "takeWhile P ss = s1" "dropWhile P ss = s2"
        "inorder (BNode off ks ss) = fore (map inorder k1) s1 @ inorder c @ aft s2 (map inorder k2)"
        "\<forall>x \<in> set (fore (map inorder k1) s1). P x" "\<forall>x \<in> set (aft s2 (map inorder k2)). \<not> P x"
        "sorted (inorder c)"
      by (rule descend_split [OF Suc.prems(2,3) [unfolded BNode] down])
    have i: "?i = length s1"
      by (simp only: BNode seps.simps sp(5))
    have t: "t = BNode off (k1 @ c # k2) (s1 @ s2)"
      by (simp only: BNode sp(1) sp(2) [symmetric])
    have c: "childAt (node_of t) ?i = broot c"
      using childAt_split [of h off k1 c k2 s1 s2] Suc.prems(2) sp(3) unfolding i unfolding t by blast
    have "loop fuel best' (broot c)
        = Inr (case dropWhile P (inorder c) of [] \<Rightarrow> best' | e # _ \<Rightarrow> Some e)"
      using Suc.prems(1,4) h sp(1,10) BNode by (intro Suc.IH [of h']) auto
    moreover have "dropWhile P (inorder t) = dropWhile P (inorder c) @ aft s2 (map inorder k2)"
      using dropWhile_append_split [OF sp(8,9)] sp(7) BNode by simp
    moreover have "best' = (case aft s2 (map inorder k2) of [] \<Rightarrow> best | e # _ \<Rightarrow> Some e)"
      using b' BNode sp(4,6) hd_aft [of "map inorder k2" s2] by (cases s2) auto
    ultimately show ?thesis
      using step h(1) c
      by (cases "dropWhile P (inorder c)"; cases "aft s2 (map inorder k2)")
        (simp_all del: dropWhile_eq_Nil_conv)
  qed
qed simp

end

interpretation first_ge: descent "readNode ix" "\<lambda>e. e < Entry key recno"
  "\<lambda>n. findInNode n key recno" "descendLoop ix key recno" for ix key recno
  by unfold_locales (auto intro: findInNode_takeWhile)

interpretation succ: descent "readNode ix" "\<lambda>e. e \<le> Entry key recno"
  "\<lambda>n. findAbove n key recno" "succLoop ix key recno" for ix key recno
  by unfold_locales (auto intro: findAbove_takeWhile)


section \<open>The other descents\<close>

lemma last_fore: "length k1 = length s1 \<Longrightarrow> s1 \<noteq> [] \<Longrightarrow> \<exists>xs. fore k1 s1 = xs @ [last s1]"
  by (cases k1 rule: rev_cases; cases s1 rule: rev_cases) (auto simp: fore_append)

lemma predLoop_greatest:
  assumes "h < fuel" "bal h t" "sorted (inorder t)" "stored (readNode ix) t"
  shows "predLoop ix key recno fuel best (broot t)
    = Inr (let xs = takeWhile (\<lambda>e. e < Entry key recno) (inorder t)
           in if xs = [] then best else Some (last xs))"
  using assms
proof (induction fuel arbitrary: h t best)
  case (Suc fuel)
  let ?P = "\<lambda>e. e < Entry key recno"
  let ?i = "length (takeWhile ?P (seps t))"
  define best' where "best' = (if takeWhile ?P (seps t) = [] then best else Some (last (takeWhile ?P (seps t))))"
  have c: "item_entry (nd_items (node_of t) ! (?i - 1)) = last (takeWhile ?P (seps t))" if "0 < ?i"
  proof -
    have "?i - 1 < bcount t"
      using that length_takeWhile_le [of ?P "seps t"] unfolding length_seps by linarith
    then have "item_entry (nd_items (node_of t) ! (?i - 1)) = seps t ! (?i - 1)"
      using node_of_item [OF Suc.prems(2)] by (simp add: item_entry_def)
    then show ?thesis
      using that by (simp add: last_conv_nth takeWhile_nth)
  qed
  have step: "predLoop ix key recno (Suc fuel) best (broot t)
      = (if h = 0 then Inr best' else predLoop ix key recno fuel best' (childAt (node_of t) ?i))"
    using Suc.prems c first_ge.pos_tree [of h t key recno]
    by (simp add: stored_root node_of_leaf best'_def Let_def)
  show ?case
  proof (cases t)
    case (BLeaf off es)
    then show ?thesis
      using step Suc.prems(2) by (simp add: best'_def Let_def)
  next
    case (BNode off ks ss)
    then obtain h' where h: "h = Suc h'" "\<forall>k \<in> set ks. bal h' k"
      using Suc.prems(2) by auto
    obtain k1 c k2 s1 s2 where sp: "ks = k1 @ c # k2" "ss = s1 @ s2" "length k1 = length s1"
        "length k2 = length s2" "takeWhile ?P ss = s1" "dropWhile ?P ss = s2"
        "inorder (BNode off ks ss) = fore (map inorder k1) s1 @ inorder c @ aft s2 (map inorder k2)"
        "\<forall>x \<in> set (fore (map inorder k1) s1). ?P x" "\<forall>x \<in> set (aft s2 (map inorder k2)). \<not> ?P x"
        "sorted (inorder c)"
      by (rule descend_split [OF Suc.prems(2,3) [unfolded BNode] downward_less])
    have i: "?i = length s1"
      by (simp only: BNode seps.simps sp(5))
    have t: "t = BNode off (k1 @ c # k2) (s1 @ s2)"
      by (simp only: BNode sp(1) sp(2) [symmetric])
    have ch: "childAt (node_of t) ?i = broot c"
      using childAt_split [of h off k1 c k2 s1 s2] Suc.prems(2) sp(3) unfolding i unfolding t by blast
    have "predLoop ix key recno fuel best' (broot c) = Inr (let xs = takeWhile ?P (inorder c)
        in if xs = [] then best' else Some (last xs))"
      using Suc.prems(1,4) h sp(1,10) BNode by (intro Suc.IH [of h']) auto
    moreover have "takeWhile ?P (inorder t) = fore (map inorder k1) s1 @ takeWhile ?P (inorder c)"
      using takeWhile_append_split [OF sp(8,9)] sp(7) BNode by simp
    moreover have "best' = (if s1 = [] then best else Some (last s1))"
      by (simp only: best'_def BNode seps.simps sp(5))
    moreover have "fore (map inorder k1) s1 = [] \<longleftrightarrow> s1 = []" "s1 \<noteq> [] \<Longrightarrow> last (fore (map inorder k1) s1) = last s1"
      using last_fore [of "map inorder k1" s1] sp(3) by (cases s1; force)+
    ultimately show ?thesis
      using step h(1) ch by (simp add: Let_def)
  qed
qed simp

lemma dropWhile_above:
  assumes "downward P" "sorted xs" "e \<in> set (dropWhile P xs)"
  shows "\<not> P e"
proof -
  obtain y ys where d: "dropWhile P xs = y # ys"
    using assms(3) by (cases "dropWhile P xs") auto
  have "y \<le> e"
    using assms(2,3) sorted_dropWhile [of xs P] d by auto
  moreover have "\<not> P y"
    using d hd_dropWhile [of P xs] by simp
  ultimately show ?thesis
    using assms(1) by (auto simp: downward_def)
qed

text \<open>Among entries not below \<open>(key, 0)\<close> only the first can tell whether \<open>key\<close> occurs.\<close>

lemma key_at_head:
  assumes "sorted xs" "\<forall>e \<in> set xs. \<not> e < Entry key 0"
  shows "(\<exists>e \<in> set xs. ent_key e = key) \<longleftrightarrow> xs \<noteq> [] \<and> ent_key (hd xs) = key"
proof (cases xs)
  case (Cons x xs')
  have "ent_key x = key" if "e \<in> set xs" "ent_key e = key" for e
  proof -
    have "x \<le> e"
      using that assms(1) Cons by auto
    then show ?thesis
      using that assms(2) Cons by (auto simp: less_entry_iff less_eq_entry_iff)
  qed
  then show ?thesis
    using Cons by auto
qed simp

lemma containsLoop_sound:
  assumes "h < fuel" "bal h t" "sorted (inorder t)" "stored (readNode ix) t"
  shows "containsLoop fuel ix key (broot t) = Inr (\<exists>e \<in> set (inorder t). ent_key e = key)"
  using assms
proof (induction fuel arbitrary: h t)
  case (Suc fuel)
  let ?P = "\<lambda>e. e < Entry key 0"
  let ?i = "length (takeWhile ?P (seps t))"
  define hit where "hit \<longleftrightarrow> dropWhile ?P (seps t) \<noteq> [] \<and> ent_key (hd (dropWhile ?P (seps t))) = key"
  have P: "?P e \<Longrightarrow> ent_key e \<noteq> key" for e
    by (auto simp: less_entry_iff)
  have "length (seps t) = ?i + length (dropWhile ?P (seps t))"
    by (metis length_append takeWhile_dropWhile_id)
  then have lt: "?i < bcount t \<longleftrightarrow> dropWhile ?P (seps t) \<noteq> []"
    by (simp del: dropWhile_eq_Nil_conv)
  have key: "it_key (nd_items (node_of t) ! ?i) = ent_key (hd (dropWhile ?P (seps t)))" if "?i < bcount t"
    using first_ge.candidate [OF Suc.prems(2) that] by (metis entry.sel(1) item_entry_def)
  have step: "containsLoop (Suc fuel) ix key (broot t)
      = (if hit then Inr True else if h = 0 then Inr False
         else containsLoop fuel ix key (childAt (node_of t) ?i))"
    using Suc.prems first_ge.pos_tree [of h t key 0] lt key
    by (auto simp add: stored_root node_of_leaf node_of_length hit_def Let_def
        simp del: dropWhile_eq_Nil_conv)
  show ?case
  proof (cases t)
    case (BLeaf off es)
    have "(\<exists>e \<in> set (dropWhile ?P es). ent_key e = key) \<longleftrightarrow> hit"
    proof -
      have s: "sorted es"
        using Suc.prems(3) BLeaf by simp
      have "\<forall>e \<in> set (dropWhile ?P es). \<not> ?P e"
        using dropWhile_above [OF downward_less s] by blast
      then show ?thesis
        unfolding hit_def BLeaf seps.simps by (rule key_at_head [OF sorted_dropWhile [OF s]])
    qed
    moreover have "set es = set (takeWhile ?P es) \<union> set (dropWhile ?P es)"
      by (metis set_append takeWhile_dropWhile_id)
    moreover have "\<forall>e \<in> set (takeWhile ?P es). ent_key e \<noteq> key"
      using P set_takeWhileD [of _ ?P es] by blast
    ultimately have "(\<exists>e \<in> set es. ent_key e = key) \<longleftrightarrow> hit"
      by blast
    then show ?thesis
      using step Suc.prems(2) BLeaf by simp
  next
    case (BNode off ks ss)
    then obtain h' where h: "h = Suc h'" "\<forall>k \<in> set ks. bal h' k"
      using Suc.prems(2) by auto
    obtain k1 c k2 s1 s2 where sp: "ks = k1 @ c # k2" "ss = s1 @ s2" "length k1 = length s1"
        "length k2 = length s2" "takeWhile ?P ss = s1" "dropWhile ?P ss = s2"
        "inorder (BNode off ks ss) = fore (map inorder k1) s1 @ inorder c @ aft s2 (map inorder k2)"
        "\<forall>x \<in> set (fore (map inorder k1) s1). ?P x" "\<forall>x \<in> set (aft s2 (map inorder k2)). \<not> ?P x"
        "sorted (inorder c)"
      by (rule descend_split [OF Suc.prems(2,3) [unfolded BNode] downward_less])
    have i: "?i = length s1"
      by (simp only: BNode seps.simps sp(5))
    have t: "t = BNode off (k1 @ c # k2) (s1 @ s2)"
      by (simp only: BNode sp(1) sp(2) [symmetric])
    have ch: "childAt (node_of t) ?i = broot c"
      using childAt_split [of h off k1 c k2 s1 s2] Suc.prems(2) sp(3) unfolding i unfolding t by blast
    have "containsLoop fuel ix key (broot c) = Inr (\<exists>e \<in> set (inorder c). ent_key e = key)"
      using Suc.prems(1,4) h sp(1,10) BNode by (intro Suc.IH [of h']) auto
    moreover have "(\<exists>e \<in> set (aft s2 (map inorder k2)). ent_key e = key) \<longleftrightarrow> hit"
    proof -
      have "sorted (aft s2 (map inorder k2))"
        using Suc.prems(3) sp(7) BNode by (simp add: sorted_append)
      moreover have "hit \<longleftrightarrow> s2 \<noteq> [] \<and> ent_key (hd s2) = key"
        by (simp only: hit_def BNode seps.simps sp(6))
      ultimately show ?thesis
        using key_at_head [OF _ sp(9)] sp(4) hd_aft [of "map inorder k2" s2] by (cases s2) auto
    qed
    moreover have "inorder t = fore (map inorder k1) s1 @ inorder c @ aft s2 (map inorder k2)"
      using sp(7) BNode by simp
    moreover have "\<forall>e \<in> set (fore (map inorder k1) s1). ent_key e \<noteq> key"
      using sp(8) P by blast
    ultimately show ?thesis
      using step h(1) ch by (auto simp: Bex_def)
  qed
qed simp

text \<open>The leftmost and rightmost leaves.  A tree whose nodes all hold an entry is not empty.\<close>

lemma inorder_seps: "bal h t \<Longrightarrow> set (seps t) \<subseteq> set (inorder t)"
proof (cases t)
  case (BNode off ks ss)
  moreover assume "bal h t"
  ultimately obtain k ks' where "ks = k # ks'" "length ks' = length ss"
    by (cases ks) auto
  then show ?thesis
    using BNode by (auto simp: interleave_def set_aft)
qed simp

lemma inorder_nonempty: "bal h t \<Longrightarrow> 0 < bcount t \<Longrightarrow> inorder t \<noteq> []"
  using inorder_seps [of h t] by (cases "seps t") (auto simp flip: length_seps)

lemma minLoop_first:
  assumes "h < fuel" "bal h t" "stored (readNode ix) t" "filled 1 t"
  shows "minLoop fuel ix (broot t)
    = Inr (if inorder t = [] then None else Some (hd (inorder t)))"
  using assms
proof (induction fuel arbitrary: h t)
  case (Suc fuel)
  show ?case
  proof (cases t)
    case (BLeaf off es)
    then show ?thesis
      using Suc.prems by (cases es) auto
  next
    case (BNode off ks ss)
    then obtain h' k ks' where h: "h = Suc h'" "ks = k # ks'" "\<forall>k \<in> set ks. bal h' k"
      using Suc.prems(2) by (cases ks) auto
    have "minLoop fuel ix (broot k) = Inr (if inorder k = [] then None else Some (hd (inorder k)))"
      using Suc.prems h BNode by (intro Suc.IH [of h']) auto
    moreover have "childAt (node_of t) 0 = broot k"
      using childAt_node [of h off ks ss 0] Suc.prems(2) BNode h(2) by simp
    moreover have "inorder k \<noteq> []"
      using inorder_nonempty [of h' k] Suc.prems(4) h BNode by simp
    ultimately show ?thesis
      using Suc.prems h BNode by (simp add: stored_root node_of_leaf interleave_def)
  qed
qed simp


lemma maxLoop_last:
  assumes "h < fuel" "bal h t" "stored (readNode ix) t" "filled 1 t"
  shows "maxLoop fuel ix (broot t)
    = Inr (if inorder t = [] then None else Some (last (inorder t)))"
  using assms
proof (induction fuel arbitrary: h t)
  case (Suc fuel)
  show ?case
  proof (cases t)
    case (BLeaf off es)
    then show ?thesis
      using Suc.prems by (cases es) (auto simp: last_conv_nth nth_append)
  next
    case (BNode off ks ss)
    then obtain h' ks' k where h: "h = Suc h'" "ks = ks' @ [k]" "\<forall>k \<in> set ks. bal h' k"
        "length ks' = length ss"
      using Suc.prems(2) by (cases ks rule: rev_cases) auto
    have "maxLoop fuel ix (broot k) = Inr (if inorder k = [] then None else Some (last (inorder k)))"
      using Suc.prems h BNode by (intro Suc.IH [of h']) auto
    moreover have "inorder k \<noteq> []"
      using inorder_nonempty [of h' k] Suc.prems(4) h BNode by simp
    moreover have "inorder t = fore (map inorder ks') ss @ inorder k"
      using interleave_split [of "map inorder ks'" ss "inorder k" "[]" "[]"] h BNode by simp
    ultimately show ?thesis
      using Suc.prems h BNode by (simp add: stored_root node_of_leaf)
  qed
qed simp

end
