(* ===== verification/NtxCursor.thy ===== *)
theory NtxCursor
  imports NtxQuery
begin

text \<open>
  \<open>cursor.go\<close>: the stack machine that walks an index in key order.  The model keeps the stack
  with its top first (the code appends at the end of a slice).  \<open>cursor_at ix c es\<close> says that
  the entries still to come are \<open>es\<close>; \<open>First\<close> and \<open>Seek\<close> establish it and \<open>Next\<close> consumes
  it.  One call of \<open>Next\<close> pops or pushes at most twice per page of the tree, which is the fuel
  \<open>next_fuel\<close> it is given.
\<close>

record frame =
  fr_offset :: nat
  fr_index :: nat
  fr_entered :: bool

record cursor =
  cu_stack :: "frame list"
  cu_current :: entry
  cu_err :: "error option"

definition NewCursor :: cursor where
  "NewCursor = \<lparr>cu_stack = [], cu_current = Entry [] 0, cu_err = None\<rparr>"

definition First :: "ntx_index \<Rightarrow> cursor \<Rightarrow> cursor" where
  "First ix c = c\<lparr>cu_err := None,
     cu_stack := [\<lparr>fr_offset = ix_root ix, fr_index = 0, fr_entered = False\<rparr>]\<rparr>"

fun seekLoop :: "nat \<Rightarrow> ntx_index \<Rightarrow> bytes \<Rightarrow> nat \<Rightarrow> cursor \<Rightarrow> cursor" where
  "seekLoop 0 ix key off c = c\<lparr>cu_err := Some OutOfFuel\<rparr>"
| "seekLoop (Suc fuel) ix key off c =
     (case readNode ix off of
        Inl e \<Rightarrow> c\<lparr>cu_err := Some e\<rparr>
      | Inr n \<Rightarrow>
        let i = findInNode n key 0 in
        if nd_leaf n then
          c\<lparr>cu_stack := \<lparr>fr_offset = nd_offset n, fr_index = i, fr_entered = False\<rparr> # cu_stack c\<rparr>
        else seekLoop fuel ix key (childAt n i)
          (c\<lparr>cu_stack := \<lparr>fr_offset = nd_offset n, fr_index = i, fr_entered = True\<rparr> # cu_stack c\<rparr>))"

definition Seek :: "ntx_index \<Rightarrow> bytes \<Rightarrow> cursor \<Rightarrow> cursor" where
  "Seek ix key c =
     (let c = c\<lparr>cu_err := None, cu_stack := []\<rparr> in
      case normalizeKey ix key of
        Inl e \<Rightarrow> c\<lparr>cu_err := Some e\<rparr>
      | Inr key \<Rightarrow> seekLoop (ntx_fuel ix) ix key (ix_root ix) c)"

fun nextLoop :: "nat \<Rightarrow> ntx_index \<Rightarrow> cursor \<Rightarrow> cursor \<times> bool" where
  "nextLoop 0 ix c = (c\<lparr>cu_err := Some OutOfFuel\<rparr>, False)"
| "nextLoop (Suc fuel) ix c =
     (case cu_stack c of
        [] \<Rightarrow> (c, False)
      | fr # below \<Rightarrow>
        (case readNode ix (fr_offset fr) of
           Inl e \<Rightarrow> (c\<lparr>cu_err := Some e\<rparr>, False)
         | Inr n \<Rightarrow>
           if nd_leaf n then
             (if fr_index fr < length (nd_items n) then
                (c\<lparr>cu_stack := fr\<lparr>fr_index := fr_index fr + 1\<rparr> # below,
                   cu_current := item_entry (nd_items n ! fr_index fr)\<rparr>, True)
              else nextLoop fuel ix (c\<lparr>cu_stack := below\<rparr>))
           else if \<not> fr_entered fr then
             nextLoop fuel ix (c\<lparr>cu_stack :=
               \<lparr>fr_offset = childAt n (fr_index fr), fr_index = 0, fr_entered = False\<rparr>
               # fr\<lparr>fr_entered := True\<rparr> # below\<rparr>)
           else if fr_index fr < length (nd_items n) then
             (c\<lparr>cu_stack := fr\<lparr>fr_index := fr_index fr + 1, fr_entered := False\<rparr> # below,
                cu_current := item_entry (nd_items n ! fr_index fr)\<rparr>, True)
           else nextLoop fuel ix (c\<lparr>cu_stack := below\<rparr>)))"

declare nextLoop.simps(2) [simp del]

definition next_fuel :: "ntx_index \<Rightarrow> nat" where
  "next_fuel ix = 2 * ntx_fuel ix"

definition Next :: "ntx_index \<Rightarrow> cursor \<Rightarrow> cursor \<times> bool" where
  "Next ix c = (if cu_err c \<noteq> None then (c, False) else nextLoop (next_fuel ix) ix c)"

section \<open>What a stack stands for\<close>

text \<open>An abstract frame is a tree with a position in it.\<close>

type_synonym aframe = "btree \<times> nat \<times> bool"

fun conc :: "aframe \<Rightarrow> frame" where
  "conc (t, i, ent) = \<lparr>fr_offset = broot t, fr_index = i, fr_entered = ent\<rparr>"

fun rest_of :: "aframe \<Rightarrow> entry list" where
  "rest_of (BLeaf off es, i, ent) = drop i es"
| "rest_of (BNode off ks ss, i, ent) =
     (if ent then [] else inorder (ks ! i)) @ aft (drop i ss) (map inorder (drop (Suc i) ks))"

text \<open>The pops and pushes a frame still costs.\<close>

fun weight :: "aframe \<Rightarrow> nat" where
  "weight (BLeaf off es, i, ent) = 1"
| "weight (BNode off ks ss, i, ent) =
     Suc (2 * length (concat (map pages (if ent then drop (Suc i) ks else drop i ks))))"

fun frame_ok :: "ntx_index \<Rightarrow> aframe \<Rightarrow> bool" where
  "frame_ok ix (t, i, ent) \<longleftrightarrow> stored (readNode ix) t \<and> (\<exists>h. bal h t) \<and> i \<le> bcount t"

definition cursor_at :: "ntx_index \<Rightarrow> cursor \<Rightarrow> entry list \<Rightarrow> bool" where
  "cursor_at ix c es \<longleftrightarrow> cu_err c = None
     \<and> (\<exists>st. cu_stack c = map conc st \<and> list_all (frame_ok ix) st
          \<and> es = concat (map rest_of st) \<and> sum_list (map weight st) < next_fuel ix)"

lemma weight_fresh: "bal h t \<Longrightarrow> weight (t, 0, False) < 2 * length (pages t)"
  by (cases t) auto

lemma rest_of_fresh:
  assumes "bal h t"
  shows "rest_of (t, 0, False) = inorder t"
proof (cases t)
  case (BNode off ks ss)
  then obtain k ks' where "ks = k # ks'"
    using assms by (cases ks) auto
  then show ?thesis
    using BNode by (simp add: interleave_def)
qed simp

lemma aft_drop:
  assumes "i < length ss" "length ks = Suc (length ss)"
  shows "aft (drop i ss) (map inorder (drop (Suc i) ks))
    = ss ! i # inorder (ks ! Suc i) @ aft (drop (Suc i) ss) (map inorder (drop (Suc (Suc i)) ks))"
proof -
  have "drop i ss = ss ! i # drop (Suc i) ss" "drop (Suc i) ks = ks ! Suc i # drop (Suc (Suc i)) ks"
    using assms by (simp_all add: Cons_nth_drop_Suc)
  then show ?thesis
    by simp
qed

text \<open>One iteration of the loop, by the kind of the top frame.\<close>

lemma nextLoop_leaf:
  assumes "cu_stack c = map conc ((BLeaf off es, i, ent) # st)" "frame_ok ix (BLeaf off es, i, ent)"
  shows "nextLoop (Suc fuel) ix c =
    (if i < length es then (c\<lparr>cu_stack := map conc ((BLeaf off es, Suc i, ent) # st), cu_current := es ! i\<rparr>, True)
     else nextLoop fuel ix (c\<lparr>cu_stack := map conc st\<rparr>))"
  using assms by (simp add: nextLoop.simps(2))

lemma nextLoop_node:
  assumes "cu_stack c = map conc ((BNode off ks ss, i, ent) # st)" "frame_ok ix (BNode off ks ss, i, ent)"
  shows "nextLoop (Suc fuel) ix c =
    (if \<not> ent then nextLoop fuel ix
        (c\<lparr>cu_stack := map conc ((ks ! i, 0, False) # (BNode off ks ss, i, True) # st)\<rparr>)
     else if i < length ss then
       (c\<lparr>cu_stack := map conc ((BNode off ks ss, Suc i, False) # st), cu_current := ss ! i\<rparr>, True)
     else nextLoop fuel ix (c\<lparr>cu_stack := map conc st\<rparr>))"
proof -
  obtain h where h: "bal h (BNode off ks ss)"
    using assms(2) by auto
  have ch: "childAt (node_of (BNode off ks ss)) i = broot (ks ! i)"
    using childAt_node [OF h] assms(2) by simp
  have len: "length (nd_items (node_of (BNode off ks ss))) = length ss"
    using node_of_length [OF h] by simp
  have it: "item_entry (nd_items (node_of (BNode off ks ss)) ! i) = ss ! i" if "i < length ss"
    using node_of_item [OF h, of i] that by (simp add: item_entry_def)
  have rd: "readNode ix off = Inr (node_of (BNode off ks ss))"
    using assms(2) by simp
  show ?thesis
    using assms(1) ch len it rd
    by (simp add: nextLoop.simps(2) del: node_of.simps) (simp add: node_of.simps)
qed

text \<open>What a call of \<open>Next\<close> returns when \<open>es\<close> is still to come.\<close>

fun next_result :: "ntx_index \<Rightarrow> cursor \<times> bool \<Rightarrow> entry list \<Rightarrow> bool" where
  "next_result ix (c, b) [] \<longleftrightarrow> \<not> b \<and> cursor_at ix c []"
| "next_result ix (c, b) (e # es) \<longleftrightarrow> b \<and> cu_current c = e \<and> cursor_at ix c es"

lemma nextLoop_correct:
  assumes "cu_stack c = map conc st" "list_all (frame_ok ix) st" "sum_list (map weight st) < fuel"
    and "cu_err c = None" "sum_list (map weight st) < next_fuel ix"
  shows "next_result ix (nextLoop fuel ix c) (concat (map rest_of st))"
  using assms
proof (induction fuel arbitrary: c st)
  case (Suc fuel)
  show ?case
  proof (cases st)
    case Nil
    then show ?thesis
      using Suc.prems by (auto simp: cursor_at_def nextLoop.simps(2) intro: exI [of _ "[]"])
  next
    case (Cons f st')
    obtain t i ent where f: "f = (t, i, ent)"
      by (cases f) auto
    have ok: "frame_ok ix (t, i, ent)" "list_all (frame_ok ix) st'"
      using Suc.prems(2) Cons f by simp_all
    show ?thesis
    proof (cases t)
      case (BLeaf off es)
      have stk: "cu_stack c = map conc ((BLeaf off es, i, ent) # st')"
        using Suc.prems(1) Cons f BLeaf by simp
      note step = nextLoop_leaf [OF stk ok(1) [unfolded BLeaf]]
      show ?thesis
      proof (cases "i < length es")
        case True
        have "concat (map rest_of st) = es ! i # drop (Suc i) es @ concat (map rest_of st')"
          using Cons f BLeaf True by (simp add: Cons_nth_drop_Suc)
        moreover have "cursor_at ix (c\<lparr>cu_stack := map conc ((BLeaf off es, Suc i, ent) # st'),
            cu_current := es ! i\<rparr>) (drop (Suc i) es @ concat (map rest_of st'))"
          unfolding cursor_at_def using Suc.prems Cons f BLeaf ok True
          by (intro conjI exI [of _ "(BLeaf off es, Suc i, ent) # st'"]) auto
        ultimately show ?thesis
          using step True by simp
      next
        case False
        then have "concat (map rest_of st) = concat (map rest_of st')"
          using Cons f BLeaf by simp
        then show ?thesis
          using Suc.IH [of "c\<lparr>cu_stack := map conc st'\<rparr>" st'] step False Suc.prems Cons f BLeaf ok
          by simp
      qed
    next
      case (BNode off ks ss)
      have stk: "cu_stack c = map conc ((BNode off ks ss, i, ent) # st')"
        using Suc.prems(1) Cons f BNode by simp
      note step = nextLoop_node [OF stk ok(1) [unfolded BNode]]
      obtain h where "bal (Suc h) (BNode off ks ss)"
        using ok(1) BNode by auto
      then have len: "length ks = Suc (length ss)" and kid: "\<forall>k \<in> set ks. bal h k"
        by auto
      have i: "i \<le> length ss"
        using ok(1) BNode by simp
      show ?thesis
      proof (cases ent)
        case False
        let ?st = "(ks ! i, 0, False) # (BNode off ks ss, i, True) # st'"
        have k: "ks ! i \<in> set ks" "drop i ks = ks ! i # drop (Suc i) ks"
          using i len by (simp_all add: Cons_nth_drop_Suc)
        have "concat (map rest_of st) = concat (map rest_of ?st)"
          using Cons f BNode False k kid rest_of_fresh [of h "ks ! i"] by simp
        moreover have "sum_list (map weight ?st) < sum_list (map weight st)"
          using Cons f BNode False k kid weight_fresh [of h "ks ! i"] by simp
        moreover have "list_all (frame_ok ix) ?st"
          using ok k kid BNode by auto
        ultimately show ?thesis
          using Suc.IH [of "c\<lparr>cu_stack := map conc ?st\<rparr>" ?st] step False Suc.prems by simp
      next
        case True
        show ?thesis
        proof (cases "i < length ss")
          case lt: True
          let ?c = "c\<lparr>cu_stack := map conc ((BNode off ks ss, Suc i, False) # st'), cu_current := ss ! i\<rparr>"
          have "concat (map rest_of st) = ss ! i # rest_of (BNode off ks ss, Suc i, False) @ concat (map rest_of st')"
            using Cons f BNode True lt len aft_drop [OF lt len] by simp
          moreover have "cursor_at ix ?c (rest_of (BNode off ks ss, Suc i, False) @ concat (map rest_of st'))"
            unfolding cursor_at_def using Suc.prems Cons f BNode ok True lt
            by (intro conjI exI [of _ "(BNode off ks ss, Suc i, False) # st'"]) auto
          ultimately show ?thesis
            using step True lt by simp
        next
          case False
          then have "concat (map rest_of st) = concat (map rest_of st')"
            using Cons f BNode True i by simp
          then show ?thesis
            using Suc.IH [of "c\<lparr>cu_stack := map conc st'\<rparr>" st'] step True False Suc.prems Cons f BNode ok
            by simp
        qed
      qed
    qed
  qed
qed simp

lemma Next_correct:
  assumes "cursor_at ix c es"
  shows "next_result ix (Next ix c) es"
proof -
  obtain st where st: "cu_stack c = map conc st" "list_all (frame_ok ix) st"
      "es = concat (map rest_of st)" "sum_list (map weight st) < next_fuel ix" "cu_err c = None"
    using assms by (auto simp: cursor_at_def)
  show ?thesis
    using nextLoop_correct [OF st(1,2,4,5,4)] st(3,5) by (simp add: Next_def)
qed

section \<open>Positioning\<close>

lemma weight_whole: "sum_list (map weight [(t, 0, False)]) \<le> 2 * length (pages t)" if "bal h t"
  using weight_fresh [OF that] by simp

lemma pages_fuel:
  assumes "wf_store ix fs" "tree_ok ix h t"
  shows "length (pages t) < ntx_fuel ix"
proof -
  have "length (pages t) \<le> ix_fileSize ix div pageSize - 1"
    using assms stored_pages [of ix t]
    by (intro distinct_aligned_bound) (auto simp: tree_ok_def wf_store_def intro: order_trans)
  moreover have "0 < length (pages t)"
    by simp
  ultimately show ?thesis
    unfolding ntx_fuel_def by linarith
qed

lemma First_cursor:
  assumes "ntx_valid ix fs h t"
  shows "cursor_at ix (First ix c) (inorder t)"
proof -
  have t: "stored (readNode ix) t" "bal h t" "ix_root ix = broot t"
    using assms by (auto simp: ntx_valid_def tree_ok_def)
  have "length (pages t) < ntx_fuel ix"
    using assms by (auto simp: ntx_valid_def intro: pages_fuel)
  then have "weight (t, 0, False) < next_fuel ix"
    using weight_fresh [OF t(2)] by (simp add: next_fuel_def)
  then show ?thesis
    unfolding cursor_at_def First_def using t rest_of_fresh [OF t(2)]
    by (intro conjI exI [of _ "[(t, 0, False)]"]) auto
qed

text \<open>\<open>Seek\<close> leaves one frame per level; below it the entries before the key are skipped.\<close>

lemma seekLoop_cursor:
  assumes "h < fuel" "bal h t" "sorted (inorder t)" "stored (readNode ix) t"
    and "cu_stack c = map conc st" "list_all (frame_ok ix) st" "cu_err c = None"
    and "2 * length (pages t) + sum_list (map weight st) \<le> next_fuel ix"
  shows "cursor_at ix (seekLoop fuel ix key (broot t) c)
    (dropWhile (\<lambda>e. e < Entry key 0) (inorder t) @ concat (map rest_of st))"
  using assms
proof (induction fuel arbitrary: h t c st)
  case (Suc fuel)
  let ?P = "\<lambda>e. e < Entry key 0"
  let ?i = "length (takeWhile ?P (seps t))"
  have i: "?i \<le> bcount t"
    using length_takeWhile_le [of ?P "seps t"] by simp
  have step: "seekLoop (Suc fuel) ix key (broot t) c =
      (if h = 0 then c\<lparr>cu_stack := conc (t, ?i, False) # cu_stack c\<rparr>
       else seekLoop fuel ix key (childAt (node_of t) ?i) (c\<lparr>cu_stack := conc (t, ?i, True) # cu_stack c\<rparr>))"
    using Suc.prems first_ge.pos_tree [of h t key 0] by (simp add: stored_root node_of_leaf Let_def)
  have ok: "frame_ok ix (t, ?i, ent)" for ent
    using Suc.prems i by auto
  show ?case
  proof (cases t)
    case (BLeaf off es)
    have "cursor_at ix (c\<lparr>cu_stack := conc (t, ?i, False) # cu_stack c\<rparr>)
        (concat (map rest_of ((t, ?i, False) # st)))"
      unfolding cursor_at_def using Suc.prems ok [of False] BLeaf
      by (intro conjI exI [of _ "(t, ?i, False) # st"]) auto
    then show ?thesis
      using step Suc.prems(2) BLeaf by (simp add: dropWhile_eq_drop)
  next
    case (BNode off ks ss)
    then obtain h' where h: "h = Suc h'" "\<forall>k \<in> set ks. bal h' k"
      using Suc.prems(2) by auto
    obtain k1 k k2 s1 s2 where sp: "ks = k1 @ k # k2" "ss = s1 @ s2" "length k1 = length s1"
        "length k2 = length s2" "takeWhile ?P ss = s1" "dropWhile ?P ss = s2"
        "inorder (BNode off ks ss) = fore (map inorder k1) s1 @ inorder k @ aft s2 (map inorder k2)"
        "\<forall>x \<in> set (fore (map inorder k1) s1). ?P x" "\<forall>x \<in> set (aft s2 (map inorder k2)). \<not> ?P x"
        "sorted (inorder k)"
      by (rule descend_split [OF Suc.prems(2,3) [unfolded BNode] downward_less])
    have il: "?i = length s1"
      by (simp only: BNode seps.simps sp(5))
    have t: "t = BNode off (k1 @ k # k2) (s1 @ s2)"
      by (simp only: BNode sp(1) sp(2) [symmetric])
    have ch: "childAt (node_of t) ?i = broot k"
      using childAt_split [of h off k1 k k2 s1 s2] Suc.prems(2) sp(3) unfolding il unfolding t by blast
    let ?f = "(t, ?i, True)"
    have rest: "rest_of ?f = aft s2 (map inorder k2)"
      unfolding il unfolding t using sp(3) by simp
    have wt: "weight ?f = Suc (2 * length (concat (map pages k2)))"
      unfolding il unfolding t using sp(3) by simp
    have "length (pages t) = Suc (length (concat (map pages k1)) + length (pages k) + length (concat (map pages k2)))"
      unfolding t by simp
    then have "cursor_at ix (seekLoop fuel ix key (broot k) (c\<lparr>cu_stack := conc ?f # cu_stack c\<rparr>))
        (dropWhile ?P (inorder k) @ concat (map rest_of (?f # st)))"
      using Suc.prems h sp(1,10) BNode ok [of True] wt
      by (intro Suc.IH [of h']) (auto simp del: weight.simps)
    moreover have "dropWhile ?P (inorder t) = dropWhile ?P (inorder k) @ aft s2 (map inorder k2)"
      using dropWhile_append_split [OF sp(8,9)] sp(7) BNode by simp
    ultimately show ?thesis
      using step h(1) ch rest by simp
  qed
qed simp

lemma Seek_cursor:
  assumes "ntx_valid ix fs h t" "normalizeKey ix key = Inr k"
  shows "cursor_at ix (Seek ix key c) (dropWhile (\<lambda>e. e < Entry k 0) (inorder t))"
proof -
  have t: "tree_ok ix h t" "wf_store ix fs" "ix_root ix = broot t"
    using assms by (auto simp: ntx_valid_def)
  have "cursor_at ix (seekLoop (ntx_fuel ix) ix k (broot t) (c\<lparr>cu_err := None, cu_stack := []\<rparr>))
      (dropWhile (\<lambda>e. e < Entry k 0) (inorder t) @ concat (map rest_of []))"
    using t fuel_enough [OF t(2,1)] pages_fuel [OF t(2,1)]
    by (intro seekLoop_cursor) (auto simp: tree_ok_def next_fuel_def)
  then show ?thesis
    using assms(2) t(3) by (simp add: Seek_def)
qed

end
