(* ===== verification/NtxInsert.thy ===== *)
theory NtxInsert
  imports NtxQuery
begin

text \<open>
  \<open>insert.go\<close>: insertion with preemptive splitting.  A node passed by pointer and updated by
  the callee is a result of the operation.  The proof is a refinement: on a well-formed index
  the pages end up holding a tree whose in-order list is the old one with the entry inserted
  at its place.
\<close>

section \<open>The operations\<close>

definition splitChild :: "node \<Rightarrow> nat \<Rightarrow> node \<Rightarrow> (ntx_index, node \<times> node) op" where
  "splitChild parent i child =
     (if nd_items child = [] then failS (Panic ''index out of range'') else
      let m = length (nd_items child) div 2; median = nd_items child ! m in
      bindS allocPage (\<lambda>rightOffset.
        let right = \<lparr>nd_offset = rightOffset, nd_items = drop (m + 1) (nd_items child),
                     nd_right = nd_right child, nd_leaf = nd_leaf child\<rparr>;
            child = child\<lparr>nd_items := take m (nd_items child), nd_right := it_child median\<rparr>;
            parent = parent\<lparr>nd_items := take i (nd_items parent)
              @ \<lparr>it_child = nd_offset child, it_recno = it_recno median, it_key = it_key median\<rparr>
              # drop i (nd_items parent)\<rparr>;
            parent = setChildAt parent (i + 1) rightOffset
        in bindS (seqS writeNode [child, right, parent]) (\<lambda>_. returnS (parent, child))))"

fun insertNonFull :: "nat \<Rightarrow> node \<Rightarrow> bytes \<Rightarrow> u32 \<Rightarrow> (ntx_index, unit) op" where
  "insertNonFull 0 n key recno = failS OutOfFuel"
| "insertNonFull (Suc fuel) n key recno =
     (let i = findInNode n key recno in
      if nd_leaf n then
        writeNode (n\<lparr>nd_items := take i (nd_items n)
          @ \<lparr>it_child = 0, it_recno = recno, it_key = key\<rparr> # drop i (nd_items n)\<rparr>)
      else
        bindS (queryS (\<lambda>ix. readNode ix (childAt n i))) (\<lambda>child.
        bindS (queryS (\<lambda>ix. Inr (unat (ix_maxItem ix)))) (\<lambda>maxItem.
        if length (nd_items child) = maxItem then
          bindS (splitChild n i child) (\<lambda>(n, _).
            let median = nd_items n ! i;
                i = (if compareEntries key recno (it_key median) (it_recno median) > 0 then i + 1 else i)
            in bindS (queryS (\<lambda>ix. readNode ix (childAt n i))) (\<lambda>child.
               insertNonFull fuel child key recno))
        else insertNonFull fuel child key recno)))"

definition growRoot :: "node \<Rightarrow> (ntx_index, node) op" where
  "growRoot root =
     bindS allocPage (\<lambda>newOffset.
     bindS (splitChild \<lparr>nd_offset = newOffset, nd_items = [], nd_right = nd_offset root,
                        nd_leaf = False\<rparr> 0 root) (\<lambda>(newRoot, _).
     \<lambda>ix. (ix\<lparr>ix_root := newOffset\<rparr>, Inr newRoot)))"

definition Insert :: "bytes \<Rightarrow> u32 \<Rightarrow> (ntx_index, bool) op" where
  "Insert key recno =
     bindS (queryS (\<lambda>ix. normalizeKey ix key)) (\<lambda>key.
     bindS (queryS (\<lambda>ix. if ix_unique ix then ContainsKey ix key else Inr False)) (\<lambda>exists.
     if exists then returnS False else
       bindS (queryS (\<lambda>ix. readNode ix (ix_root ix))) (\<lambda>root.
       bindS (\<lambda>ix. if length (nd_items root) = unat (ix_maxItem ix) then growRoot root ix
                   else (ix, Inr root)) (\<lambda>root.
       bindS (\<lambda>ix. insertNonFull (ntx_fuel ix) root key recno ix) (\<lambda>_.
       bindS ntx_writeHeader (\<lambda>_. returnS True))))))"

section \<open>Splitting a tree\<close>

fun split_tree :: "nat \<Rightarrow> btree \<Rightarrow> btree \<times> entry \<times> btree" where
  "split_tree roff (BLeaf off es) =
     (let m = length es div 2 in (BLeaf off (take m es), es ! m, BLeaf roff (drop (m + 1) es)))"
| "split_tree roff (BNode off ks ss) =
     (let m = length ss div 2 in
      (BNode off (take (m + 1) ks) (take m ss), ss ! m,
       BNode roff (drop (m + 1) ks) (drop (m + 1) ss)))"

lemma interleave_take_drop:
  assumes "length ks = Suc (length ss)" "m < length ss"
  shows "interleave ks ss
    = interleave (take (Suc m) ks) (take m ss) @ ss ! m # interleave (drop (Suc m) ks) (drop (Suc m) ss)"
proof -
  obtain k ks' where ks: "ks = k # ks'" "length ks' = length ss"
    using assms(1) by (cases ks) auto
  have "aft (take m ss @ ss ! m # drop (Suc m) ss) (take m ks' @ ks' ! m # drop (Suc m) ks')
      = aft (take m ss) (take m ks') @ aft (ss ! m # drop (Suc m) ss) (ks' ! m # drop (Suc m) ks')"
    using ks(2) by (intro aft_append) simp
  then have "aft ss ks' = aft (take m ss) (take m ks') @ aft (ss ! m # drop (Suc m) ss) (ks' ! m # drop (Suc m) ks')"
    using assms(2) ks(2) by (simp only: take_nth_drop)
  moreover have "drop (Suc m) ks = ks' ! m # drop (Suc m) ks'"
    using ks assms(2) by (simp add: Cons_nth_drop_Suc)
  ultimately show ?thesis
    using ks(1) by (simp add: interleave_def)
qed

lemma split_tree_props:
  assumes "split_tree roff c = (l, med, r)" "bal h c" "0 < bcount c"
  shows "inorder c = inorder l @ med # inorder r" "bal h l" "bal h r" "broot l = broot c" "broot r = roff"
    "bcount l = bcount c div 2" "bcount r = bcount c - bcount c div 2 - 1"
    "set (pages l) \<union> set (pages r) = insert roff (set (pages c))"
    "distinct (pages c) \<Longrightarrow> roff \<notin> set (pages c) \<Longrightarrow> distinct (pages l @ pages r)"
    "fits K M c \<Longrightarrow> fits K M l \<and> fits K M r \<and> length (ent_key med) = K"
    "filled m c \<Longrightarrow> filled m l \<and> filled m r" "length (pages l) + length (pages r) = Suc (length (pages c))"
proof -
  have all: "inorder c = inorder l @ med # inorder r \<and> bal h l \<and> bal h r \<and> broot l = broot c
    \<and> broot r = roff \<and> bcount l = bcount c div 2 \<and> bcount r = bcount c - bcount c div 2 - 1
    \<and> mset (pages l) + mset (pages r) = add_mset roff (mset (pages c))"
  proof (cases c)
    case (BLeaf off es)
    then have m: "length es div 2 < length es"
      using assms(3) by simp
    show ?thesis
      using assms BLeaf m
      by (auto simp: Let_def take_nth_drop)
  next
    case (BNode off ks ss)
    then have m: "length ss div 2 < length ss"
      using assms(3) by simp
    obtain h' where ks: "h = Suc h'" "length ks = Suc (length ss)" "\<forall>k \<in> set ks. bal h' k"
      using assms(2) BNode by auto
    have p: "mset (concat (map pages (take n ks))) + mset (concat (map pages (drop n ks)))
        = mset (concat (map pages ks))" for n
      by (metis append_take_drop_id concat_append map_append mset_append)
    have kb: "\<forall>k \<in> set (take n ks). bal h' k" "\<forall>k \<in> set (drop n ks). bal h' k" for n
      using ks(3) by (auto dest: in_set_takeD in_set_dropD)
    have "length (take (Suc (length ss div 2)) ks) = Suc (length ss div 2)"
      using m ks(2) by simp
    moreover have "length ss - length ss div 2 = Suc (length ss - Suc (length ss div 2))"
      using m by (simp add: Suc_diff_Suc)
    ultimately show ?thesis
      using assms BNode m ks(1,2) kb [of "Suc (length ss div 2)"] p [of "Suc (length ss div 2)"]
        interleave_take_drop [of "map inorder ks" ss "length ss div 2"]
      by (simp add: Let_def take_map drop_map) (auto simp del: mset_concat mset_map)
  qed
  then show "inorder c = inorder l @ med # inorder r" "bal h l" "bal h r" "broot l = broot c" "broot r = roff"
    "bcount l = bcount c div 2" "bcount r = bcount c - bcount c div 2 - 1"
    by blast+
  have part: "(\<forall>x \<in> set (take n xs). Q x) \<and> (\<forall>x \<in> set (drop n xs). Q x)
      \<and> length (take n xs) \<le> M \<and> length (drop n xs) \<le> M"
    if "\<forall>x \<in> set xs. Q x" "length xs \<le> M" for n M Q and xs :: "'x list"
    using that by (metis in_set_dropD in_set_takeD length_drop length_take min.coboundedI1 diff_le_self le_trans)
  show "fits K M l \<and> fits K M r \<and> length (ent_key med) = K" if f: "fits K M c"
  proof (cases c)
    case (BLeaf off es)
    then have m: "length es div 2 < length es" and es: "\<forall>e \<in> set es. length (ent_key e) = K" "length es \<le> M"
      using assms(3) f by simp_all
    show ?thesis
      using assms(1) BLeaf m es part [OF es, of "length es div 2"] part [OF es, of "length es div 2 + 1"]
      by (simp add: Let_def) (auto simp: Let_def)
  next
    case (BNode off ks ss)
    then have m: "length ss div 2 < length ss" and ss: "\<forall>e \<in> set ss. length (ent_key e) = K" "length ss \<le> M"
      and ks: "\<forall>k \<in> set ks. fits K M k"
      using assms(3) f by simp_all
    show ?thesis
      using assms(1) BNode m ss part [OF ss, of "length ss div 2"] part [OF ss, of "length ss div 2 + 1"]
        part [OF ks order_refl, of "length ss div 2 + 1"]
      by (simp add: Let_def) (auto simp: Let_def)
  qed
  show "filled m l \<and> filled m r" if "filled m c"
  proof (cases c)
    case (BNode off ks ss)
    then have q: "\<forall>k \<in> set ks. m \<le> bcount k \<and> filled m k"
      using that by simp
    show ?thesis
      using part [OF q order_refl, of "length ss div 2 + 1"] assms(1) BNode by (auto simp: Let_def)
  qed (use assms(1) in \<open>auto simp: Let_def\<close>)
  have ms: "mset (pages l @ pages r) = mset (roff # pages c)"
    using all by simp
  show "set (pages l) \<union> set (pages r) = insert roff (set (pages c))"
    using mset_eq_setD [OF ms] by simp
  show "distinct (pages c) \<Longrightarrow> roff \<notin> set (pages c) \<Longrightarrow> distinct (pages l @ pages r)"
    using mset_eq_imp_distinct_iff [OF ms] by simp
  show "length (pages l) + length (pages r) = Suc (length (pages c))"
    using mset_eq_length [OF ms] by simp
qed

text \<open>The nodes of the two halves are those the code builds.\<close>

lemma split_tree_nodes:
  assumes "split_tree roff c = (l, med, r)" "bal h c" "0 < bcount c"
    and m_def: "m = length (nd_items (node_of c)) div 2"
  shows "node_of l = (node_of c)\<lparr>nd_items := take m (nd_items (node_of c)),
      nd_right := it_child (nd_items (node_of c) ! m)\<rparr>"
    and "node_of r = \<lparr>nd_offset = roff, nd_items = drop (m + 1) (nd_items (node_of c)),
      nd_right = nd_right (node_of c), nd_leaf = nd_leaf (node_of c)\<rparr>"
    and "item_entry (nd_items (node_of c) ! m) = med"
proof -
  have "node_of l = (node_of c)\<lparr>nd_items := take m (nd_items (node_of c)),
      nd_right := it_child (nd_items (node_of c) ! m)\<rparr>
    \<and> node_of r = \<lparr>nd_offset = roff, nd_items = drop (m + 1) (nd_items (node_of c)),
      nd_right = nd_right (node_of c), nd_leaf = nd_leaf (node_of c)\<rparr>
    \<and> item_entry (nd_items (node_of c) ! m) = med"
  proof (cases c)
    case (BLeaf off es)
    then show ?thesis
      using assms by (auto simp: Let_def take_map drop_map m_def leaf_item_def item_entry_def)
  next
    case (BNode off ks ss)
    then obtain h' where ks: "h = Suc h'" "length ks = Suc (length ss)" "\<forall>k \<in> set ks. bal h' k"
      using assms(2) by auto
    let ?m = "length ss div 2"
    have m: "m = ?m" "?m < length ss"
      using node_of_length [OF assms(2)] assms(3) BNode by (simp_all add: m_def)
    have "take (Suc ?m) ks = take ?m ks @ [ks ! ?m]"
      using m ks by (intro take_Suc_conv_app_nth) simp
    then have lst: "last (take (Suc ?m) ks) = ks ! ?m" "last (drop (Suc ?m) ks) = last ks"
      using m ks by simp_all
    have "zip (butlast ks) ss ! ?m = (ks ! ?m, ss ! ?m)"
      using m ks by (simp add: nth_butlast)
    then show ?thesis
      using assms(1) BNode ks m lst item_entry_branch [of "ks ! ?m" "ss ! ?m"]
      by (auto simp: Let_def take_map drop_map take_zip drop_zip take_butlast drop_butlast
          branch_item_def butlast_take min_def)
  qed
  then show "node_of l = (node_of c)\<lparr>nd_items := take m (nd_items (node_of c)),
      nd_right := it_child (nd_items (node_of c) ! m)\<rparr>"
    and "node_of r = \<lparr>nd_offset = roff, nd_items = drop (m + 1) (nd_items (node_of c)),
      nd_right = nd_right (node_of c), nd_leaf = nd_leaf (node_of c)\<rparr>"
    and "item_entry (nd_items (node_of c) ! m) = med"
    by blast+
qed

text \<open>The items of a branch, split at child \<open>length k1\<close>.\<close>

lemma node_of_branch:
  assumes "length k1 = length s1" "length k2 = length s2"
  shows "node_of (BNode off (k1 @ c # k2) (s1 @ s2)) =
    \<lparr>nd_offset = off, nd_items = map2 branch_item k1 s1 @ map2 branch_item (butlast (c # k2)) s2,
     nd_right = broot (last (c # k2)), nd_leaf = False\<rparr>"
  using assms by (simp add: butlast_append)

lemma branch_item_cong: "broot c' = broot c \<Longrightarrow> branch_item c' = branch_item c"
  by (intro ext) (simp add: branch_item_def)

lemma node_of_replace:
  assumes "length k1 = length s1" "length k2 = length s2" "broot c' = broot c"
  shows "node_of (BNode off (k1 @ c' # k2) (s1 @ s2)) = node_of (BNode off (k1 @ c # k2) (s1 @ s2))"
  unfolding node_of_branch [OF assms(1,2)]
  using assms(2,3) branch_item_cong [OF assms(3)] by (cases k2; cases s2) auto

lemma parent_split:
  assumes "length k1 = length s1" "length k2 = length s2" "broot l = broot c"
    and "P = node_of (BNode off (k1 @ c # k2) (s1 @ s2))"
  shows "node_of (BNode off (k1 @ l # r # k2) (s1 @ med # s2)) =
    setChildAt (P\<lparr>nd_items := take (length s1) (nd_items P)
      @ \<lparr>it_child = broot c, it_recno = ent_recno med, it_key = ent_key med\<rparr>
      # drop (length s1) (nd_items P)\<rparr>) (Suc (length s1)) (broot r)"
proof -
  have l: "length (map2 branch_item k1 s1) = length s1"
    using assms(1) by simp
  have P: "P = \<lparr>nd_offset = off, nd_items = map2 branch_item k1 s1 @ map2 branch_item (butlast (c # k2)) s2,
     nd_right = broot (last (c # k2)), nd_leaf = False\<rparr>"
    unfolding assms(4) by (rule node_of_branch [OF assms(1,2)])
  have N: "node_of (BNode off (k1 @ l # r # k2) (s1 @ med # s2)) =
    \<lparr>nd_offset = off, nd_items = map2 branch_item k1 s1 @ branch_item l med # map2 branch_item (butlast (r # k2)) s2,
     nd_right = broot (last (r # k2)), nd_leaf = False\<rparr>"
    using node_of_branch [of k1 s1 "r # k2" "med # s2" off l] assms(1,2) by simp
  show ?thesis
  proof (cases k2)
    case Nil
    then show ?thesis
      using assms(1-3) P N l by (simp add: setChildAt_def branch_item_def)
  next
    case (Cons k k2')
    then obtain s s2' where s2: "s2 = s # s2'" "length k2' = length s2'"
      using assms(2) by (cases s2) auto
    show ?thesis
      using assms(1-3) P N l Cons s2
      by (cases k2') (simp_all add: setChildAt_def branch_item_def nth_append list_update_append)
  qed
qed


section \<open>Splitting on the pages\<close>

text \<open>A tree whose pages may be written: laid out on pages of its own, none of them free.\<close>

definition owned :: "ntx_index \<Rightarrow> nat list \<Rightarrow> btree \<Rightarrow> bool" where
  "owned ix fs t \<longleftrightarrow> stored (readNode ix) t \<and> distinct (pages t) \<and> set (pages t) \<inter> set fs = {}"

lemma owned_page:
  assumes "wf_store ix fs" "owned ix fs t" "p \<in> set (pages t)"
  shows "0 < p" "pageSize dvd p" "p + pageSize \<le> ix_fileSize ix" "p \<notin> set fs"
proof -
  have "0 < p \<and> pageSize dvd p \<and> p + pageSize \<le> length (ix_rw ix)"
    using assms stored_pages [of ix t p] by (simp add: owned_def)
  moreover have "length (ix_rw ix) \<le> ix_fileSize ix"
    using assms(1) by (simp add: wf_store_def)
  ultimately show "0 < p" "pageSize dvd p" "p + pageSize \<le> ix_fileSize ix"
    by simp_all
  show "p \<notin> set fs"
    using assms by (auto simp: owned_def)
qed

lemma writable_tree:
  assumes "wf_store ix fs" "bal h t" "fits (unat (ix_keySize ix)) (unat (ix_maxItem ix)) t"
    and "\<And>p. p \<in> set (pages t) \<Longrightarrow> 0 < p \<and> p + pageSize \<le> ix_fileSize ix"
    and "pageSize dvd broot t" "broot t \<notin> set fs" "ix_fileSize ix \<le> 2 ^ 32"
  shows "writable fs ix (node_of t)"
proof -
  have "p < 2 ^ 32" if "p \<in> set (pages t)" for p
    using assms(4) [OF that] assms(7) by (simp add: pageSize_def)
  then have "node_ok ix (node_of t)"
    using assms by (intro node_ok_tree) auto
  then show ?thesis
    using assms by (simp add: writable_def)
qed

lemma owned_keeps:
  assumes "owned ix fs t" "keeps X ix ix'" "set (pages t) \<inter> X = {}" "set fs' \<subseteq> set fs"
  shows "owned ix' fs' t"
  using assms stored_keeps [OF _ assms(2,3)] by (auto simp: owned_def)

lemma owned_child:
  assumes "owned ix fs (BNode off ks ss)" "k \<in> set ks"
  shows "owned ix fs k"
proof -
  have "distinct (concat (map pages ks))"
    using assms(1) by (simp add: owned_def)
  then have "distinct (pages k)"
    using assms(2) by (auto simp: distinct_concat_iff)
  then show ?thesis
    using assms by (fastforce simp: owned_def)
qed

text \<open>The tree after the split, in terms of the one before.\<close>

definition split_result ::
  "ntx_index \<Rightarrow> nat list \<Rightarrow> nat \<Rightarrow> btree \<Rightarrow> ntx_index \<Rightarrow> nat list \<Rightarrow> btree \<Rightarrow> entry \<Rightarrow> btree \<Rightarrow> bool" where
  "split_result ix fs poff c ix' fs' l med r \<longleftrightarrow>
     split_tree (broot r) c = (l, med, r) \<and> wf_store ix' fs' \<and> ix_root ix' = ix_root ix
     \<and> keeps {poff, broot c, broot r} ix ix' \<and> set fs' \<subseteq> set fs \<and> broot r \<notin> set fs'
     \<and> (broot r \<in> set fs \<and> ix_fileSize ix' = ix_fileSize ix \<or> broot r = ix_fileSize ix)
     \<and> ix_fileSize ix' \<le> ix_fileSize ix + pageSize
     \<and> (synced ix \<longrightarrow> synced ix')
     \<and> ix_fileSize ix' + length fs * pageSize = ix_fileSize ix + Suc (length fs') * pageSize
     \<and> (fs' = [] \<or> ix_fileSize ix' = ix_fileSize ix)
     \<and> owned ix' fs' l \<and> owned ix' fs' r"

lemma splitChild_store:
  assumes wf: "wf_store ix fs" and c: "owned ix fs c" "0 < bcount c"
    and T: "T = BNode poff (k1 @ c # k2) (s1 @ s2)" and P: "P = node_of T"
    and len: "length k1 = length s1" "length k2 = length s2"
    and bal: "bal (Suc h) T" and fit: "fits (unat (ix_keySize ix)) (unat (ix_maxItem ix)) T"
    and room: "bcount T < unat (ix_maxItem ix)"
    and lay: "\<And>p. p \<in> set (pages T) \<Longrightarrow> 0 < p \<and> p + pageSize \<le> ix_fileSize ix"
    and poff: "pageSize dvd poff" "poff \<notin> set fs" "poff \<notin> set (pages c)"
    and lim: "ix_fileSize ix + pageSize \<le> 2 ^ 32"
  shows "\<exists>ix' fs' l med r. splitChild P (length s1) (node_of c) ix
      = (ix', Inr (node_of (BNode poff (k1 @ l # r # k2) (s1 @ med # s2)), node_of l))
    \<and> split_result ix fs poff c ix' fs' l med r
    \<and> readNode ix' poff = Inr (node_of (BNode poff (k1 @ l # r # k2) (s1 @ med # s2)))"
proof -
  let ?K = "unat (ix_keySize ix)" and ?M = "unat (ix_maxItem ix)"
  have cb: "bal h c" and cf: "fits ?K ?M c"
    using bal fit T by auto
  obtain ix1 roff fs1 where a: "allocPage ix = (ix1, Inr roff)" "wf_store ix1 fs1" "keeps {} ix ix1"
      "ix_rw ix1 = ix_rw ix" "ix_root ix1 = ix_root ix" "0 < roff" "pageSize dvd roff" "roff \<notin> set fs1"
      "set fs1 \<subseteq> set fs" "roff \<in> set fs \<or> roff = ix_fileSize ix"
      "roff + pageSize \<le> ix_fileSize ix1" "ix_fileSize ix1 \<le> ix_fileSize ix + pageSize"
      "roff \<in> set fs \<longrightarrow> ix_fileSize ix1 = ix_fileSize ix"
      "ix_fileSize ix1 + length fs * pageSize = ix_fileSize ix + Suc (length fs1) * pageSize"
      "fs1 = [] \<or> ix_fileSize ix1 = ix_fileSize ix"
    using allocPage_store [OF wf] by blast
  have sh: "ix_keySize ix1 = ix_keySize ix" "ix_maxItem ix1 = ix_maxItem ix" "ix_fileSize ix \<le> ix_fileSize ix1"
    using keeps_shape [OF a(3)] by simp_all
  have roff: "roff \<notin> set (pages c)" "roff \<noteq> poff"
  proof -
    show "roff \<notin> set (pages c)"
      using a(10) owned_page(3,4) [OF wf c(1), of roff] by (auto simp: pageSize_def)
    show "roff \<noteq> poff"
      using a(10) poff(2) lay [of poff] T by (auto simp: pageSize_def)
  qed
  obtain l med r where sp: "split_tree roff c = (l, med, r)"
    by (metis surj_pair)
  note pr = split_tree_props [OF sp cb c(2)]
  note nd = split_tree_nodes [OF sp cb c(2) refl]
  let ?T' = "BNode poff (k1 @ l # r # k2) (s1 @ med # s2)"
  note par = parent_split [OF len pr(4) P [unfolded T], of r med]
  have it: "nd_items (node_of c) \<noteq> []"
    using node_of_length [OF cb] c(2) by auto
  have med: "it_recno (nd_items (node_of c) ! (length (nd_items (node_of c)) div 2)) = ent_recno med"
    "it_key (nd_items (node_of c) ! (length (nd_items (node_of c)) div 2)) = ent_key med"
    using nd(3) by (auto simp: item_entry_def)
  have cl: "broot c \<in> set (pages c)" "set (pages l) \<subseteq> insert roff (set (pages c))"
      "set (pages r) \<subseteq> insert roff (set (pages c))"
    using pr(8) by auto
  have apart: "broot l \<noteq> broot r" "broot l \<noteq> poff" "broot r \<noteq> poff"
    using roff poff cl(1) pr(4,5) by metis+
  have inpage: "0 < p \<and> p + pageSize \<le> ix_fileSize ix1" if "p \<in> insert roff (set (pages T))" for p
    using that lay [of p] a(6,11) sh(3) by auto
  have cT: "set (pages c) \<subseteq> set (pages T)"
    using T by auto
  have T'p: "set (pages ?T') \<subseteq> insert roff (set (pages T))"
    using T cl by auto
  have T'b: "bal (Suc h) ?T'" and T'f: "fits ?K ?M ?T'"
    using bal fit room T pr(2,3) pr(10) [OF cf] by auto
  have lim1: "ix_fileSize ix1 \<le> 2 ^ 32"
    using a(12) lim by simp
  have "writable fs1 ix1 (node_of l)"
    using a(2) pr(2) pr(10) [OF cf] sh cl cT inpage lim1 pr(4) owned_page [OF wf c(1) cl(1)] a(9)
    by (intro writable_tree) auto
  moreover have "writable fs1 ix1 (node_of r)"
    using a(2) pr(3) pr(10) [OF cf] sh cl cT inpage lim1 pr(5) a(7,8)
    by (intro writable_tree) auto
  moreover have "writable fs1 ix1 (node_of ?T')"
    using a(2,9) T'b T'f sh T'p inpage lim1 poff(1,2)
    by (intro writable_tree [where h = "Suc h"]) auto
  ultimately have "list_all (writable fs1 ix1) [node_of l, node_of r, node_of ?T']"
    by simp
  moreover have "distinct (map nd_offset [node_of l, node_of r, node_of ?T'])"
    using apart by simp
  ultimately obtain ix2 where w: "seqS writeNode [node_of l, node_of r, node_of ?T'] ix1 = (ix2, Inr ())"
      "wf_store ix2 fs1" "keeps (nd_offset ` set [node_of l, node_of r, node_of ?T']) ix1 ix2"
      "same_roots ix1 ix2" "\<forall>n \<in> set [node_of l, node_of r, node_of ?T']. readNode ix2 (nd_offset n) = Inr n"
    using node_store.write_all [OF a(2)] by blast
  have k: "keeps {poff, broot c, broot r} ix ix2"
    using keeps_trans [OF a(3) w(3)] pr(4) by (simp add: insert_commute)
  have run: "splitChild P (length s1) (node_of c) ix = (ix2, Inr (node_of ?T', node_of l))"
    unfolding splitChild_def Let_def
    using it a(1) w(1) nd(1,2) par med pr(4,5)
    by (simp add: bindS_apply returnS_apply del: seqS.simps node_of.simps)
  have half: "owned ix2 fs1 x" if x: "x = l \<or> x = r" for x
  proof -
    have rd: "readNode ix2 (broot x) = Inr (node_of x)"
      using w(5) x by auto
    have xs: "\<And>k. k \<in> set (case x of BLeaf _ _ \<Rightarrow> [] | BNode _ ks _ \<Rightarrow> ks) \<Longrightarrow>
        k \<in> set (case c of BLeaf _ _ \<Rightarrow> [] | BNode _ ks _ \<Rightarrow> ks)"
      using x sp by (cases c) (auto simp: Let_def dest: in_set_takeD in_set_dropD)
    have kids: "stored (readNode ix2) k" if kin: "k \<in> set (case x of BLeaf _ _ \<Rightarrow> [] | BNode _ ks _ \<Rightarrow> ks)" for k
    proof -
      obtain off ks ss where c': "c = BNode off ks ss" "k \<in> set ks"
        using xs [OF kin] by (cases c) auto
      have "set (pages k) \<subseteq> set (pages c)" "broot c \<notin> set (pages k)"
        using c(1) c' by (auto simp: owned_def)
      then have "set (pages k) \<inter> {poff, broot c, broot r} = {}"
        using poff(3) roff(1) pr(5) by blast
      moreover have "stored (readNode ix) k"
        using c(1) c' by (simp add: owned_def)
      ultimately show ?thesis
        using k stored_keeps by blast
    qed
    have "stored (readNode ix2) x"
      using rd kids by (cases x) auto
    moreover have "distinct (pages x)"
      using pr(9) c(1) roff(1) x by (auto simp: owned_def)
    moreover have "set (pages x) \<inter> set fs1 = {}"
      using cl x c(1) a(8,9) by (fastforce simp: owned_def)
    ultimately show ?thesis
      by (simp add: owned_def)
  qed
  have "synced ix2" if "synced ix"
  proof -
    have "roff + pageSize \<le> length (ix_rw ix2)"
      using half [of r] stored_pages [of ix2 r "broot r"] pr(5) by (auto simp: owned_def)
    moreover have "length (ix_rw ix2) \<le> ix_fileSize ix2"
      using w(2) by (simp add: wf_store_def)
    moreover have "length (ix_rw ix) \<le> length (ix_rw ix2)"
      using keeps_shape [OF k] by simp
    ultimately show ?thesis
      using that w(4) a(10,12,13) unfolding synced_def same_roots_def by linarith
  qed
  then have "split_result ix fs poff c ix2 fs1 l med r"
    using sp pr(5) w(2,4) a k half by (auto simp: split_result_def same_roots_def)
  then show ?thesis
    using run w(5) by (auto simp del: node_of.simps)
qed


section \<open>Inserting below a node\<close>

text \<open>The pages an operation on \<open>t\<close> may touch: those of \<open>t\<close>, the free ones, and new ones.\<close>

definition region :: "ntx_index \<Rightarrow> nat list \<Rightarrow> btree \<Rightarrow> nat set" where
  "region ix fs t = set (pages t) \<union> set fs \<union> {ix_fileSize ix..}"

text \<open>The index after inserting \<open>x\<close> below \<open>t\<close> with at most \<open>n\<close> pages added to the file.\<close>

definition inserted ::
  "ntx_index \<Rightarrow> nat list \<Rightarrow> nat \<Rightarrow> nat \<Rightarrow> btree \<Rightarrow> entry \<Rightarrow> ntx_index \<Rightarrow> nat list \<Rightarrow> btree \<Rightarrow> bool" where
  "inserted ix fs n h t x ix' fs' t' \<longleftrightarrow>
     wf_store ix' fs' \<and> ix_root ix' = ix_root ix \<and> keeps (region ix fs t) ix ix'
     \<and> owned ix' fs' t' \<and> broot t' = broot t \<and> bal h t'
     \<and> fits (unat (ix_keySize ix)) (unat (ix_maxItem ix)) t'
     \<and> inorder t' = insort x (inorder t)
     \<and> set (pages t') \<subseteq> region ix fs t \<and> set fs' \<subseteq> set fs
     \<and> ix_fileSize ix' \<le> ix_fileSize ix + n * pageSize
     \<and> bcount t \<le> bcount t' \<and> (filled (minFill ix) t \<longrightarrow> filled (minFill ix) t')
     \<and> (synced ix \<longrightarrow> synced ix')
     \<and> ix_fileSize ix' + (length fs + length (pages t)) * pageSize
       = ix_fileSize ix + (length fs' + length (pages t')) * pageSize
     \<and> (fs' = [] \<or> ix_fileSize ix' = ix_fileSize ix)"

lemma insort_append_split:
  fixes x :: "'a::linorder"
  assumes "\<forall>a \<in> set xs. a < x" "\<forall>b \<in> set zs. x \<le> b"
  shows "insort x (xs @ ys @ zs) = xs @ insort x ys @ zs"
proof -
  have "insort x (ys @ zs) = insort x ys @ zs"
    using assms(2) by (induction ys) (auto simp: insort_is_Cons)
  then show ?thesis
    using assms(1) by (induction xs) (auto simp: not_le)
qed

lemma distinct_replace:
  assumes "distinct (off # a @ c @ b)" "distinct c'" "set c' \<inter> (set a \<union> set b \<union> {off}) = {}"
  shows "distinct (off # a @ c' @ b)"
  using assms by auto

lemma insert_in_child:
  assumes wf: "wf_store ix fs" and T: "T = BNode off (k1 @ c # k2) (s1 @ s2)"
    and len: "length k1 = length s1" "length k2 = length s2"
    and own: "owned ix fs T" and bal: "bal (Suc h) T"
    and fit: "fits (unat (ix_keySize ix)) (unat (ix_maxItem ix)) T"
    and lo: "\<forall>e \<in> set (fore (map inorder k1) s1). e < x"
    and hi: "\<forall>e \<in> set (aft s2 (map inorder k2)). x \<le> e"
    and ins: "inserted ix fs n h c x ix' fs' c'"
  shows "inserted ix fs n (Suc h) T x ix' fs' (BNode off (k1 @ c' # k2) (s1 @ s2))"
proof -
  let ?T' = "BNode off (k1 @ c' # k2) (s1 @ s2)"
  let ?others = "insert off (\<Union>k \<in> set k1 \<union> set k2. set (pages k))"
  have i: "wf_store ix' fs'" "ix_root ix' = ix_root ix" "keeps (region ix fs c) ix ix'"
      "owned ix' fs' c'" "broot c' = broot c" "bal h c'"
      "fits (unat (ix_keySize ix)) (unat (ix_maxItem ix)) c'"
      "inorder c' = insort x (inorder c)" "set (pages c') \<subseteq> region ix fs c" "set fs' \<subseteq> set fs"
      "ix_fileSize ix' \<le> ix_fileSize ix + n * pageSize" "bcount c \<le> bcount c'"
      "filled (minFill ix) c \<longrightarrow> filled (minFill ix) c'" "synced ix \<longrightarrow> synced ix'"
      "ix_fileSize ix' + (length fs + length (pages c)) * pageSize
       = ix_fileSize ix + (length fs' + length (pages c')) * pageSize"
      "fs' = [] \<or> ix_fileSize ix' = ix_fileSize ix"
    using ins by (auto simp: inserted_def)
  have pT: "set (pages T) = set (pages c) \<union> ?others"
    unfolding T by auto
  have dT: "distinct (off # concat (map pages k1) @ pages c @ concat (map pages k2))"
    using own unfolding T by (simp add: owned_def)
  have "?others \<inter> set (pages c) = {}"
    using dT by auto
  moreover have "?others \<inter> (set fs \<union> {ix_fileSize ix..}) = {}"
  proof -
    have "p \<notin> set fs \<and> p < ix_fileSize ix" if "p \<in> ?others" for p
    proof -
      have "p \<in> set (pages T)"
        using that pT by blast
      then show ?thesis
        using owned_page(3,4) [OF wf own, of p] by (simp add: pageSize_def)
    qed
    then show ?thesis
      by fastforce
  qed
  ultimately have others: "?others \<inter> region ix fs c = {}"
    unfolding region_def by blast
  have rd: "readNode ix' off = Inr (node_of T)"
    using own keeps_readNode [OF i(3), of off] others unfolding T by (auto simp: owned_def)
  have kids: "stored (readNode ix') k" if "k \<in> set k1 \<union> set k2" for k
  proof -
    have "set (pages k) \<inter> region ix fs c = {}"
      using others that by blast
    moreover have "stored (readNode ix) k"
      using own that unfolding T by (auto simp: owned_def)
    ultimately show ?thesis
      using i(3) stored_keeps by blast
  qed
  have "node_of ?T' = node_of T"
    unfolding T by (rule node_of_replace [OF len i(5)])
  then have "stored (readNode ix') ?T'"
    using rd kids i(4) by (auto simp: owned_def simp del: node_of.simps)
  moreover have "distinct (pages ?T')"
  proof -
    have "set (pages c') \<inter> ?others = {}"
      using i(9) others by blast
    then show ?thesis
      using distinct_replace [OF dT, of "pages c'"] i(4) by (auto simp: owned_def)
  qed
  moreover have "set (pages ?T') \<inter> set fs' = {}"
  proof -
    have "?others \<inter> set fs' = {}"
      using others i(10) unfolding region_def by blast
    moreover have "set (pages c') \<inter> set fs' = {}"
      using i(4) by (simp add: owned_def)
    moreover have "set (pages ?T') = set (pages c') \<union> ?others"
      by auto
    ultimately show ?thesis
      by blast
  qed
  ultimately have own': "owned ix' fs' ?T'"
    by (simp add: owned_def)
  have reg: "region ix fs c \<subseteq> region ix fs T"
    using pT by (auto simp: region_def)
  have "inorder ?T' = insort x (inorder T)"
    using insort_append_split [OF lo hi, of "inorder c"] i(8) len
    unfolding T by (simp add: interleave_split)
  moreover have "set (pages ?T') \<subseteq> region ix fs T"
    using i(9) reg pT by (auto simp: region_def)
  moreover have "bal (Suc h) ?T'" "fits (unat (ix_keySize ix)) (unat (ix_maxItem ix)) ?T'"
      "bcount T \<le> bcount ?T'" "filled (minFill ix) T \<longrightarrow> filled (minFill ix) ?T'"
    using bal fit i(6,7,12,13) unfolding T by auto
  moreover have "ix_fileSize ix' + (length fs + length (pages T)) * pageSize
      = ix_fileSize ix + (length fs' + length (pages ?T')) * pageSize"
    using i(15) unfolding T by (simp add: algebra_simps)
  ultimately show ?thesis
    using i(1,2,10,11,14,16) own' keeps_mono [OF i(3) reg] unfolding T by (simp add: inserted_def)
qed

text \<open>A split is invisible to the in-order view: it composes with an insertion below.\<close>

lemma split_then_insert:
  assumes wf: "wf_store ix fs" and own: "owned ix fs T" and T: "T = BNode off (k1 @ c # k2) (s1 @ s2)"
    and len: "length k1 = length s1" "length k2 = length s2" and cb: "bal h c" "0 < bcount c"
    and sp: "split_result ix fs off c ix1 fs1 l med r"
    and T1: "T1 = BNode off (k1 @ l # r # k2) (s1 @ med # s2)"
    and ins: "inserted ix1 fs1 n (Suc h) T1 x ix2 fs2 T2"
    and fill: "minFill ix \<le> bcount c div 2" "minFill ix \<le> bcount c - bcount c div 2 - 1"
  shows "inserted ix fs (Suc n) (Suc h) T x ix2 fs2 T2"
proof -
  have s: "split_tree (broot r) c = (l, med, r)" "ix_root ix1 = ix_root ix"
      "keeps {off, broot c, broot r} ix ix1" "set fs1 \<subseteq> set fs" "broot r \<in> set fs \<or> broot r = ix_fileSize ix"
      "ix_fileSize ix1 \<le> ix_fileSize ix + pageSize" "synced ix \<longrightarrow> synced ix1"
      "ix_fileSize ix1 + length fs * pageSize = ix_fileSize ix + Suc (length fs1) * pageSize"
      "fs1 = [] \<or> ix_fileSize ix1 = ix_fileSize ix"
    using sp by (auto simp: split_result_def)
  note pr = split_tree_props [OF s(1) cb]
  have sh: "ix_keySize ix1 = ix_keySize ix" "ix_maxItem ix1 = ix_maxItem ix" "ix_fileSize ix \<le> ix_fileSize ix1"
    using keeps_shape [OF s(3)] by simp_all
  have "inorder T1 = inorder T"
  proof -
    have "inorder T1 = fore (map inorder k1) s1 @ inorder l @ aft (med # s2) (inorder r # map inorder k2)"
      using interleave_split [of "map inorder k1" s1 "inorder l" "inorder r # map inorder k2" "med # s2"] len
      unfolding T1 by simp
    moreover have "inorder T = fore (map inorder k1) s1 @ inorder c @ aft s2 (map inorder k2)"
      using interleave_split [of "map inorder k1" s1 "inorder c" "map inorder k2" s2] len
      unfolding T by simp
    ultimately show ?thesis
      using pr(1) by simp
  qed
  moreover have reg: "region ix1 fs1 T1 \<subseteq> region ix fs T"
  proof -
    have "set (pages l) \<subseteq> insert (broot r) (set (pages c))" "set (pages r) \<subseteq> insert (broot r) (set (pages c))"
      using pr(8) by blast+
    then have "set (pages T1) \<subseteq> insert (broot r) (set (pages T))"
      unfolding T T1 by auto
    moreover have "broot r \<in> region ix fs T"
      using s(5) unfolding region_def by auto
    ultimately show ?thesis
      using s(4) sh(3) unfolding region_def by auto
  qed
  moreover have "keeps (region ix fs T) ix ix2"
  proof -
    have "keeps (region ix1 fs1 T1) ix1 ix2"
      using ins by (simp add: inserted_def)
    note tr = keeps_trans [OF s(3) this]
    have "{off, broot c, broot r} \<subseteq> region ix fs T"
      using s(5) broot_in_pages [of c] unfolding T region_def by auto
    then show ?thesis
      using reg by (intro keeps_mono [OF tr]) blast
  qed
  moreover have "filled (minFill ix) T \<longrightarrow> filled (minFill ix1) T1"
    using pr(6,7) pr(11) fill sh(2) unfolding T T1 by (auto simp: minFill_def)
  moreover have "broot T1 = broot T" "bcount T \<le> bcount T1" "minFill ix1 = minFill ix"
    unfolding T T1 using sh(2) by (simp_all add: minFill_def)
  moreover have "length (pages T1) = Suc (length (pages T))"
    using pr(12) unfolding T T1 by simp
  ultimately show ?thesis
    using ins s(2,4,6,7,8,9) sh(1,2) by (auto simp: inserted_def algebra_simps)
qed

text \<open>The parent of a split owns its pages again.\<close>

lemma split_owned:
  assumes T: "T = BNode off (k1 @ c # k2) (s1 @ s2)" and lay: "distinct (pages T)" "set (pages T) \<inter> set fs = {}"
      "\<forall>p \<in> set (pages T). p < ix_fileSize ix"
    and kids: "\<forall>k \<in> set k1 \<union> set k2. stored (readNode ix) k"
    and cb: "bal h c" "0 < bcount c"
    and sp: "split_result ix fs off c ix1 fs1 l med r"
    and T1: "T1 = BNode off (k1 @ l # r # k2) (s1 @ med # s2)"
    and rd: "readNode ix1 off = Inr (node_of T1)"
  shows "owned ix1 fs1 T1"
proof -
  let ?others = "insert off (\<Union>k \<in> set k1 \<union> set k2. set (pages k))"
  have s: "split_tree (broot r) c = (l, med, r)" "keeps {off, broot c, broot r} ix ix1" "set fs1 \<subseteq> set fs"
      "broot r \<in> set fs \<or> broot r = ix_fileSize ix" "owned ix1 fs1 l" "owned ix1 fs1 r"
    using sp by (auto simp: split_result_def)
  note pr = split_tree_props [OF s(1) cb]
  have pT: "set (pages T) = set (pages c) \<union> ?others"
    unfolding T by auto
  have "broot r \<notin> set (pages T)"
    using s(4) lay(2,3) by auto
  then have new: "broot r \<notin> set (pages c)" "broot r \<notin> ?others"
    using pT by auto
  have dT: "distinct (off # concat (map pages k1) @ pages c @ concat (map pages k2))"
    using lay(1) unfolding T by simp
  have lr: "set (pages l @ pages r) = insert (broot r) (set (pages c))"
    using pr(8) by simp
  have co: "set (pages c) \<inter> ?others = {}"
    using dT by auto
  then have disj: "set (pages l @ pages r) \<inter> ?others = {}"
    unfolding lr using new(2) by (subst Int_insert_left_if0)
  have "distinct (pages c)"
    using dT by simp
  then have "distinct (pages l @ pages r)"
    using pr(9) new(1) by blast
  moreover have "set (pages l @ pages r) \<inter> (set (concat (map pages k1)) \<union> set (concat (map pages k2)) \<union> {off}) = {}"
  proof -
    have "set (concat (map pages k1)) \<union> set (concat (map pages k2)) \<union> {off} = ?others"
      by auto
    then show ?thesis
      using disj by (simp only:)
  qed
  ultimately have "distinct (off # concat (map pages k1) @ (pages l @ pages r) @ concat (map pages k2))"
    by (rule distinct_replace [OF dT])
  then have "distinct (pages T1)"
    unfolding T1 by simp
  moreover have "stored (readNode ix1) k" if k: "k \<in> set k1 \<union> set k2" for k
  proof -
    have "off \<notin> set (pages k)"
      using dT k by auto
    moreover have "broot c \<notin> set (pages k)"
      using co broot_in_pages [of c] k by blast
    moreover have "broot r \<notin> set (pages k)"
      using new(2) k by blast
    ultimately have "set (pages k) \<inter> {off, broot c, broot r} = {}"
      by blast
    then show ?thesis
      using s(2) k kids stored_keeps by blast
  qed
  then have "stored (readNode ix1) T1"
    using rd s(5,6) unfolding T1 by (auto simp: owned_def simp del: node_of.simps)
  moreover have "set (pages T1) \<inter> set fs1 = {}"
  proof -
    have lr1: "set (pages l) \<inter> set fs1 = {}" "set (pages r) \<inter> set fs1 = {}"
      using s(5,6) by (auto simp: owned_def)
    have "?others \<subseteq> set (pages T)"
      unfolding pT by (rule Un_upper2)
    then have "?others \<inter> set fs1 = {}"
      using s(3) lay(2) by (meson disjoint_iff subset_iff)
    moreover have "set (pages T1) = set (pages l) \<union> set (pages r) \<union> ?others"
      unfolding T1 by auto
    ultimately show ?thesis
      by (simp only: lr1 Int_Un_distrib2 Un_empty_left)
  qed
  ultimately show ?thesis
    by (simp add: owned_def)
qed

lemma inserted_mono: "inserted ix fs n h t x ix' fs' t' \<Longrightarrow> n \<le> m \<Longrightarrow> inserted ix fs m h t x ix' fs' t'"
  using mult_le_mono1 [of n m pageSize] unfolding inserted_def by (metis add_le_cancel_left le_trans)

lemma insort_takeWhile:
  fixes x :: "'a::linorder"
  shows "insort x xs = takeWhile (\<lambda>e. e < x) xs @ x # dropWhile (\<lambda>e. e < x) xs"
  by (induction xs) auto

text \<open>The leaf case.\<close>

lemma insert_leaf:
  assumes wf: "wf_store ix fs" and own: "owned ix fs (BLeaf off es)"
    and fit: "fits (unat (ix_keySize ix)) (unat (ix_maxItem ix)) (BLeaf off es)"
    and srt: "sorted es" and room: "length es < unat (ix_maxItem ix)"
    and key: "length key = unat (ix_keySize ix)" and lim: "ix_fileSize ix \<le> 2 ^ 32"
  shows "\<exists>ix' fs' t'. insertNonFull (Suc fuel) (node_of (BLeaf off es)) key recno ix = (ix', Inr ())
    \<and> inserted ix fs 0 0 (BLeaf off es) (Entry key recno) ix' fs' t'"
proof -
  let ?x = "Entry key recno" and ?i = "length (takeWhile (\<lambda>e. e < Entry key recno) es)"
  let ?t = "BLeaf off (insort ?x es)"
  have i: "findInNode (node_of (BLeaf off es)) key recno = ?i"
    using findInNode_takeWhile [of "node_of (BLeaf off es)" key recno] srt by simp
  have eq: "insort ?x es = take ?i es @ ?x # drop ?i es"
    by (simp add: insort_takeWhile takeWhile_eq_take [symmetric] dropWhile_eq_drop)
  have node: "node_of ?t = (node_of (BLeaf off es))\<lparr>nd_items := take ?i (map leaf_item es)
      @ \<lparr>it_child = 0, it_recno = recno, it_key = key\<rparr> # drop ?i (map leaf_item es)\<rparr>"
    unfolding eq by (simp add: take_map drop_map leaf_item_def)
  have fit': "fits (unat (ix_keySize ix)) (unat (ix_maxItem ix)) ?t"
    using fit room key by (auto simp: set_insort_key)
  have "writable fs ix (node_of ?t)"
    using owned_page [OF wf own, of off] fit' lim by (intro writable_tree [OF wf]) auto
  then obtain ix' where w: "writeNode (node_of ?t) ix = (ix', Inr ())" "wf_store ix' fs"
      "ix_root ix' = ix_root ix" "ix_fileSize ix' = ix_fileSize ix" "keeps {off} ix ix'"
      "readNode ix' off = Inr (node_of ?t)"
    using writeNode_store [OF wf] by fastforce
  have "owned ix' fs ?t"
    using own w(6) by (auto simp: owned_def)
  moreover have "synced ix \<longrightarrow> synced ix'"
    using w(2,4) keeps_shape(9) [OF w(5)] by (simp add: synced_def wf_store_def)
  ultimately have "inserted ix fs 0 0 (BLeaf off es) ?x ix' fs ?t"
    using w(2-4) fit' keeps_mono [OF w(5), of "region ix fs (BLeaf off es)"]
    by (auto simp: inserted_def region_def)
  moreover have "insertNonFull (Suc fuel) (node_of (BLeaf off es)) key recno ix = (ix', Inr ())"
    using w(1) i unfolding node by (simp add: Let_def)
  ultimately show ?thesis
    by blast
qed

lemma compare_greater [simp]: "0 < compareEntries k r k' r' \<longleftrightarrow> Entry k' r' < Entry k r"
  using compare_le [of k r k' r'] by (metis not_le)

text \<open>The child to insert into after a split: the half on the entry's side of the median.\<close>

lemma insert_in_half:
  assumes wf: "wf_store ix fs" and T1: "T1 = BNode off (k1 @ l # r # k2) (s1 @ med # s2)"
    and len: "length k1 = length s1" "length k2 = length s2"
    and own: "owned ix fs T1" and bal: "bal (Suc h) T1"
    and fit: "fits (unat (ix_keySize ix)) (unat (ix_maxItem ix)) T1"
    and lo: "\<forall>e \<in> set (fore (map inorder k1) s1). e < x"
    and hi: "\<forall>e \<in> set (aft s2 (map inorder k2)). x \<le> e"
    and srt: "sorted (inorder l @ med # inorder r)"
    and b: "b = (if med < x then r else l)"
    and ins: "inserted ix fs n h b x ix' fs' b'"
  shows "\<exists>T2. inserted ix fs n (Suc h) T1 x ix' fs' T2"
proof (cases "med < x")
  case True
  have "length (k1 @ [l]) = length (s1 @ [med])"
    using len(1) by simp
  moreover have "\<forall>e \<in> set (fore (map inorder (k1 @ [l])) (s1 @ [med])). e < x"
    using lo srt True len(1) by (auto simp: fore_append sorted_append)
  ultimately have "inserted ix fs n (Suc h) T1 x ix' fs' (BNode off ((k1 @ [l]) @ b' # k2) ((s1 @ [med]) @ s2))"
    using ins b True hi own bal fit len(2) unfolding T1
    by (intro insert_in_child [OF wf, where c = r]) auto
  then show ?thesis ..
next
  case False
  have "\<forall>e \<in> set (aft (med # s2) (map inorder (r # k2))). x \<le> e"
    using hi srt False by (auto simp: sorted_append not_less)
  then have "inserted ix fs n (Suc h) T1 x ix' fs' (BNode off (k1 @ b' # r # k2) (s1 @ med # s2))"
    using ins b False lo own bal fit len unfolding T1
    by (intro insert_in_child [OF wf, where c = l]) auto
  then show ?thesis ..
qed

lemma insertNonFull_store:
  assumes "wf_store ix fs" "owned ix fs t" "bal h t"
    and "fits (unat (ix_keySize ix)) (unat (ix_maxItem ix)) t" "sorted (inorder t)"
    and "bcount t < unat (ix_maxItem ix)" "h < fuel" "length key = unat (ix_keySize ix)"
    and "ix_fileSize ix + h * pageSize \<le> 2 ^ 32"
  shows "\<exists>ix' fs' t'. insertNonFull fuel (node_of t) key recno ix = (ix', Inr ())
    \<and> inserted ix fs h h t (Entry key recno) ix' fs' t'"
  using assms
proof (induction h arbitrary: fuel ix fs t)
  case 0
  then obtain off es f where t: "t = BLeaf off es" "fuel = Suc f"
    by (cases t; cases fuel) auto
  show ?case
    unfolding t using 0 t by (intro insert_leaf) auto
next
  case (Suc h)
  let ?x = "Entry key recno" and ?K = "unat (ix_keySize ix)" and ?M = "unat (ix_maxItem ix)"
  note wf = Suc.prems(1) and own = Suc.prems(2) and bal = Suc.prems(3) and fit = Suc.prems(4)
  obtain off ks ss f where t0: "t = BNode off ks ss" and f: "fuel = Suc f" "h < f"
    using Suc.prems(3,7) by (cases t; cases fuel) auto
  obtain k1 c k2 s1 s2 where sp: "ks = k1 @ c # k2" "ss = s1 @ s2" and len: "length k1 = length s1"
      "length k2 = length s2" and s1: "takeWhile (\<lambda>e. e < ?x) ss = s1" and "dropWhile (\<lambda>e. e < ?x) ss = s2"
      and "inorder (BNode off ks ss) = fore (map inorder k1) s1 @ inorder c @ aft s2 (map inorder k2)"
      and lo: "\<forall>e \<in> set (fore (map inorder k1) s1). e < ?x"
      and hi': "\<forall>e \<in> set (aft s2 (map inorder k2)). \<not> e < ?x" and sc: "sorted (inorder c)"
    by (rule descend_split [OF bal [unfolded t0] Suc.prems(5) [unfolded t0] downward_less])
  have t: "t = BNode off (k1 @ c # k2) (s1 @ s2)"
    by (simp only: t0 sp(1) sp(2) [symmetric])
  have hi: "\<forall>e \<in> set (aft s2 (map inorder k2)). ?x \<le> e"
    using hi' by (simp add: not_less)
  have "sorted (node_entries (node_of t))"
    using sorted_seps [OF bal Suc.prems(5)] by (simp add: node_of_entries [OF bal])
  then have i: "findInNode (node_of t) key recno = length s1"
    unfolding findInNode_takeWhile [OF \<open>sorted (node_entries (node_of t))\<close>] node_of_entries [OF bal]
    using s1 t0 by simp
  have leaf: "\<not> nd_leaf (node_of t)"
    using node_of_leaf [OF bal] by simp
  have child: "childAt (node_of t) (length s1) = broot c"
    using childAt_split [OF bal [unfolded t] len(1)] unfolding t .
  have cb: "bal h c" and cf: "fits ?K ?M c" and co: "owned ix fs c"
    using bal fit owned_child [OF own [unfolded t], of c] unfolding t by auto
  have rc: "readNode ix (broot c) = Inr (node_of c)"
    using co stored_root by (simp add: owned_def)
  have cM: "bcount c \<le> ?M"
    using cf by (cases c) auto
  have lenc: "length (nd_items (node_of c)) = bcount c"
    by (rule node_of_length [OF cb])
  have M: "0 < ?M"
    using Suc.prems(6) by simp
  show ?case
  proof (cases "bcount c = ?M")
    case False
    have "ix_fileSize ix + h * pageSize \<le> 2 ^ 32"
      using Suc.prems(9) by simp
    then obtain ix' fs' c' where r: "insertNonFull f (node_of c) key recno ix = (ix', Inr ())"
        "inserted ix fs h h c ?x ix' fs' c'"
      using Suc.IH [OF wf co cb cf sc _ f(2) Suc.prems(8)] False cM by auto
    have "insertNonFull fuel (node_of t) key recno ix = (ix', Inr ())"
      using f i leaf child rc lenc False r(1) by (simp add: Let_def steps)
    moreover have "inserted ix fs (Suc h) (Suc h) t ?x ix' fs' (BNode off (k1 @ c' # k2) (s1 @ s2))"
      by (rule inserted_mono [OF insert_in_child [OF wf t len own bal fit lo hi r(2)]]) simp
    ultimately show ?thesis
      by blast
  next
    case True
    have lay: "0 < p \<and> p + pageSize \<le> ix_fileSize ix" if "p \<in> set (pages t)" for p
      using owned_page [OF wf own that] by simp
    have page_below: "\<forall>p \<in> set (pages t). p < ix_fileSize ix"
      using lay by (force simp: pageSize_def)
    have poff: "pageSize dvd off" "off \<notin> set fs" "off \<notin> set (pages c)"
      using owned_page [OF wf own, of off] own unfolding t by (auto simp: owned_def)
    have lim: "ix_fileSize ix + pageSize \<le> 2 ^ 32"
      using Suc.prems(9) by simp
    have c0: "0 < bcount c"
      using True M by simp
    obtain ix1 fs1 l med r where sc': "splitChild (node_of t) (length s1) (node_of c) ix
          = (ix1, Inr (node_of (BNode off (k1 @ l # r # k2) (s1 @ med # s2)), node_of l))"
        and sr: "split_result ix fs off c ix1 fs1 l med r"
        and rd: "readNode ix1 off = Inr (node_of (BNode off (k1 @ l # r # k2) (s1 @ med # s2)))"
      using splitChild_store [OF wf co c0 t refl len bal fit Suc.prems(6) lay poff lim] by blast
    define T1 where "T1 = BNode off (k1 @ l # r # k2) (s1 @ med # s2)"
    have s: "split_tree (broot r) c = (l, med, r)" "wf_store ix1 fs1" "keeps {off, broot c, broot r} ix ix1"
        "owned ix1 fs1 l" "owned ix1 fs1 r" "ix_fileSize ix1 \<le> ix_fileSize ix + pageSize"
      using sr by (auto simp: split_result_def)
    note pr = split_tree_props [OF s(1) cb c0]
    have sh: "ix_keySize ix1 = ix_keySize ix" "ix_maxItem ix1 = ix_maxItem ix"
      using keeps_shape [OF s(3)] by simp_all
    have own1: "owned ix1 fs1 T1"
      using split_owned [OF t _ _ _ _ cb c0 sr T1_def] rd own page_below unfolding T1_def t
      by (simp add: owned_def del: node_of.simps pages.simps)
    have bal1: "bal (Suc h) T1" and fit1: "fits ?K ?M T1"
      using bal fit pr(2,3) pr(10) [OF cf] Suc.prems(6) unfolding t T1_def by auto
    have srt: "sorted (inorder l @ med # inorder r)"
      using sc pr(1) by simp
    define b where "b = (if med < ?x then r else l)"
    have b: "owned ix1 fs1 b" "bal h b" "fits ?K ?M b" "sorted (inorder b)" "bcount b < ?M"
      using s(4,5) pr(2,3,6,7) pr(10) [OF cf] srt True M unfolding b_def by (auto simp: sorted_append)
    have "ix_fileSize ix1 + h * pageSize \<le> 2 ^ 32"
      using s(6) Suc.prems(9) by simp
    then obtain ix2 fs2 b' where rb: "insertNonFull f (node_of b) key recno ix1 = (ix2, Inr ())"
        "inserted ix1 fs1 h h b ?x ix2 fs2 b'"
      using Suc.IH [OF s(2) b(1,2), of f] b f(2) Suc.prems(8) sh by auto
    then obtain T2 where T2: "inserted ix1 fs1 h (Suc h) T1 ?x ix2 fs2 T2"
      using insert_in_half [OF s(2) T1_def len own1 bal1 fit1 [folded sh] lo hi srt b_def rb(2)] by blast
    have fin: "inserted ix fs (Suc h) (Suc h) t ?x ix2 fs2 T2"
      using split_then_insert [OF wf own t len cb c0 sr T1_def T2] True by (simp add: minFill_def)
    have rdb: "readNode ix1 (broot b) = Inr (node_of b)"
      using b(1) stored_root by (simp add: owned_def)
    have item: "Entry (it_key (nd_items (node_of T1) ! length s1)) (it_recno (nd_items (node_of T1) ! length s1)) = med"
      using node_of_item [OF bal1, of "length s1"] unfolding T1_def by (simp add: nth_append del: node_of.simps)
    have ch: "childAt (node_of T1) (if med < ?x then length s1 + 1 else length s1) = broot b"
      using childAt_node [OF bal1 [unfolded T1_def], of "length s1"]
        childAt_node [OF bal1 [unfolded T1_def], of "Suc (length s1)"] len
      unfolding b_def T1_def by (simp add: nth_append del: node_of.simps)
    have "insertNonFull fuel (node_of t) key recno ix = (ix2, Inr ())"
      using f i leaf child rc lenc True sc' [folded T1_def] item ch rdb rb(1)
      by (simp add: Let_def steps)
    then show ?thesis
      using fin by blast
  qed
qed

section \<open>Insert\<close>

lemma growRoot_store:
  assumes wf: "wf_store ix fs" and c: "owned ix fs c" "bal h c" "0 < bcount c"
    and fit: "fits (unat (ix_keySize ix)) (unat (ix_maxItem ix)) c"
    and fill: "filled (minFill ix) c" "minFill ix \<le> bcount c div 2" "minFill ix \<le> bcount c - bcount c div 2 - 1"
    and M: "2 \<le> unat (ix_maxItem ix)" and lim: "ix_fileSize ix + 2 * pageSize \<le> 2 ^ 32"
  shows "\<exists>ix' fs' t'. growRoot (node_of c) ix = (ix', Inr (node_of t')) \<and> wf_store ix' fs' \<and> owned ix' fs' t'
    \<and> ix_root ix' = broot t' \<and> bal (Suc h) t' \<and> fits (unat (ix_keySize ix)) (unat (ix_maxItem ix)) t'
    \<and> filled (minFill ix) t' \<and> inorder t' = inorder c \<and> bcount t' = 1
    \<and> ix_fileSize ix' \<le> ix_fileSize ix + 2 * pageSize \<and> same_shape ix ix' \<and> (synced ix \<longrightarrow> synced ix')
    \<and> ix_fileSize ix' + (length fs + length (pages c)) * pageSize
      = ix_fileSize ix + (length fs' + length (pages t')) * pageSize
    \<and> (fs' = [] \<or> ix_fileSize ix' = ix_fileSize ix)"
proof -
  obtain ix1 poff fs1 where a: "allocPage ix = (ix1, Inr poff)" "wf_store ix1 fs1" "keeps {} ix ix1"
      "ix_rw ix1 = ix_rw ix" "0 < poff" "pageSize dvd poff" "poff \<notin> set fs1"
      "set fs1 \<subseteq> set fs" "poff \<in> set fs \<or> poff = ix_fileSize ix"
      "poff + pageSize \<le> ix_fileSize ix1" "ix_fileSize ix1 \<le> ix_fileSize ix + pageSize"
      "poff \<in> set fs \<longrightarrow> ix_fileSize ix1 = ix_fileSize ix"
      "ix_fileSize ix1 + length fs * pageSize = ix_fileSize ix + Suc (length fs1) * pageSize"
      "fs1 = [] \<or> ix_fileSize ix1 = ix_fileSize ix"
    using allocPage_store [OF wf] by blast
  have sh: "ix_keySize ix1 = ix_keySize ix" "ix_maxItem ix1 = ix_maxItem ix" "ix_fileSize ix \<le> ix_fileSize ix1"
    using keeps_shape [OF a(3)] by simp_all
  have c1: "owned ix1 fs1 c"
    using owned_keeps [OF c(1) a(3) _ a(8)] by simp
  have new: "poff \<notin> set (pages c)"
    using a(9) owned_page(3,4) [OF wf c(1), of poff] by (auto simp: pageSize_def)
  let ?T = "BNode poff ([] @ c # []) ([] @ [])"
  have lay: "0 < p \<and> p + pageSize \<le> ix_fileSize ix1" if "p \<in> set (pages ?T)" for p
    using that a(5,10) owned_page [OF a(2) c1, of p] by auto
  have len: "length ([] :: btree list) = length ([] :: entry list)"
    by simp
  have fitT: "fits (unat (ix_keySize ix1)) (unat (ix_maxItem ix1)) ?T" and balT: "bal (Suc h) ?T"
    using fit sh c(2) by simp_all
  obtain ix2 fs2 l med r where sp: "splitChild (node_of ?T) 0 (node_of c) ix1
        = (ix2, Inr (node_of (BNode poff [l, r] [med]), node_of l))"
      and sr: "split_result ix1 fs1 poff c ix2 fs2 l med r"
      and rd: "readNode ix2 poff = Inr (node_of (BNode poff [l, r] [med]))"
    using splitChild_store [OF a(2) c1 c(3) refl refl len len balT fitT _ lay a(6,7) new] M lim a(11) sh by auto
  let ?t = "BNode poff [l, r] [med]" and ?ix = "ix2\<lparr>ix_root := poff\<rparr>"
  have s: "split_tree (broot r) c = (l, med, r)" "wf_store ix2 fs2" "keeps {poff, broot c, broot r} ix1 ix2"
      "ix_fileSize ix2 \<le> ix_fileSize ix1 + pageSize" "synced ix1 \<longrightarrow> synced ix2" "owned ix2 fs2 r"
      "ix_fileSize ix2 + length fs1 * pageSize = ix_fileSize ix1 + Suc (length fs2) * pageSize"
      "fs2 = [] \<or> ix_fileSize ix2 = ix_fileSize ix1" "set fs2 \<subseteq> set fs1"
    using sr by (auto simp: split_result_def)
  note pr = split_tree_props [OF s(1) c(2,3)]
  have "\<forall>p \<in> set (pages ?T). p < ix_fileSize ix1"
    using lay by (force simp: pageSize_def)
  then have "owned ix2 fs2 ?t"
    using split_owned [where ?k1.0 = "[]" and ?k2.0 = "[]" and ?s1.0 = "[]" and ?s2.0 = "[]",
        OF refl _ _ _ _ c(2,3) sr refl] c1 new a(7) rd by (simp add: owned_def)
  moreover have k0: "keeps {} ix2 ?ix"
    by (simp add: keeps_def same_shape_def)
  ultimately have own: "owned ?ix fs2 ?t"
    using owned_keeps [OF _ k0] by simp
  have syn: "synced ix2" if "synced ix"
  proof -
    have "poff + pageSize \<le> length (ix_rw ix2)"
      using rd stored_pages [of ix2 ?t poff] \<open>owned ix2 fs2 ?t\<close> by (simp add: owned_def)
    moreover have "length (ix_rw ix1) \<le> length (ix_rw ix2)"
      using keeps_shape [OF s(3)] by simp
    moreover have "broot r + pageSize \<le> length (ix_rw ix2)"
      using stored_pages [of ix2 r "broot r"] s(6) by (auto simp: owned_def)
    moreover have "length (ix_rw ix2) \<le> ix_fileSize ix2"
      using s(2) by (simp add: wf_store_def)
    ultimately show ?thesis
      using that a(4,9,11,12) s(4) sr unfolding split_result_def synced_def by auto
  qed
  have "growRoot (node_of c) ix = (?ix, Inr (node_of ?t))"
    unfolding growRoot_def using a(1) sp c(2) by (simp add: steps)
  moreover have "wf_store ?ix fs2" "synced ?ix = synced ix2"
    using s(2) by (simp_all add: wf_store_def synced_def)
  moreover have "fits (unat (ix_keySize ix)) (unat (ix_maxItem ix)) ?t" "filled (minFill ix) ?t"
    using pr(6,7) pr(10) [OF fit] pr(11) [OF fill(1)] fill M by simp_all
  moreover have "same_shape ix ?ix"
    using a(3) s(3) by (simp add: keeps_def same_shape_def)
  moreover have "inorder ?t = inorder c"
    using pr(1) by (simp add: interleave_def)
  moreover have "ix_fileSize ?ix + (length fs + length (pages c)) * pageSize
      = ix_fileSize ix + (length fs2 + length (pages ?t)) * pageSize"
    using a(13) s(7) pr(12) arg_cong [OF pr(12), of "\<lambda>n. n * pageSize"] by (simp add: algebra_simps)
  moreover have "fs2 = [] \<or> ix_fileSize ?ix = ix_fileSize ix"
    using a(14) s(8,9) by auto
  ultimately show ?thesis
    using own syn pr(2,3) s(4) a(11) by (intro exI [of _ ?ix] exI [of _ fs2] exI [of _ ?t]) simp
qed

text \<open>Whatever \<open>Insert\<close> does to the root first, it then inserts into a root that is not full.\<close>

text \<open>Every page of the file is the header, a free page or a page of the tree: none is lost.\<close>

definition no_leak :: "ntx_index \<Rightarrow> nat list \<Rightarrow> btree \<Rightarrow> bool" where
  "no_leak ix fs t \<longleftrightarrow> ix_fileSize ix = (1 + length fs + length (pages t)) * pageSize"

definition root_ready :: "ntx_index \<Rightarrow> nat list \<Rightarrow> nat \<Rightarrow> btree \<Rightarrow> ntx_index \<Rightarrow> nat list \<Rightarrow> nat \<Rightarrow> btree \<Rightarrow> bool" where
  "root_ready ix fs h t ix' fs' h' t' \<longleftrightarrow> wf_store ix' fs' \<and> synced ix' \<and> same_shape ix ix' \<and> ix_root ix' = broot t'
     \<and> owned ix' fs' t' \<and> bal h' t' \<and> fits (unat (ix_keySize ix)) (unat (ix_maxItem ix)) t'
     \<and> filled (minFill ix) t' \<and> inorder t' = inorder t \<and> bcount t' < unat (ix_maxItem ix)
     \<and> (rooted h t \<longrightarrow> rooted h' t') \<and> (no_leak ix fs t \<longrightarrow> no_leak ix' fs' t')
     \<and> (fs' = [] \<or> ix_fileSize ix' = ix_fileSize ix)"

lemma insert_ready:
  assumes r: "root_ready ix fs h t ix1 fs1 h1 t1" and M: "2 \<le> unat (ix_maxItem ix)"
    and half: "ix_halfPage ix = ix_maxItem ix div 2"
    and key: "length key = unat (ix_keySize ix)" and srt: "sorted (inorder t)"
    and lim: "ix_fileSize ix1 + h1 * pageSize \<le> 2 ^ 32"
  shows "\<exists>ix' ix2 fs' t'. insertNonFull (ntx_fuel ix1) (node_of t1) key recno ix1 = (ix2, Inr ())
    \<and> ntx_writeHeader ix2 = (ix', Inr ()) \<and> ntx_valid ix' fs' h1 t' \<and> header_current ix' \<and> same_shape ix ix'
    \<and> inorder t' = insort (Entry key recno) (inorder t) \<and> ix_fileSize ix' \<le> ix_fileSize ix1 + h1 * pageSize
    \<and> (rooted h t \<longrightarrow> rooted h1 t') \<and> (no_leak ix fs t \<longrightarrow> no_leak ix' fs' t')
    \<and> (fs' = [] \<or> ix_fileSize ix' = ix_fileSize ix)"
proof -
  have i: "wf_store ix1 fs1" "synced ix1" "ix_root ix1 = broot t1" "owned ix1 fs1 t1" "bal h1 t1"
      "fits (unat (ix_keySize ix)) (unat (ix_maxItem ix)) t1" "filled (minFill ix) t1" "inorder t1 = inorder t"
      "bcount t1 < unat (ix_maxItem ix)" "rooted h t \<longrightarrow> rooted h1 t1" "no_leak ix fs t \<longrightarrow> no_leak ix1 fs1 t1"
      "fs1 = [] \<or> ix_fileSize ix1 = ix_fileSize ix" and shape: "same_shape ix ix1"
    using r by (auto simp: root_ready_def)
  have sh: "ix_keySize ix1 = ix_keySize ix" "ix_maxItem ix1 = ix_maxItem ix" "minFill ix1 = minFill ix"
    using shape by (auto simp: same_shape_def minFill_def)
  have "tree_ok ix1 h1 t1"
    using i srt sh by (auto simp: tree_ok_def owned_def)
  then have "h1 < ntx_fuel ix1"
    by (rule fuel_enough [OF i(1)])
  then have "\<exists>ix2 fs2 t2. insertNonFull (ntx_fuel ix1) (node_of t1) key recno ix1 = (ix2, Inr ())
      \<and> inserted ix1 fs1 h1 h1 t1 (Entry key recno) ix2 fs2 t2"
    using i(6,8,9) srt sh key lim by (intro insertNonFull_store [OF i(1,4,5)]) simp_all
  then obtain ix2 fs2 t2 where w: "insertNonFull (ntx_fuel ix1) (node_of t1) key recno ix1 = (ix2, Inr ())"
      "inserted ix1 fs1 h1 h1 t1 (Entry key recno) ix2 fs2 t2"
    by blast
  have j: "wf_store ix2 fs2" "ix_root ix2 = broot t2" "keeps (region ix1 fs1 t1) ix1 ix2" "owned ix2 fs2 t2"
      "bal h1 t2" "fits (unat (ix_keySize ix)) (unat (ix_maxItem ix)) t2" "filled (minFill ix) t2"
      "inorder t2 = insort (Entry key recno) (inorder t)" "bcount t1 \<le> bcount t2" "synced ix2"
      "ix_fileSize ix2 \<le> ix_fileSize ix1 + h1 * pageSize"
      "ix_fileSize ix2 + (length fs1 + length (pages t1)) * pageSize
       = ix_fileSize ix1 + (length fs2 + length (pages t2)) * pageSize"
      "fs2 = [] \<or> ix_fileSize ix2 = ix_fileSize ix1" "set fs2 \<subseteq> set fs1"
    using w(2) i sh by (auto simp: inserted_def)
  obtain ix' where v: "ntx_writeHeader ix2 = (ix', Inr ())" "wf_store ix' fs2" "keeps {0} ix2 ix'"
      "same_roots ix2 ix'" "header_current ix'"
    using writeHeader_store [OF j(1)] by blast
  have "0 \<notin> set (pages t2)"
    using owned_page(1) [OF j(1,4)] by blast
  then have own: "owned ix' fs2 t2"
    using owned_keeps [OF j(4) v(3)] by simp
  have same: "same_shape ix ix'"
    using shape j(3) v(3) by (auto simp: keeps_def same_shape_def)
  have sy: "synced ix'"
    using j(10) v(2,4) keeps_shape(9) [OF v(3)] by (simp add: synced_def wf_store_def same_roots_def)
  have "sorted (inorder t2)"
    using j(8) srt by (simp add: sorted_insort)
  then have "ntx_valid ix' fs2 h1 t2"
    using v(2,4) sy own j(2,5,6,7) same M half
    by (auto simp: ntx_valid_def tree_ok_def owned_def same_roots_def same_shape_def minFill_def)
  moreover have "rooted h t \<longrightarrow> rooted h1 t2"
    using i(10) j(9) by (auto simp: rooted_def)
  moreover have "no_leak ix fs t \<longrightarrow> no_leak ix' fs2 t2"
    using i(11) j(12) v(4) by (auto simp: no_leak_def same_roots_def algebra_simps)
  moreover have "fs2 = [] \<or> ix_fileSize ix' = ix_fileSize ix"
    using i(12) j(13,14) v(4) by (auto simp: same_roots_def)
  ultimately show ?thesis
    using w(1) v(1,4,5) same j(8,11) unfolding same_roots_def by metis
qed

lemma root_ready_same:
  assumes "ntx_valid ix fs h t" "bcount t \<noteq> unat (ix_maxItem ix)"
  shows "root_ready ix fs h t ix fs h t"
proof -
  have "bcount t \<le> unat (ix_maxItem ix)"
    using assms(1) by (cases t) (auto simp: ntx_valid_def tree_ok_def)
  then show ?thesis
    using assms by (auto simp: root_ready_def ntx_valid_def tree_ok_def owned_def same_shape_def)
qed

lemma root_ready_grow:
  assumes v: "ntx_valid ix fs h t" "bcount t = unat (ix_maxItem ix)"
    and lim: "ix_fileSize ix + 2 * pageSize \<le> 2 ^ 32"
  shows "\<exists>ix' fs' t'. growRoot (node_of t) ix = (ix', Inr (node_of t'))
    \<and> root_ready ix fs h t ix' fs' (Suc h) t' \<and> ix_fileSize ix' \<le> ix_fileSize ix + 2 * pageSize"
proof -
  have i: "wf_store ix fs" "synced ix" "2 \<le> unat (ix_maxItem ix)" "owned ix fs t" "bal h t"
      "fits (unat (ix_keySize ix)) (unat (ix_maxItem ix)) t" "filled (minFill ix) t"
    using v(1) by (auto simp: ntx_valid_def tree_ok_def owned_def)
  have n: "0 < bcount t" "minFill ix \<le> bcount t div 2" "minFill ix \<le> bcount t - bcount t div 2 - 1"
    using v(2) i(3) by (simp_all add: minFill_def)
  show ?thesis
    using growRoot_store [OF i(1,4,5) n(1) i(6,7) n(2,3) i(3) lim] i(2,3)
    by (fastforce simp: root_ready_def rooted_def no_leak_def algebra_simps)
qed

definition inserted_index :: "ntx_index \<Rightarrow> nat list \<Rightarrow> nat \<Rightarrow> btree \<Rightarrow> entry \<Rightarrow> ntx_index \<Rightarrow> nat list \<Rightarrow> nat \<Rightarrow> btree \<Rightarrow> bool" where
  "inserted_index ix fs h t x ix' fs' h' t' \<longleftrightarrow> ntx_valid ix' fs' h' t' \<and> header_current ix' \<and> same_shape ix ix'
     \<and> inorder t' = insort x (inorder t) \<and> (rooted h t \<longrightarrow> rooted h' t')
     \<and> (no_leak ix fs t \<longrightarrow> no_leak ix' fs' t') \<and> (fs' = [] \<or> ix_fileSize ix' = ix_fileSize ix)"

lemma Insert_store:
  assumes v: "ntx_valid ix fs h t" and key: "normalizeKey ix key = Inr k"
    and lim: "ix_fileSize ix + (h + 3) * pageSize \<le> 2 ^ 32"
    and fresh: "ix_unique ix \<longrightarrow> (\<forall>e \<in> set (inorder t). ent_key e \<noteq> k)"
  shows "\<exists>ix' fs' h' t'. Insert key recno ix = (ix', Inr True)
    \<and> inserted_index ix fs h t (Entry k recno) ix' fs' h' t' \<and> h' \<le> Suc h \<and> ix_fileSize ix' \<le> 2 ^ 32"
proof -
  have i: "wf_store ix fs" "2 \<le> unat (ix_maxItem ix)" "ix_halfPage ix = ix_maxItem ix div 2"
      "ix_root ix = broot t" "tree_ok ix h t" "sorted (inorder t)" "stored (readNode ix) t" "bal h t"
    using v by (auto simp: ntx_valid_def tree_ok_def)
  have k: "length k = unat (ix_keySize ix)"
    by (rule normalizeKey_length [OF key])
  have cont: "ContainsKey ix k = Inr (\<exists>e \<in> set (inorder t). ent_key e = k)"
    using containsLoop_sound [OF fuel_enough [OF i(1,5)] i(8,6,7)] i(4)
    by (simp add: ContainsKey_def normalizeKey_full [OF k])
  have root: "readNode ix (ix_root ix) = Inr (node_of t)"
    using stored_root [OF i(7)] i(4) by simp
  have len: "length (nd_items (node_of t)) = bcount t"
    by (rule node_of_length [OF i(8)])
  obtain ix1 fs1 h1 t1 where r: "(if bcount t = unat (ix_maxItem ix) then growRoot (node_of t) ix
        else (ix, Inr (node_of t))) = (ix1, Inr (node_of t1))"
      "root_ready ix fs h t ix1 fs1 h1 t1" "ix_fileSize ix1 \<le> ix_fileSize ix + 2 * pageSize" "h1 \<le> Suc h"
  proof (cases "bcount t = unat (ix_maxItem ix)")
    case True
    then show ?thesis
      using that root_ready_grow [OF v] lim by (force simp: distrib_right)
  next
    case False
    then show ?thesis
      using that root_ready_same [OF v] by fastforce
  qed
  have "h1 * pageSize \<le> Suc h * pageSize"
    using r(4) by (rule mult_le_mono1)
  then have lim1: "ix_fileSize ix1 + h1 * pageSize \<le> 2 ^ 32"
    using r(3) lim by (simp add: distrib_right)
  then obtain ix' ix2 fs' t' where w: "insertNonFull (ntx_fuel ix1) (node_of t1) k recno ix1 = (ix2, Inr ())"
      "ntx_writeHeader ix2 = (ix', Inr ())" "inserted_index ix fs h t (Entry k recno) ix' fs' h1 t'"
      "ix_fileSize ix' \<le> ix_fileSize ix1 + h1 * pageSize"
    using insert_ready [OF r(2) i(2,3) k i(6)] unfolding inserted_index_def by blast
  have "(if ix_unique ix then ContainsKey ix k else Inr False) = Inr False"
    using cont fresh by auto
  then have "Insert key recno ix = (ix', Inr True)"
    unfolding Insert_def using key root len r(1) w(1,2)
    by (simp add: bindS_apply queryS_apply returnS_apply)
  moreover have "ix_fileSize ix' \<le> 2 ^ 32"
    using w(4) lim1 by simp
  ultimately show ?thesis
    using w(3) r(4) by blast
qed

end
