(* ===== verification/NtxSpec.thy ===== *)
theory NtxSpec
  imports NtxCursor NtxInsert
begin

text \<open>
  The contract of package \<open>ntx\<close>: an index is a sorted list of entries.  \<open>represents ix es\<close> is the
  abstraction relation, and every exported operation is shown to compute the corresponding
  list operation.  The well-formed index inside it (\<open>ntx_valid\<close>) is established by \<open>Create\<close>,
  kept by \<open>Insert\<close>, and found again by \<open>Open\<close>.
\<close>

definition represents :: "ntx_index \<Rightarrow> entry list \<Rightarrow> bool" where
  "represents ix es \<longleftrightarrow> (\<exists>fs h t. ntx_valid ix fs h t \<and> inorder t = es)"

definition first_of :: "entry list \<Rightarrow> entry option" where
  "first_of es = (case es of [] \<Rightarrow> None | e # _ \<Rightarrow> Some e)"

definition last_of :: "entry list \<Rightarrow> entry option" where
  "last_of es = (if es = [] then None else Some (last es))"

section \<open>Creating\<close>

lemma Create_sizes:
  assumes "op_KeySize opts \<noteq> 0" "op_KeySize opts \<le> MaxKeySize"
  shows "unat (computeMaxItem (op_KeySize opts + 8)) = 1022 div (unat (op_KeySize opts) + 10) - 1"
    and "2 \<le> unat (computeMaxItem (op_KeySize opts + 8))"
proof -
  have k: "1 \<le> op_KeySize opts" "op_KeySize opts \<le> 250"
    using assms by (auto simp: MaxKeySize_def word_le_nat_alt unat_eq_0 Suc_le_eq intro: unat_gt_0 [THEN iffD2])
  show eq: "unat (computeMaxItem (op_KeySize opts + 8)) = 1022 div (unat (op_KeySize opts) + 10) - 1"
    by (rule unat_computeMaxItem [OF k])
  have "unat (op_KeySize opts) + 10 \<le> 260"
    using k(2) by (simp add: word_le_nat_alt)
  then have "1022 div 260 \<le> 1022 div (unat (op_KeySize opts) + 10)"
    by (intro div_le_mono2) simp_all
  then show "2 \<le> unat (computeMaxItem (op_KeySize opts + 8))"
    unfolding eq by simp
qed

lemma Create_store:
  assumes k: "op_KeySize opts \<noteq> 0" "op_KeySize opts \<le> MaxKeySize"
    and e: "length (op_KeyExpr opts) < maxKeyExpr" and rw: "length rw \<le> 2 * pageSize"
  shows "\<exists>ix. ntx_Create rw opts = Inr ix \<and> ntx_valid ix [] 0 (BLeaf pageSize []) \<and> header_current ix
    \<and> ix_keySize ix = op_KeySize opts \<and> ix_unique ix = op_Unique opts \<and> ix_keyExpr ix = op_KeyExpr opts
    \<and> ix_maxItem ix = computeMaxItem (op_KeySize opts + 8) \<and> ix_fileSize ix = 2 * pageSize"
proof -
  note m = Create_sizes [OF k]
  let ?M = "computeMaxItem (op_KeySize opts + 8)" and ?n = "\<lparr>nd_offset = pageSize, nd_items = [], nd_right = 0, nd_leaf = True\<rparr>"
  let ?ix = "\<lparr>ix_rw = rw, ix_keyExpr = op_KeyExpr opts, ix_keySize = op_KeySize opts,
              ix_decimals = op_Decimals opts, ix_unique = op_Unique opts,
              ix_itemSize = op_KeySize opts + 8, ix_maxItem = ?M, ix_halfPage = ?M div 2,
              ix_root = pageSize, ix_nextFree = 0, ix_fileSize = 2 * pageSize\<rparr>"
  have "?M \<noteq> 0"
    using m(2) by auto
  then have wf: "wf_store ?ix []"
    using k rw by (simp add: wf_store_def geom_ok_def) (simp add: pageSize_def)
  obtain ix1 where h: "ntx_writeHeader ?ix = (ix1, Inr ())" "wf_store ix1 []" "keeps {0} ?ix ix1"
      "same_roots ?ix ix1" "header_current ix1"
    using writeHeader_store [OF wf] by blast
  have sh: "ix_keySize ix1 = op_KeySize opts" "ix_maxItem ix1 = ?M" "ix_halfPage ix1 = ?M div 2"
      "ix_root ix1 = pageSize" "ix_fileSize ix1 = 2 * pageSize" "ix_unique ix1 = op_Unique opts"
      "ix_keyExpr ix1 = op_KeyExpr opts"
    using keeps_shape [OF h(3)] h(4) by (simp_all add: same_roots_def)
  have "writable [] ix1 ?n"
    using sh by (simp add: writable_def node_ok_def) (simp add: pageSize_def)
  then obtain ix2 where w: "writeNode ?n ix1 = (ix2, Inr ())" "wf_store ix2 []" "ix_root ix2 = ix_root ix1"
      "ix_nextFree ix2 = ix_nextFree ix1" "ix_fileSize ix2 = ix_fileSize ix1"
      "keeps {pageSize} ix1 ix2" "readNode ix2 pageSize = Inr ?n"
    using writeNode_store [OF h(2)] by force
  have hd: "header_current ix2"
  proof -
    have "readAt (ix_rw ix2) 0 pageSize = Inr (header_bytes ix1)"
      using h(5) w(6) by (simp add: header_current_def keeps_def pageSize_def)
    moreover have "header_bytes ix2 = header_bytes ix1"
      using keeps_shape [OF w(6)] w(3,4) by (simp add: header_bytes_def Let_def)
    ultimately show ?thesis
      by (simp add: header_current_def)
  qed
  have run: "ntx_Create rw opts = Inr ix2"
    using k k(2) [unfolded word_le_nat_alt] e m(2) h(1) w(1) sh
    by (simp add: ntx_Create_def Let_def not_less not_le bindS_apply word_less_nat_alt unat_of_nat)
  have "length (ix_rw ix2) = ix_fileSize ix2"
  proof -
    have "2 * pageSize \<le> length (ix_rw ix2)"
      using readNode_Inr(4) [OF w(7)] by (auto simp: readAt_Inr_iff pageSize_def)
    then show ?thesis
      using w(2,5) sh(5) by (simp add: wf_store_def)
  qed
  then have "ntx_valid ix2 [] 0 (BLeaf pageSize [])"
    using w(2,3,7) sh(3,4) m(2) keeps_shape [OF w(6)] sh(2)
    by (simp add: ntx_valid_def tree_ok_def synced_def)
  then show ?thesis
    using run hd keeps_shape [OF w(6)] sh w(5) by (intro exI [of _ ix2]) simp
qed

section \<open>Reopening\<close>

lemma reopen_store:
  assumes "ntx_valid ix fs h t" "header_current ix" "expr_ok ix" "ix_fileSize ix \<le> 2 ^ 32"
  shows "ntx_Open (ix_rw ix) = Inr ix"
proof -
  have i: "wf_store ix fs" "synced ix" "ix_root ix = broot t" "owned ix fs t"
    using assms(1) by (auto simp: ntx_valid_def tree_ok_def owned_def)
  have r: "0 < broot t" "pageSize dvd broot t" "broot t + pageSize \<le> ix_fileSize ix"
    using owned_page [OF i(1,4) broot_in_pages] by simp_all
  have nf: "ix_nextFree ix < 2 ^ 32"
    using i(1) by (cases fs) (auto simp: wf_store_def)
  have "\<not> length (ix_rw ix) < 2 * pageSize"
    using i(2) r dvd_imp_le [OF r(2,1)] by (simp add: synced_def)
  moreover have "geom_ok ix"
    using i(1) by (simp add: wf_store_def)
  moreover have "broot t < 2 ^ 32"
    using r(3) assms(4) by (simp add: pageSize_def)
  ultimately show ?thesis
    using assms(2,3) i(2,3) r nf open_header [of ix]
    by (simp add: ntx_Open_def Let_def synced_def)
qed

section \<open>Refinement of the queries\<close>

lemma valid_tree:
  assumes "ntx_valid ix fs h t"
  shows "h < ntx_fuel ix" "bal h t" "sorted (inorder t)" "stored (readNode ix) t" "ix_root ix = broot t"
    "filled (minFill ix) t"
  using assms fuel_enough by (auto simp: ntx_valid_def tree_ok_def)

lemma filled_mono: "filled m t \<Longrightarrow> n \<le> m \<Longrightarrow> filled n t"
  by (induction t) (auto intro: order_trans)

lemma minFill_pos: "3 \<le> unat (ix_maxItem ix) \<Longrightarrow> 1 \<le> minFill ix"
  by (simp add: minFill_def)

lemma query_results:
  assumes "ntx_valid ix fs h t"
  shows "normalizeKey ix key = Inr k \<Longrightarrow> ContainsKey ix key = Inr (\<exists>e \<in> set (inorder t). ent_key e = k)"
    and "normalizeKey ix key = Inr k \<Longrightarrow> FirstGE ix key = Inr (first_of (dropWhile (\<lambda>e. e < Entry k 0) (inorder t)))"
    and "normalizeKey ix key = Inr k
      \<Longrightarrow> Successor ix key recno = Inr (first_of (dropWhile (\<lambda>e. e \<le> Entry k recno) (inorder t)))"
    and "normalizeKey ix key = Inr k
      \<Longrightarrow> Predecessor ix key recno = Inr (last_of (takeWhile (\<lambda>e. e < Entry k recno) (inorder t)))"
    and "3 \<le> unat (ix_maxItem ix) \<Longrightarrow> Min ix = Inr (first_of (inorder t))"
    and "3 \<le> unat (ix_maxItem ix) \<Longrightarrow> Max ix = Inr (last_of (inorder t))"
proof -
  note v = valid_tree [OF assms]
  show "normalizeKey ix key = Inr k \<Longrightarrow> ContainsKey ix key = Inr (\<exists>e \<in> set (inorder t). ent_key e = k)"
    using containsLoop_sound [OF v(1-4)] v(5) by (simp add: ContainsKey_def)
  show "normalizeKey ix key = Inr k \<Longrightarrow> FirstGE ix key = Inr (first_of (dropWhile (\<lambda>e. e < Entry k 0) (inorder t)))"
    using first_ge.loop_least [OF v(1-4)] v(5) by (simp add: FirstGE_def descendFirst_def first_of_def)
  show "normalizeKey ix key = Inr k
      \<Longrightarrow> Successor ix key recno = Inr (first_of (dropWhile (\<lambda>e. e \<le> Entry k recno) (inorder t)))"
    using succ.loop_least [OF v(1-4)] v(5) by (simp add: Successor_def first_of_def)
  show "normalizeKey ix key = Inr k
      \<Longrightarrow> Predecessor ix key recno = Inr (last_of (takeWhile (\<lambda>e. e < Entry k recno) (inorder t)))"
    using predLoop_greatest [OF v(1-4)] v(5) by (simp add: Predecessor_def last_of_def Let_def)
  show "Min ix = Inr (first_of (inorder t))" if "3 \<le> unat (ix_maxItem ix)"
    using minLoop_first [OF v(1,2,4) filled_mono [OF v(6) minFill_pos [OF that]]] v(5)
    by (simp add: Min_def first_of_def split: list.splits)
  show "Max ix = Inr (last_of (inorder t))" if "3 \<le> unat (ix_maxItem ix)"
    using maxLoop_last [OF v(1,2,4) filled_mono [OF v(6) minFill_pos [OF that]]] v(5)
    by (simp add: Max_def last_of_def)
qed

lemma fuel_bound:
  assumes "ntx_valid ix fs h t" "ix_fileSize ix < 2 ^ 31"
  shows "ix_fileSize ix + (h + 3) * pageSize \<le> 2 ^ 32"
proof -
  have "Suc h \<le> ntx_fuel ix"
    using valid_tree(1) [OF assms(1)] by simp
  then have "Suc h * pageSize \<le> ix_fileSize ix"
    unfolding ntx_fuel_def by (metis div_times_less_eq_dividend le_trans mult_le_mono1)
  moreover obtain q where "ix_fileSize ix = pageSize * q"
    using assms(1) by (auto simp: ntx_valid_def wf_store_def)
  then have "ix_fileSize ix + pageSize \<le> 2 ^ 31"
    using assms(2) by (simp add: pageSize_def)
  ultimately show ?thesis
    by (simp add: pageSize_def)
qed

section \<open>A sample index\<close>

text \<open>The concrete index the examples run on: ten-byte keys, 50 of them per page.\<close>

definition sample_opts :: "bool \<Rightarrow> ntx_options" where
  "sample_opts u = \<lparr>op_KeyExpr = [78, 65, 77, 69], op_KeySize = 10, op_Decimals = 0, op_Unique = u\<rparr>"

definition sample_key :: "byte \<Rightarrow> bytes" where
  "sample_key c = c # replicate 9 0x20"

definition sample_geom :: "bool \<Rightarrow> ntx_index \<Rightarrow> bool" where
  "sample_geom u ix \<longleftrightarrow> ix_keySize ix = 10 \<and> unat (ix_maxItem ix) = 50 \<and> ix_unique ix = u
     \<and> ix_keyExpr ix = [78, 65, 77, 69] \<and> ix_fileSize ix < 2 ^ 31"

definition sample_index :: "bool \<Rightarrow> ntx_index \<Rightarrow> entry list \<Rightarrow> bool" where
  "sample_index u ix es \<longleftrightarrow> sample_geom u ix \<and> (\<exists>fs t. ntx_valid ix fs 0 t \<and> no_leak ix fs t \<and> inorder t = es)"

lemma sample_represents: "sample_index u ix es \<Longrightarrow> represents ix es"
  by (auto simp: sample_index_def represents_def)

lemma sample_index_created: "\<exists>ix. ntx_Create [] (sample_opts u) = Inr ix \<and> sample_index u ix []"
proof -
  have k: "op_KeySize (sample_opts u) \<noteq> 0" "op_KeySize (sample_opts u) \<le> MaxKeySize"
    "length (op_KeyExpr (sample_opts u)) < maxKeyExpr"
    by (simp_all add: sample_opts_def MaxKeySize_def maxKeyExpr_def)
  then obtain ix where "ntx_Create [] (sample_opts u) = Inr ix" "ntx_valid ix [] 0 (BLeaf pageSize [])"
      "ix_keySize ix = op_KeySize (sample_opts u)" "ix_unique ix = op_Unique (sample_opts u)"
      "ix_keyExpr ix = op_KeyExpr (sample_opts u)" "ix_maxItem ix = computeMaxItem (op_KeySize (sample_opts u) + 8)"
      "ix_fileSize ix = 2 * pageSize"
    using Create_store [OF k, of "[]"] by auto
  then show ?thesis
    using Create_sizes(1) [OF k(1,2)]
    by (intro exI [of _ ix])
      (auto simp: sample_index_def sample_geom_def sample_opts_def no_leak_def pageSize_def intro!: exI [of _ "[]"] exI [of _ "BLeaf 1024 []"])
qed

lemma sample_keys: "sample_index u ix es \<Longrightarrow> normalizeKey ix [c] = Inr (sample_key c)"
  by (simp add: sample_index_def sample_geom_def sample_key_def normalizeKey_def)

lemma sample_index_one: "\<exists>ix. sample_index u ix [Entry (sample_key 66) 2]"
proof -
  obtain ix where s: "sample_index u ix []"
    using sample_index_created by blast
  then obtain fs t where v: "ntx_valid ix fs 0 t" "inorder t = []" "no_leak ix fs t" and g: "sample_geom u ix"
    by (auto simp: sample_index_def)
  have b: "bcount t = 0" "bcount t < unat (ix_maxItem ix)"
    using v g valid_tree(2) [OF v(1)] by (cases t; simp add: sample_geom_def)+
  have key: "length (sample_key 66) = unat (ix_keySize ix)" "ix_halfPage ix = ix_maxItem ix div 2"
    "2 \<le> unat (ix_maxItem ix)"
    using g v(1) by (simp_all add: sample_geom_def sample_key_def ntx_valid_def)
  have "ix_fileSize ix + 0 * pageSize \<le> 2 ^ 32" "bcount t \<noteq> unat (ix_maxItem ix)"
    using g b by (simp_all add: sample_geom_def)
  then obtain ix' fs' t' where "ntx_valid ix' fs' 0 t'" "same_shape ix ix'"
      "inorder t' = insort (Entry (sample_key 66) 2) []" "ix_fileSize ix' \<le> ix_fileSize ix" "no_leak ix' fs' t'"
    using insert_ready [OF root_ready_same [OF v(1)] key(3,2,1), of 2] v(2,3) by auto
  then have "sample_index u ix' [Entry (sample_key 66) 2]"
    using g by (auto simp: sample_index_def sample_geom_def same_shape_def)
  then show ?thesis ..
qed

section \<open>The properties\<close>

text \<open>C1: \<open>Insert\<close> on an index that represents a sorted list of entries returns true and leaves an
  index that represents the list with the new entry at its place; only an index of 2 GiB or more
  could run out of 32-bit page addresses.  The key is the given one, space padded.\<close>

theorem Insert_represents:
  assumes "represents ix es" "normalizeKey ix key = Inr k" "ix_fileSize ix < 2 ^ 31"
    and "ix_unique ix \<longrightarrow> (\<forall>e \<in> set es. ent_key e \<noteq> k)"
  shows "\<exists>ix'. Insert key recno ix = (ix', Inr True) \<and> represents ix' (insort (Entry k recno) es)
    \<and> same_shape ix ix'"
proof -
  obtain fs h t where v: "ntx_valid ix fs h t" "inorder t = es"
    using assms(1) by (auto simp: represents_def)
  show ?thesis
    using Insert_store [OF v(1) assms(2) fuel_bound [OF v(1) assms(3)]] assms(4) v(2)
    unfolding inserted_index_def represents_def by blast
qed

theorem Insert_represents_witness:
  "\<exists>ix ix'. ntx_Create [] (sample_opts True) = Inr ix \<and> Insert [65] 7 ix = (ix', Inr True)
     \<and> represents ix' [Entry (sample_key 65) 7]"
proof -
  obtain ix where s: "ntx_Create [] (sample_opts True) = Inr ix" "sample_index True ix []"
    using sample_index_created by blast
  then have "ix_fileSize ix < 2 ^ 31"
    by (simp add: sample_index_def sample_geom_def)
  then show ?thesis
    using Insert_represents [OF sample_represents [OF s(2)] sample_keys [OF s(2), of 65], of 7] s(1) by auto
qed

text \<open>C2: on a unique index a key that is already present is skipped: \<open>Insert\<close> returns false and
  writes nothing.\<close>

theorem Insert_unique_skips:
  assumes "represents ix es" "normalizeKey ix key = Inr k" "ix_unique ix" "e \<in> set es" "ent_key e = k"
  shows "Insert key recno ix = (ix, Inr False)"
proof -
  obtain fs h t where v: "ntx_valid ix fs h t" "inorder t = es"
    using assms(1) by (auto simp: represents_def)
  have "normalizeKey ix k = Inr k"
    by (rule normalizeKey_full [OF normalizeKey_length [OF assms(2)]])
  then have "ContainsKey ix k = Inr True"
    using query_results(1) [OF v(1), of k k] assms(4,5) v(2) by auto
  then show ?thesis
    using assms(2,3) by (simp add: Insert_def bindS_apply queryS_apply returnS_apply)
qed

theorem Insert_unique_skips_witness:
  "\<exists>ix. represents ix [Entry (sample_key 66) 2] \<and> Insert [66] 9 ix = (ix, Inr False)"
proof -
  obtain ix where s: "sample_index True ix [Entry (sample_key 66) 2]"
    using sample_index_one by blast
  then have "ix_unique ix"
    by (simp add: sample_index_def sample_geom_def)
  then show ?thesis
    using Insert_unique_skips [OF sample_represents [OF s] sample_keys [OF s, of 66], of "Entry (sample_key 66) 2" 9]
      sample_represents [OF s] by auto
qed

text \<open>C3: after an \<open>Insert\<close> the file alone is enough: opening its bytes gives back the very handle,
  so the header page written last agrees with the pages and the sizes in memory.  The key
  expression must be one the header can hold.\<close>

theorem Insert_reopens:
  assumes "represents ix es" "normalizeKey ix key = Inr k" "ix_fileSize ix < 2 ^ 31" "expr_ok ix"
    and "Insert key recno ix = (ix', Inr True)"
  shows "ntx_Open (ix_rw ix') = Inr ix'"
proof -
  obtain fs h t where v: "ntx_valid ix fs h t" "inorder t = es"
    using assms(1) by (auto simp: represents_def)
  note q = query_results(1) [OF v(1) normalizeKey_full [OF normalizeKey_length [OF assms(2)]]]
  have "\<forall>e \<in> set (inorder t). ent_key e \<noteq> k" if "ix_unique ix"
    using that assms(2,5) q by (auto simp: Insert_def bindS_apply queryS_apply returnS_apply split: if_splits)
  then obtain fs' h' t' where w: "inserted_index ix fs h t (Entry k recno) ix' fs' h' t'" "ix_fileSize ix' \<le> 2 ^ 32"
    using Insert_store [OF v(1) assms(2) fuel_bound [OF v(1) assms(3)], of recno] assms(5) by auto
  have "expr_ok ix'"
    using w(1) assms(4) by (simp add: inserted_index_def same_shape_def expr_ok_def)
  then show ?thesis
    using w reopen_store [of ix' fs' h' t'] by (simp add: inserted_index_def)
qed

theorem Insert_reopens_witness:
  "\<exists>ix ix'. represents ix [Entry (sample_key 66) 2] \<and> Insert [65] 7 ix = (ix', Inr True)
     \<and> ntx_Open (ix_rw ix') = Inr ix'"
proof -
  obtain ix where s: "sample_index False ix [Entry (sample_key 66) 2]"
    using sample_index_one by blast
  then obtain fs t where g: "sample_geom False ix" and v: "ntx_valid ix fs 0 t"
    by (auto simp: sample_index_def)
  then have "expr_ok ix" and b: "ix_fileSize ix < 2 ^ 31" and u: "\<not> ix_unique ix"
    by (simp_all add: sample_geom_def expr_ok_def maxKeyExpr_def)
  moreover obtain ix' where "Insert [65] 7 ix = (ix', Inr True)"
    using Insert_store [OF v sample_keys [OF s] fuel_bound [OF v b], of 65 7] u by auto
  ultimately show ?thesis
    using Insert_reopens [OF sample_represents [OF s] sample_keys [OF s, of 65], of 7 ix']
      sample_represents [OF s] by auto
qed

text \<open>C5: \<open>Create\<close> accepts every key size from 1 to 250 and every expression the header has room for,
  and gives an empty index whose pages hold at least two keys.\<close>

theorem Create_represents:
  assumes "op_KeySize opts \<noteq> 0" "op_KeySize opts \<le> MaxKeySize" "length (op_KeyExpr opts) < maxKeyExpr"
    and "length rw \<le> 2 * pageSize"
  shows "\<exists>ix. ntx_Create rw opts = Inr ix \<and> represents ix [] \<and> header_current ix
    \<and> ix_keySize ix = op_KeySize opts \<and> ix_unique ix = op_Unique opts \<and> 2 \<le> unat (ix_maxItem ix)"
proof -
  obtain ix where "ntx_Create rw opts = Inr ix" "ntx_valid ix [] 0 (BLeaf pageSize [])" "header_current ix"
      "ix_keySize ix = op_KeySize opts" "ix_unique ix = op_Unique opts"
      "ix_maxItem ix = computeMaxItem (op_KeySize opts + 8)"
    using Create_store [OF assms] by blast
  then show ?thesis
    using Create_sizes(2) [OF assms(1,2)] by (auto simp: represents_def intro!: exI)
qed

theorem Create_represents_witness:
  "\<exists>ix. ntx_Create [] (sample_opts True) = Inr ix \<and> represents ix [] \<and> ix_keySize ix = 10"
  using Create_represents [of "sample_opts True" "[]"]
  by (auto simp: sample_opts_def MaxKeySize_def maxKeyExpr_def)

text \<open>C13: a node written to its page reads back as it was: count, slot offsets, child pointers, record
  numbers, keys, the right-most pointer and whether it is a leaf.\<close>

theorem writeNode_readNode:
  assumes "wf_store ix fs" "writable fs ix n"
  shows "\<exists>ix'. writeNode n ix = (ix', Inr ()) \<and> readNode ix' (nd_offset n) = Inr n
    \<and> (\<forall>off m. off \<noteq> nd_offset n \<longrightarrow> readNode ix off = Inr m \<longrightarrow> readNode ix' off = Inr m)"
proof -
  obtain ix' where w: "writeNode n ix = (ix', Inr ())" "keeps {nd_offset n} ix ix'" "readNode ix' (nd_offset n) = Inr n"
    using writeNode_store [OF assms] by blast
  have "\<forall>off m. off \<noteq> nd_offset n \<longrightarrow> readNode ix off = Inr m \<longrightarrow> readNode ix' off = Inr m"
    using keeps_readNode [OF w(2)] by simp
  then show ?thesis
    using w by blast
qed

theorem writeNode_readNode_witness:
  "\<exists>ix ix'. writeNode \<lparr>nd_offset = pageSize, nd_items = [], nd_right = 0, nd_leaf = True\<rparr> ix = (ix', Inr ())
     \<and> readNode ix' pageSize = Inr \<lparr>nd_offset = pageSize, nd_items = [], nd_right = 0, nd_leaf = True\<rparr>"
proof -
  obtain ix where v: "ntx_valid ix [] 0 (BLeaf pageSize [])"
    using Create_store [of "sample_opts True" "[]"] by (auto simp: sample_opts_def MaxKeySize_def maxKeyExpr_def)
  then have w: "wf_store ix []"
    by (simp add: ntx_valid_def)
  have "owned ix [] (BLeaf pageSize [])"
    using v by (simp add: ntx_valid_def tree_ok_def owned_def)
  then have "writable [] ix \<lparr>nd_offset = pageSize, nd_items = [], nd_right = 0, nd_leaf = True\<rparr>"
    using owned_page [OF w, of "BLeaf pageSize []" pageSize] by (simp add: writable_def node_ok_def pageSize_def)
  then show ?thesis
    using writeNode_readNode [OF w] by fastforce
qed

text \<open>\<open>ContainsKey\<close> decides whether an entry with the padded key is in the index.\<close>

theorem ContainsKey_decides:
  assumes "represents ix es" "normalizeKey ix key = Inr k"
  shows "ContainsKey ix key = Inr (\<exists>e \<in> set es. ent_key e = k)"
  using assms query_results(1) by (auto simp: represents_def)

theorem ContainsKey_decides_witness:
  "\<exists>ix. represents ix [Entry (sample_key 66) 2] \<and> ContainsKey ix [66] = Inr True \<and> ContainsKey ix [67] = Inr False"
proof -
  obtain ix where s: "sample_index True ix [Entry (sample_key 66) 2]"
    using sample_index_one by blast
  then show ?thesis
    using ContainsKey_decides [OF sample_represents [OF s] sample_keys [OF s, of 66]]
      ContainsKey_decides [OF sample_represents [OF s] sample_keys [OF s, of 67]] sample_represents [OF s]
    by (auto simp: sample_key_def)
qed

text \<open>C14: \<open>FirstGE\<close> returns the least entry whose key is not below the given one, and nothing when every
  key is below it.\<close>

theorem FirstGE_least:
  assumes "represents ix es" "normalizeKey ix key = Inr k"
  shows "FirstGE ix key = Inr (first_of (dropWhile (\<lambda>e. e < Entry k 0) es))"
  using assms query_results(2) by (auto simp: represents_def)

theorem FirstGE_least_witness:
  "\<exists>ix. represents ix [Entry (sample_key 66) 2] \<and> FirstGE ix [65] = Inr (Some (Entry (sample_key 66) 2))"
proof -
  obtain ix where s: "sample_index True ix [Entry (sample_key 66) 2]"
    using sample_index_one by blast
  then show ?thesis
    using FirstGE_least [OF sample_represents [OF s] sample_keys [OF s, of 65]] sample_represents [OF s]
    by (auto simp: first_of_def less_entry_iff sample_key_def)
qed

text \<open>C15: \<open>Successor\<close> returns the least entry above the given one, \<open>Predecessor\<close> the greatest below it,
  whether or not the entry itself is in the index.\<close>

theorem Successor_Predecessor:
  assumes "represents ix es" "normalizeKey ix key = Inr k"
  shows "Successor ix key recno = Inr (first_of (dropWhile (\<lambda>e. e \<le> Entry k recno) es))
    \<and> Predecessor ix key recno = Inr (last_of (takeWhile (\<lambda>e. e < Entry k recno) es))"
  using assms query_results(3,4) by (auto simp: represents_def)

theorem Successor_Predecessor_witness:
  "\<exists>ix. represents ix [Entry (sample_key 66) 2] \<and> Successor ix [66] 2 = Inr None
     \<and> Successor ix [66] 1 = Inr (Some (Entry (sample_key 66) 2)) \<and> Predecessor ix [67] 0 = Inr (Some (Entry (sample_key 66) 2))"
proof -
  obtain ix where s: "sample_index True ix [Entry (sample_key 66) 2]"
    using sample_index_one by blast
  then show ?thesis
    using Successor_Predecessor [OF sample_represents [OF s] sample_keys [OF s, of 66], of 1]
      Successor_Predecessor [OF sample_represents [OF s] sample_keys [OF s, of 66], of 2]
      Successor_Predecessor [OF sample_represents [OF s] sample_keys [OF s, of 67], of 0] sample_represents [OF s]
    by (intro exI [of _ ix])
      (simp add: first_of_def last_of_def less_entry_iff less_eq_entry_iff sample_key_def word_le_nat_alt)
qed

text \<open>\<open>Min\<close> and \<open>Max\<close> return the ends of the list when a page holds three keys or more.  With two
  keys per page (key sizes 246 to 250) a split leaves an empty right sibling and \<open>Max\<close> misses the
  entries to its left.\<close>

theorem Min_Max_ends:
  assumes "represents ix es" "3 \<le> unat (ix_maxItem ix)"
  shows "Min ix = Inr (first_of es) \<and> Max ix = Inr (last_of es)"
  using assms query_results(5,6) by (auto simp: represents_def)

theorem Min_Max_ends_witness:
  "\<exists>ix. represents ix [Entry (sample_key 66) 2] \<and> Min ix = Inr (Some (Entry (sample_key 66) 2))
     \<and> Max ix = Inr (Some (Entry (sample_key 66) 2))"
proof -
  obtain ix where s: "sample_index True ix [Entry (sample_key 66) 2]"
    using sample_index_one by blast
  then have "3 \<le> unat (ix_maxItem ix)"
    by (simp add: sample_index_def sample_geom_def)
  then show ?thesis
    using Min_Max_ends [OF sample_represents [OF s]] sample_represents [OF s]
    by (auto simp: first_of_def last_of_def)
qed

text \<open>What a client collects with \<open>for c.Next() { ... c.Entry() }\<close> in at most \<open>n\<close> rounds, and whether the
  cursor said it was exhausted.\<close>

fun drain :: "nat \<Rightarrow> ntx_index \<Rightarrow> cursor \<Rightarrow> entry list \<times> bool" where
  "drain 0 ix c = ([], False)"
| "drain (Suc n) ix c =
     (case Next ix c of
        (c, False) \<Rightarrow> ([], cu_err c = None)
      | (c, True) \<Rightarrow> (let (es, ok) = drain n ix c in (cu_current c # es, ok)))"

lemma drain_cursor:
  assumes "cursor_at ix c es" "length es < n"
  shows "drain n ix c = (es, True)"
  using assms
proof (induction n arbitrary: c es)
  case (Suc n)
  obtain c' b where n: "Next ix c = (c', b)"
    by fastforce
  have r: "next_result ix (c', b) es"
    using Next_correct [OF Suc.prems(1)] n by simp
  show ?case
  proof (cases es)
    case Nil
    then show ?thesis
      using r n by (simp add: cursor_at_def)
  next
    case (Cons e es')
    then show ?thesis
      using r n Suc.IH [of c' es'] Suc.prems(2) by simp
  qed
qed simp

text \<open>C16: a cursor positioned with \<open>First\<close> visits every entry exactly once, in order, and then reports the
  end without an error.\<close>

theorem First_scans_all:
  assumes "represents ix es"
  shows "drain (Suc (length es)) ix (First ix c) = (es, True)"
proof -
  have "cursor_at ix (First ix c) es"
    using assms First_cursor by (auto simp: represents_def)
  then show ?thesis
    by (rule drain_cursor) simp
qed

theorem First_scans_all_witness:
  "\<exists>ix. represents ix [Entry (sample_key 66) 2] \<and> drain (Suc (Suc 0)) ix (First ix NewCursor) = ([Entry (sample_key 66) 2], True)"
proof -
  obtain ix where s: "sample_index True ix [Entry (sample_key 66) 2]"
    using sample_index_one by blast
  show ?thesis
    using First_scans_all [OF sample_represents [OF s], of NewCursor] sample_represents [OF s]
    by (auto simp del: drain.simps)
qed

text \<open>after \<open>Seek\<close> the cursor visits exactly the entries whose key is not below the given one.\<close>

theorem Seek_scans_rest:
  assumes "represents ix es" "normalizeKey ix key = Inr k"
  shows "drain (Suc (length es)) ix (Seek ix key c) = (dropWhile (\<lambda>e. e < Entry k 0) es, True)"
proof -
  have "cursor_at ix (Seek ix key c) (dropWhile (\<lambda>e. e < Entry k 0) es)"
    using assms Seek_cursor by (auto simp: represents_def)
  then show ?thesis
    by (rule drain_cursor) (simp add: le_imp_less_Suc length_dropWhile_le)
qed

theorem Seek_scans_rest_witness:
  "\<exists>ix. represents ix [Entry (sample_key 66) 2] \<and> drain (Suc (Suc 0)) ix (Seek ix [67] NewCursor) = ([], True)"
proof -
  obtain ix where s: "sample_index True ix [Entry (sample_key 66) 2]"
    using sample_index_one by blast
  show ?thesis
    using Seek_scans_rest [OF sample_represents [OF s] sample_keys [OF s, of 67], of NewCursor] sample_represents [OF s]
    by (intro exI [of _ ix]) (simp add: less_entry_iff sample_key_def del: drain.simps)
qed

end
