(* ===== verification/NtxDelete.thy ===== *)
theory NtxDelete
  imports NtxInsert
begin

text \<open>
  \<open>delete.go\<close>: deletion with rebalancing on the way up.  As in \<open>NtxInsert\<close>, a node that the
  code updates through a pointer and that its caller reads afterwards is a result.
\<close>

section \<open>The operations\<close>

definition underflowed :: "ntx_index \<Rightarrow> node \<Rightarrow> bool" where
  "underflowed ix n \<longleftrightarrow> length (nd_items n) < unat (ix_halfPage ix)"

text \<open>\<open>childAt(i)\<close> for the \<open>i - 1\<close> of the callers, which may be \<open>-1\<close>.\<close>

definition childBefore :: "node \<Rightarrow> nat \<Rightarrow> error + nat" where
  "childBefore n i = (if i = 0 then Inl (Panic ''index out of range'') else Inr (childAt n (i - 1)))"

definition rotateRight :: "node \<Rightarrow> nat \<Rightarrow> node \<Rightarrow> node \<Rightarrow> (ntx_index, node) op" where
  "rotateRight parent i left child =
     (let sep = nd_items parent ! (i - 1);
          front = \<lparr>it_child = nd_right left, it_recno = it_recno sep, it_key = it_key sep\<rparr>;
          child = child\<lparr>nd_items := front # nd_items child\<rparr>;
          lst = last (nd_items left);
          left = left\<lparr>nd_items := butlast (nd_items left), nd_right := it_child lst\<rparr>;
          parent = parent\<lparr>nd_items := (nd_items parent)
            [i - 1 := sep\<lparr>it_key := it_key lst, it_recno := it_recno lst\<rparr>]\<rparr>
      in bindS (seqS writeNode [left, child, parent]) (\<lambda>_. returnS parent))"

definition rotateLeft :: "node \<Rightarrow> nat \<Rightarrow> node \<Rightarrow> node \<Rightarrow> (ntx_index, node) op" where
  "rotateLeft parent i child right =
     (let sep = nd_items parent ! i;
          child = child\<lparr>nd_items := nd_items child
            @ [\<lparr>it_child = nd_right child, it_recno = it_recno sep, it_key = it_key sep\<rparr>]\<rparr>;
          first = nd_items right ! 0;
          right = right\<lparr>nd_items := drop 1 (nd_items right)\<rparr>;
          child = child\<lparr>nd_right := it_child first\<rparr>;
          parent = parent\<lparr>nd_items := (nd_items parent)
            [i := sep\<lparr>it_key := it_key first, it_recno := it_recno first\<rparr>]\<rparr>
      in bindS (seqS writeNode [right, child, parent]) (\<lambda>_. returnS parent))"

definition mergeChildren :: "node \<Rightarrow> nat \<Rightarrow> node \<Rightarrow> node \<Rightarrow> (ntx_index, node) op" where
  "mergeChildren parent i left right =
     (let sep = nd_items parent ! i;
          left = left\<lparr>nd_items := nd_items left
            @ \<lparr>it_child = nd_right left, it_recno = it_recno sep, it_key = it_key sep\<rparr> # nd_items right,
            nd_right := nd_right right\<rparr>;
          parent = parent\<lparr>nd_items := take i (nd_items parent) @ drop (i + 1) (nd_items parent)\<rparr>;
          parent = setChildAt parent i (nd_offset left)
      in bindS (freePage (nd_offset right)) (\<lambda>_.
         bindS (seqS writeNode [left, parent]) (\<lambda>_. returnS parent)))"

definition fixRight :: "node \<Rightarrow> nat \<Rightarrow> node \<Rightarrow> (ntx_index, node) op" where
  "fixRight parent i child =
     (if i < length (nd_items parent) then
        bindS (queryS (\<lambda>ix. readNode ix (childAt parent (i + 1)))) (\<lambda>right ix.
          if length (nd_items right) > unat (ix_halfPage ix) then rotateLeft parent i child right ix
          else mergeChildren parent i child right ix)
      else
        bindS (queryS (\<lambda>ix. bindR (childBefore parent i) (readNode ix))) (\<lambda>left.
          mergeChildren parent (i - 1) left child))"

definition fixChild :: "node \<Rightarrow> nat \<Rightarrow> node \<Rightarrow> (ntx_index, node) op" where
  "fixChild parent i child =
     (if i > 0 then
        bindS (queryS (\<lambda>ix. readNode ix (childAt parent (i - 1)))) (\<lambda>left ix.
          if length (nd_items left) > unat (ix_halfPage ix) then rotateRight parent i left child ix
          else fixRight parent i child ix)
      else fixRight parent i child)"

text \<open>The tail of every recursive call: rebalance the child when it underflowed.\<close>

definition rebalance :: "bool \<Rightarrow> node \<Rightarrow> nat \<Rightarrow> node \<Rightarrow> (ntx_index, node) op" where
  "rebalance childUnderflow n i child = (if childUnderflow then fixChild n i child else returnS n)"

fun deleteMax :: "nat \<Rightarrow> node \<Rightarrow> (ntx_index, entry \<times> bool \<times> node) op" where
  "deleteMax 0 n = failS OutOfFuel"
| "deleteMax (Suc fuel) n =
     (if nd_leaf n then
        (if nd_items n = [] then failS (Errorf ''deleteMax on empty leaf: index is corrupt'')
         else
           let lst = last (nd_items n); n = n\<lparr>nd_items := butlast (nd_items n)\<rparr> in
           bindS (writeNode n) (\<lambda>_ ix. (ix, Inr (item_entry lst, underflowed ix n, n))))
      else
        bindS (queryS (\<lambda>ix. readNode ix (nd_right n))) (\<lambda>child.
        bindS (deleteMax fuel child) (\<lambda>(entry, childUnderflow, child).
        bindS (rebalance childUnderflow n (length (nd_items n)) child) (\<lambda>n ix.
          (ix, Inr (entry, underflowed ix n, n))))))"

fun deleteRec :: "nat \<Rightarrow> node \<Rightarrow> bytes \<Rightarrow> u32 \<Rightarrow> (ntx_index, bool \<times> bool \<times> node) op" where
  "deleteRec 0 n key recno = failS OutOfFuel"
| "deleteRec (Suc fuel) n key recno =
     (let i = findInNode n key recno;
          exact = (i < length (nd_items n)
            \<and> compareEntries (it_key (nd_items n ! i)) (it_recno (nd_items n ! i)) key recno = 0)
      in
      if nd_leaf n then
        (if \<not> exact then returnS (False, False, n)
         else
           let n = n\<lparr>nd_items := take i (nd_items n) @ drop (i + 1) (nd_items n)\<rparr> in
           bindS (writeNode n) (\<lambda>_ ix. (ix, Inr (True, underflowed ix n, n))))
      else if exact then
        bindS (queryS (\<lambda>ix. readNode ix (it_child (nd_items n ! i)))) (\<lambda>child.
        bindS (deleteMax fuel child) (\<lambda>(pred, childUnderflow, child).
        let n = n\<lparr>nd_items := (nd_items n)[i := (nd_items n ! i)
                    \<lparr>it_key := ent_key pred, it_recno := ent_recno pred\<rparr>]\<rparr> in
        bindS (writeNode n) (\<lambda>_.
        bindS (rebalance childUnderflow n i child) (\<lambda>n ix.
          (ix, Inr (True, underflowed ix n, n))))))
      else
        bindS (queryS (\<lambda>ix. readNode ix (childAt n i))) (\<lambda>child.
        bindS (deleteRec fuel child key recno) (\<lambda>(found, childUnderflow, child).
        bindS (rebalance childUnderflow n i child) (\<lambda>n ix.
          (ix, Inr (found, underflowed ix n, n))))))"

definition ntx_Delete :: "bytes \<Rightarrow> u32 \<Rightarrow> (ntx_index, bool) op" where
  "ntx_Delete key recno =
     bindS (queryS (\<lambda>ix. normalizeKey ix key)) (\<lambda>key.
     bindS (queryS (\<lambda>ix. readNode ix (ix_root ix))) (\<lambda>root.
     bindS (\<lambda>ix. deleteRec (ntx_fuel ix) root key recno ix) (\<lambda>(found, _, root).
     if \<not> found then returnS False
     else
       bindS (if \<not> nd_leaf root \<and> nd_items root = [] then
                (\<lambda>ix. freePage (nd_offset root) (ix\<lparr>ix_root := nd_right root\<rparr>))
              else returnS ()) (\<lambda>_.
       bindS ntx_writeHeader (\<lambda>_. returnS True)))))"

end
