(* ===== verification/NtxRebalance.thy ===== *)
theory NtxRebalance
  imports NtxDelete "HOL-Library.Multiset"
begin

text \<open>
  Rebalancing seen as a rearrangement of trees: a rotation moves one entry through the separator
  of two neighbours, a merge joins them around it.  The pure functions \<open>rot_right\<close>, \<open>rot_left\<close>
  and \<open>join\<close> are what \<open>delete.go\<close> does to the pages; \<open>fixChild_store\<close> says so.
\<close>

section \<open>Two neighbours and their separator\<close>

fun kids :: "btree \<Rightarrow> btree list" where
  "kids (BLeaf off es) = []"
| "kids (BNode off ks ss) = ks"

fun rot_right :: "btree \<Rightarrow> entry \<Rightarrow> btree \<Rightarrow> btree \<times> entry \<times> btree" where
  "rot_right (BLeaf lo es) s (BLeaf ro fs) = (BLeaf lo (butlast es), last es, BLeaf ro (s # fs))"
| "rot_right (BNode lo ks ss) s (BNode ro js ts) =
     (BNode lo (butlast ks) (butlast ss), last ss, BNode ro (last ks # js) (s # ts))"
| "rot_right l s r = (l, s, r)"

fun rot_left :: "btree \<Rightarrow> entry \<Rightarrow> btree \<Rightarrow> btree \<times> entry \<times> btree" where
  "rot_left (BLeaf lo es) s (BLeaf ro fs) = (BLeaf lo (es @ [s]), hd fs, BLeaf ro (tl fs))"
| "rot_left (BNode lo ks ss) s (BNode ro js ts) =
     (BNode lo (ks @ [hd js]) (ss @ [s]), hd ts, BNode ro (tl js) (tl ts))"
| "rot_left l s r = (l, s, r)"

fun join :: "btree \<Rightarrow> entry \<Rightarrow> btree \<Rightarrow> btree" where
  "join (BLeaf lo es) s (BLeaf ro fs) = BLeaf lo (es @ s # fs)"
| "join (BNode lo ks ss) s (BNode ro js ts) = BNode lo (ks @ js) (ss @ s # ts)"
| "join l s r = l"

text \<open>What a rotation keeps.\<close>

definition regrouped :: "nat \<Rightarrow> btree \<Rightarrow> entry \<Rightarrow> btree \<Rightarrow> btree \<Rightarrow> entry \<Rightarrow> btree \<Rightarrow> bool" where
  "regrouped h l s r l' s' r' \<longleftrightarrow> bal h l' \<and> bal h r' \<and> broot l' = broot l \<and> broot r' = broot r
     \<and> inorder l' @ s' # inorder r' = inorder l @ s # inorder r
     \<and> mset (pages l' @ pages r') = mset (pages l @ pages r)
     \<and> set (kids l') \<union> set (kids r') = set (kids l) \<union> set (kids r)
     \<and> set (s' # seps l' @ seps r') = set (s # seps l @ seps r)"

lemma interleave_snoc:
  "length ks = Suc (length ss) \<Longrightarrow> interleave (ks @ [k]) (ss @ [s]) = interleave ks ss @ s # k"
  using interleave_split [of ks "ss @ [s]" k "[]" "[]"] interleave_split [of "butlast ks" ss "last ks" "[]" "[]"]
  by (cases ks rule: rev_cases) (simp_all add: fore_append)

lemma interleave_Cons:
  "length ks = Suc (length ss) \<Longrightarrow> interleave (k # ks) (s # ss) = k @ s # interleave ks ss"
  by (cases ks) (simp_all add: interleave_def)

lemma interleave_append:
  assumes "length ks = Suc (length ss)" "length js = Suc (length ts)"
  shows "interleave (ks @ js) (ss @ s # ts) = interleave ks ss @ s # interleave js ts"
proof -
  obtain k1 k where ks: "ks = k1 @ [k]" "length k1 = length ss"
    using assms(1) by (cases ks rule: rev_cases) auto
  obtain j js' where js: "js = j # js'" "length js' = length ts"
    using assms(2) by (cases js) auto
  have "interleave (k1 @ k # js) (ss @ s # ts) = fore k1 ss @ k @ aft (s # ts) js"
    using ks(2) by (intro interleave_split) simp
  then show ?thesis
    using ks js interleave_split [of k1 ss k "[]" "[]"] by (simp add: interleave_def)
qed

lemma rot_right_regrouped:
  assumes "rot_right l s r = (l', s', r')" "bal h l" "bal h r" "0 < bcount l"
  shows "regrouped h l s r l' s' r'" "bcount l = Suc (bcount l')" "bcount r' = Suc (bcount r)"
proof -
  have "regrouped h l s r l' s' r' \<and> bcount l = Suc (bcount l') \<and> bcount r' = Suc (bcount r)"
  proof (cases l)
    case (BLeaf lo es)
    then obtain ro fs where r: "r = BLeaf ro fs"
      using assms(2,3) by (cases r) auto
    obtain es' e where "es = es' @ [e]"
      using assms(4) BLeaf by (cases es rule: rev_cases) auto
    then show ?thesis
      using assms BLeaf r by (auto simp: regrouped_def)
  next
    case (BNode lo ks ss)
    then obtain ro js ts where r: "r = BNode ro js ts"
      using assms(2,3) by (cases r) auto
    obtain ss' e where ss: "ss = ss' @ [e]"
      using assms(4) BNode by (cases ss rule: rev_cases) auto
    obtain ks' k where ks: "ks = ks' @ [k]" "length ks' = Suc (length ss')"
      using assms(2) BNode ss by (cases ks rule: rev_cases) auto
    have js: "length js = Suc (length ts)"
      using assms(3) r by auto
    show ?thesis
      using assms BNode r ss ks js
      by (auto simp: regrouped_def interleave_snoc interleave_Cons)
  qed
  then show "regrouped h l s r l' s' r'" "bcount l = Suc (bcount l')" "bcount r' = Suc (bcount r)"
    by simp_all
qed

lemma rot_left_regrouped:
  assumes "rot_left l s r = (l', s', r')" "bal h l" "bal h r" "0 < bcount r"
  shows "regrouped h l s r l' s' r'" "bcount r = Suc (bcount r')" "bcount l' = Suc (bcount l)"
proof -
  have "regrouped h l s r l' s' r' \<and> bcount r = Suc (bcount r') \<and> bcount l' = Suc (bcount l)"
  proof (cases r)
    case (BLeaf ro fs)
    then obtain lo es where l: "l = BLeaf lo es"
      using assms(2,3) by (cases l) auto
    obtain f fs' where "fs = f # fs'"
      using assms(4) BLeaf by (cases fs) auto
    then show ?thesis
      using assms BLeaf l by (auto simp: regrouped_def)
  next
    case (BNode ro js ts)
    then obtain lo ks ss where l: "l = BNode lo ks ss"
      using assms(2,3) by (cases l) auto
    obtain e ts' where ts: "ts = e # ts'"
      using assms(4) BNode by (cases ts) auto
    obtain j js' where js: "js = j # js'" "length js' = Suc (length ts')"
      using assms(3) BNode ts by (cases js) auto
    have ks: "length ks = Suc (length ss)"
      using assms(2) l by auto
    show ?thesis
      using assms BNode l ts js ks
      by (auto simp: regrouped_def interleave_snoc interleave_Cons)
  qed
  then show "regrouped h l s r l' s' r'" "bcount r = Suc (bcount r')" "bcount l' = Suc (bcount l)"
    by simp_all
qed

lemma join_props:
  assumes "bal h l" "bal h r"
  shows "bal h (join l s r)" "broot (join l s r) = broot l" "inorder (join l s r) = inorder l @ s # inorder r"
    "mset (pages (join l s r)) + {#broot r#} = mset (pages l @ pages r)"
    "set (kids (join l s r)) = set (kids l) \<union> set (kids r)"
    "set (seps (join l s r)) = set (s # seps l @ seps r)" "bcount (join l s r) = Suc (bcount l + bcount r)"
  using assms by (cases l; cases r; auto simp: interleave_append)+

lemma fits_seps_kids:
  assumes "bal h t"
  shows "fits K M t \<longleftrightarrow> bcount t \<le> M \<and> (\<forall>e \<in> set (seps t). length (ent_key e) = K) \<and> (\<forall>k \<in> set (kids t). fits K M k)"
  by (cases t) auto

lemma filled_kids: "filled m t \<longleftrightarrow> (\<forall>k \<in> set (kids t). m \<le> bcount k \<and> filled m k)"
  by (cases t) auto

lemma stored_kids:
  "stored rd t \<longleftrightarrow> rd (broot t) = Inr (node_of t) \<and> (\<forall>k \<in> set (kids t). stored rd k)"
  by (cases t) auto

lemma kids_pages: "k \<in> set (kids t) \<Longrightarrow> set (pages k) \<subseteq> set (pages t)"
  by (cases t) auto

lemma kids_apart: "distinct (pages t) \<Longrightarrow> k \<in> set (kids t) \<Longrightarrow> broot t \<notin> set (pages k)"
  by (cases t) auto

section \<open>The pages of the rearranged trees\<close>

lemma parent_item:
  assumes "length k1 = length s1" "length k2 = length s2"
  shows "nd_items (node_of (BNode off (k1 @ l # r # k2) (s1 @ s # s2))) ! length s1 = branch_item l s"
proof -
  have l: "length (map2 branch_item k1 s1) = length s1"
    using assms(1) by simp
  have eq: "nd_items (node_of (BNode off (k1 @ l # r # k2) (s1 @ s # s2))) =
      map2 branch_item k1 s1 @ branch_item l s # map2 branch_item (butlast (r # k2)) s2"
  proof -
    have "length (r # k2) = length (s # s2)"
      using assms(2) by simp
    from node_of_branch [OF assms(1) this, of off l] show ?thesis
      by (simp del: node_of.simps)
  qed
  show ?thesis
    unfolding eq l [symmetric] by (rule nth_append_length)
qed

lemma parent_update:
  assumes len: "length k1 = length s1" "length k2 = length s2" and "broot l' = broot l" "broot r' = broot r"
    and P: "P = node_of (BNode off (k1 @ l # r # k2) (s1 @ s # s2))"
  shows "P\<lparr>nd_items := (nd_items P)[length s1 := (branch_item l s)\<lparr>it_key := ent_key s', it_recno := ent_recno s'\<rparr>]\<rparr>
    = node_of (BNode off (k1 @ l' # r' # k2) (s1 @ s' # s2))"
proof -
  have b: "branch_item l' = branch_item l" "branch_item r' = branch_item r"
    by (rule branch_item_cong [OF assms(3)], rule branch_item_cong [OF assms(4)])
  have "node_of (BNode off (k1 @ l' # r' # k2) (s1 @ s' # s2)) =
      \<lparr>nd_offset = off, nd_items = map2 branch_item k1 s1 @ branch_item l' s' # map2 branch_item (butlast (r' # k2)) s2,
       nd_right = broot (last (r' # k2)), nd_leaf = False\<rparr>"
    using node_of_branch [of k1 s1 "r' # k2" "s' # s2" off l'] len by (simp del: node_of.simps)
  moreover have "P = \<lparr>nd_offset = off, nd_items = map2 branch_item k1 s1 @ branch_item l s # map2 branch_item (butlast (r # k2)) s2,
       nd_right = broot (last (r # k2)), nd_leaf = False\<rparr>"
    using node_of_branch [of k1 s1 "r # k2" "s # s2" off l] len P by (simp del: node_of.simps)
  moreover have "map2 branch_item (butlast (r' # k2)) s2 = map2 branch_item (butlast (r # k2)) s2"
    using b len by (cases k2; cases s2) auto
  moreover have "broot (last (r' # k2)) = broot (last (r # k2))"
    using assms(4) by (cases k2) auto
  moreover have "(branch_item l s)\<lparr>it_key := ent_key s', it_recno := ent_recno s'\<rparr> = branch_item l' s'"
    using b by (simp add: branch_item_def)
  ultimately show ?thesis
    using len by (simp add: list_update_append del: node_of.simps)
qed

lemma parent_merge:
  assumes len: "length k1 = length s1" "length k2 = length s2" and "broot m = broot l"
    and P: "P = node_of (BNode off (k1 @ l # r # k2) (s1 @ s # s2))"
  shows "setChildAt (P\<lparr>nd_items := take (length s1) (nd_items P) @ drop (length s1 + 1) (nd_items P)\<rparr>)
      (length s1) (broot l) = node_of (BNode off (k1 @ m # k2) (s1 @ s2))"
proof -
  have P': "P = \<lparr>nd_offset = off, nd_items = map2 branch_item k1 s1 @ branch_item l s # map2 branch_item (butlast (r # k2)) s2,
       nd_right = broot (last (r # k2)), nd_leaf = False\<rparr>"
    using node_of_branch [of k1 s1 "r # k2" "s # s2" off l] len P by (simp del: node_of.simps)
  have N: "node_of (BNode off (k1 @ m # k2) (s1 @ s2)) =
      \<lparr>nd_offset = off, nd_items = map2 branch_item k1 s1 @ map2 branch_item (butlast (m # k2)) s2,
       nd_right = broot (last (m # k2)), nd_leaf = False\<rparr>"
    by (rule node_of_branch [OF len])
  show ?thesis
  proof (cases k2)
    case Nil
    then show ?thesis
      using len P' N assms(3) by (simp add: setChildAt_def)
  next
    case (Cons k k2')
    then obtain t s2' where "s2 = t # s2'"
      using len(2) by (cases s2) auto
    then show ?thesis
      using len P' N assms(3) Cons by (simp add: setChildAt_def branch_item_def nth_append list_update_append)
  qed
qed

lemma node_of_rot_right:
  assumes "rot_right l s r = (l', s', r')" "bal h l" "bal h r" "0 < bcount l"
  shows "node_of l' = (node_of l)\<lparr>nd_items := butlast (nd_items (node_of l)),
      nd_right := it_child (last (nd_items (node_of l)))\<rparr>"
    and "node_of r' = (node_of r)\<lparr>nd_items := \<lparr>it_child = nd_right (node_of l), it_recno = ent_recno s, it_key = ent_key s\<rparr>
      # nd_items (node_of r)\<rparr>"
    and "it_key (last (nd_items (node_of l))) = ent_key s'" "it_recno (last (nd_items (node_of l))) = ent_recno s'"
proof -
  have "node_of l' = (node_of l)\<lparr>nd_items := butlast (nd_items (node_of l)),
      nd_right := it_child (last (nd_items (node_of l)))\<rparr>
    \<and> node_of r' = (node_of r)\<lparr>nd_items := \<lparr>it_child = nd_right (node_of l), it_recno = ent_recno s, it_key = ent_key s\<rparr>
      # nd_items (node_of r)\<rparr>
    \<and> item_entry (last (nd_items (node_of l))) = s'"
  proof (cases l)
    case (BLeaf lo es)
    then obtain ro fs where r: "r = BLeaf ro fs"
      using assms(2,3) by (cases r) auto
    obtain es' e where "es = es' @ [e]"
      using assms(4) BLeaf by (cases es rule: rev_cases) auto
    then show ?thesis
      using assms BLeaf r by (auto simp: leaf_item_def item_entry_def)
  next
    case (BNode lo ks ss)
    then obtain ro js ts where r: "r = BNode ro js ts"
      using assms(2,3) by (cases r) auto
    obtain ss' e where ss: "ss = ss' @ [e]"
      using assms(4) BNode by (cases ss rule: rev_cases) auto
    obtain ks' k' k where ks: "ks = ks' @ [k', k]" "length ks' = length ss'"
      using assms(2) BNode ss by (cases ks rule: rev_cases; cases "butlast ks" rule: rev_cases) auto
    have js: "js \<noteq> []"
      using assms(3) r by auto
    show ?thesis
      using assms BNode r ss ks js
      by (auto simp: branch_item_def item_entry_def butlast_append)
  qed
  then show "node_of l' = (node_of l)\<lparr>nd_items := butlast (nd_items (node_of l)),
      nd_right := it_child (last (nd_items (node_of l)))\<rparr>"
    "node_of r' = (node_of r)\<lparr>nd_items := \<lparr>it_child = nd_right (node_of l), it_recno = ent_recno s, it_key = ent_key s\<rparr>
      # nd_items (node_of r)\<rparr>"
    "it_key (last (nd_items (node_of l))) = ent_key s'" "it_recno (last (nd_items (node_of l))) = ent_recno s'"
    by (auto simp: item_entry_def)
qed

lemma node_of_rot_left:
  assumes "rot_left l s r = (l', s', r')" "bal h l" "bal h r" "0 < bcount r"
  shows "node_of r' = (node_of r)\<lparr>nd_items := drop 1 (nd_items (node_of r))\<rparr>"
    and "node_of l' = (node_of l)\<lparr>nd_items := nd_items (node_of l)
      @ [\<lparr>it_child = nd_right (node_of l), it_recno = ent_recno s, it_key = ent_key s\<rparr>],
      nd_right := it_child (nd_items (node_of r) ! 0)\<rparr>"
    and "it_key (nd_items (node_of r) ! 0) = ent_key s'" "it_recno (nd_items (node_of r) ! 0) = ent_recno s'"
proof -
  have "node_of r' = (node_of r)\<lparr>nd_items := drop 1 (nd_items (node_of r))\<rparr>
    \<and> node_of l' = (node_of l)\<lparr>nd_items := nd_items (node_of l)
      @ [\<lparr>it_child = nd_right (node_of l), it_recno = ent_recno s, it_key = ent_key s\<rparr>],
      nd_right := it_child (nd_items (node_of r) ! 0)\<rparr>
    \<and> item_entry (nd_items (node_of r) ! 0) = s'"
  proof (cases r)
    case (BLeaf ro fs)
    then obtain lo es where l: "l = BLeaf lo es"
      using assms(2,3) by (cases l) auto
    obtain f fs' where "fs = f # fs'"
      using assms(4) BLeaf by (cases fs) auto
    then show ?thesis
      using assms BLeaf l by (auto simp: leaf_item_def item_entry_def)
  next
    case (BNode ro js ts)
    then obtain lo ks ss where l: "l = BNode lo ks ss"
      using assms(2,3) by (cases l) auto
    obtain e ts' where ts: "ts = e # ts'"
      using assms(4) BNode by (cases ts) auto
    obtain j j' js' where js: "js = j # j' # js'" "length js' = length ts'"
      using assms(3) BNode ts by (cases js; cases "tl js") auto
    obtain ks' k where "ks = ks' @ [k]" "length ks' = length ss"
      using assms(2) l by (cases ks rule: rev_cases) auto
    then show ?thesis
      using assms BNode l ts js
      by (auto simp: branch_item_def item_entry_def butlast_append)
  qed
  then show "node_of r' = (node_of r)\<lparr>nd_items := drop 1 (nd_items (node_of r))\<rparr>"
    "node_of l' = (node_of l)\<lparr>nd_items := nd_items (node_of l)
      @ [\<lparr>it_child = nd_right (node_of l), it_recno = ent_recno s, it_key = ent_key s\<rparr>],
      nd_right := it_child (nd_items (node_of r) ! 0)\<rparr>"
    "it_key (nd_items (node_of r) ! 0) = ent_key s'" "it_recno (nd_items (node_of r) ! 0) = ent_recno s'"
    by (auto simp: item_entry_def)
qed

lemma node_of_join:
  assumes "bal h l" "bal h r"
  shows "node_of (join l s r) = (node_of l)\<lparr>nd_items := nd_items (node_of l)
      @ \<lparr>it_child = nd_right (node_of l), it_recno = ent_recno s, it_key = ent_key s\<rparr> # nd_items (node_of r),
      nd_right := nd_right (node_of r)\<rparr>"
proof (cases l)
  case (BLeaf lo es)
  then obtain ro fs where "r = BLeaf ro fs"
    using assms by (cases r) auto
  then show ?thesis
    using BLeaf by (auto simp: leaf_item_def)
next
  case (BNode lo ks ss)
  then obtain ro js ts where r: "r = BNode ro js ts"
    using assms by (cases r) auto
  obtain ks' k where "ks = ks' @ [k]" "length ks' = length ss"
    using assms(1) BNode by (cases ks rule: rev_cases) auto
  moreover have "js \<noteq> []"
    using assms(2) r by auto
  ultimately show ?thesis
    using BNode r by (auto simp: branch_item_def butlast_append)
qed

section \<open>The operations write those pages\<close>

lemma rotateRight_pages:
  assumes rot: "rot_right l s r = (l', s', r')" and b: "bal h l" "bal h r" "0 < bcount l"
    and len: "length k1 = length s1" "length k2 = length s2"
  shows "rotateRight (node_of (BNode off (k1 @ l # r # k2) (s1 @ s # s2))) (Suc (length s1)) (node_of l) (node_of r) =
    bindS (seqS writeNode [node_of l', node_of r', node_of (BNode off (k1 @ l' # r' # k2) (s1 @ s' # s2))])
      (\<lambda>_. returnS (node_of (BNode off (k1 @ l' # r' # k2) (s1 @ s' # s2))))"
proof -
  have br: "broot l' = broot l" "broot r' = broot r"
    using rot_right_regrouped(1) [OF rot b] by (simp_all add: regrouped_def)
  have k: "it_key (branch_item l s) = ent_key s" "it_recno (branch_item l s) = ent_recno s"
    by (simp_all add: branch_item_def)
  show ?thesis
    unfolding rotateRight_def Let_def diff_Suc_1 parent_item [OF len] k node_of_rot_right(3,4) [OF rot b]
      parent_update [OF len br refl] node_of_rot_right(1,2) [OF rot b, symmetric]
    by simp
qed

lemma rotateLeft_pages:
  assumes rot: "rot_left l s r = (l', s', r')" and b: "bal h l" "bal h r" "0 < bcount r"
    and len: "length k1 = length s1" "length k2 = length s2"
  shows "rotateLeft (node_of (BNode off (k1 @ l # r # k2) (s1 @ s # s2))) (length s1) (node_of l) (node_of r) =
    bindS (seqS writeNode [node_of r', node_of l', node_of (BNode off (k1 @ l' # r' # k2) (s1 @ s' # s2))])
      (\<lambda>_. returnS (node_of (BNode off (k1 @ l' # r' # k2) (s1 @ s' # s2))))"
proof -
  have br: "broot l' = broot l" "broot r' = broot r"
    using rot_left_regrouped(1) [OF rot b] by (simp_all add: regrouped_def)
  have k: "it_key (branch_item l s) = ent_key s" "it_recno (branch_item l s) = ent_recno s"
    by (simp_all add: branch_item_def)
  note n = node_of_rot_left [OF rot b]
  have l: "(node_of l)\<lparr>nd_items := nd_items (node_of l)
      @ [\<lparr>it_child = nd_right (node_of l), it_recno = ent_recno s, it_key = ent_key s\<rparr>]\<rparr>
      \<lparr>nd_right := it_child (nd_items (node_of r) ! 0)\<rparr> = node_of l'"
    unfolding n(2) by simp
  show ?thesis
    unfolding rotateLeft_def Let_def parent_item [OF len] k l n(3,4) n(1) [symmetric]
      parent_update [OF len br refl]
    by simp
qed

lemma mergeChildren_pages:
  assumes b: "bal h l" "bal h r" and len: "length k1 = length s1" "length k2 = length s2"
  shows "mergeChildren (node_of (BNode off (k1 @ l # r # k2) (s1 @ s # s2))) (length s1) (node_of l) (node_of r) =
    bindS (freePage (broot r)) (\<lambda>_.
      bindS (seqS writeNode [node_of (join l s r), node_of (BNode off (k1 @ join l s r # k2) (s1 @ s2))])
        (\<lambda>_. returnS (node_of (BNode off (k1 @ join l s r # k2) (s1 @ s2)))))"
proof -
  have k: "it_key (branch_item l s) = ent_key s" "it_recno (branch_item l s) = ent_recno s"
    by (simp_all add: branch_item_def)
  have m: "broot (join l s r) = broot l"
    by (rule join_props(2) [OF b])
  show ?thesis
    unfolding mergeChildren_def Let_def parent_item [OF len] k node_of_join [OF b, symmetric]
      node_of_offset m parent_merge [OF len m refl]
    by simp
qed

end
