(* ===== verification/NtxRemove.thy ===== *)
theory NtxRemove
  imports NtxRebalance
begin

text \<open>
  \<open>Delete\<close> removes one entry from the in-order list and leaves a B-tree.  The relation
  \<open>shrunk\<close> is what every step of it keeps; a child that lost an entry may be under-filled until
  \<open>fixChild\<close> has run, so the fill of the nodes is stated apart.
\<close>

lemma distinct_concat_apart:
  "distinct (concat (map f ks)) \<Longrightarrow> a \<in> set ks \<Longrightarrow> b \<in> set ks \<Longrightarrow> a \<noteq> b \<Longrightarrow> set (f a) \<inter> set (f b) = {}"
  by (induction ks) auto

section \<open>Rewriting a branch and some of its children\<close>

lemma rewrite_children:
  assumes wf: "wf_store ix fs" and T: "T = BNode off ks ss" and bal: "bal (Suc h) T"
    and fit: "fits (unat (ix_keySize ix)) (unat (ix_maxItem ix)) T"
    and dist: "distinct (pages T)" and disj: "set (pages T) \<inter> set fs = {}"
    and lay: "\<forall>p \<in> set (pages T). 0 < p \<and> pageSize dvd p \<and> p + pageSize \<le> ix_fileSize ix"
    and lim: "ix_fileSize ix \<le> 2 ^ 32"
    and ts: "ts \<subseteq> set ks" "set ns = node_of ` insert T ts" "distinct (map nd_offset ns)"
    and old: "\<forall>k \<in> set ks - ts. stored (readNode ix) k" "\<forall>t \<in> ts. \<forall>k \<in> set (kids t). stored (readNode ix) k"
  shows "\<exists>ix'. seqS writeNode ns ix = (ix', Inr ()) \<and> wf_store ix' fs
    \<and> keeps (broot ` insert T ts) ix ix' \<and> same_roots ix ix' \<and> owned ix' fs T"
proof -
  have w: "writable fs ix (node_of t)" if "t \<in> insert T ts" for t
  proof -
    obtain h' where "bal h' t" "fits (unat (ix_keySize ix)) (unat (ix_maxItem ix)) t" "set (pages t) \<subseteq> set (pages T)"
    proof (cases "t = T")
      case False
      then have t: "t \<in> set ks"
        using ts(1) \<open>t \<in> insert T ts\<close> by blast
      then show ?thesis
        using that [of h] bal fit T by auto
    qed (use that [of "Suc h"] bal fit in auto)
    moreover have "broot t \<in> set (pages T)"
      using calculation(3) broot_in_pages [of t] by blast
    ultimately show ?thesis
      using wf lay disj lim by (intro writable_tree [of ix fs h' t]) auto
  qed
  then have "list_all (writable fs ix) ns"
    using ts(2) by (auto simp: list_all_iff)
  then obtain ix' where r: "seqS writeNode ns ix = (ix', Inr ())" "wf_store ix' fs"
      "keeps (nd_offset ` set ns) ix ix'" "same_roots ix ix'" "\<forall>n \<in> set ns. readNode ix' (nd_offset n) = Inr n"
    using node_store.write_all [OF wf _ ts(3)] by blast
  have X: "nd_offset ` set ns = broot ` insert T ts"
    unfolding ts(2) image_image by simp
  have kp: "keeps (broot ` insert T ts) ix ix'"
    using r(3) unfolding X .
  have rd: "readNode ix' (broot t) = Inr (node_of t)" if "t \<in> insert T ts" for t
  proof -
    have "node_of t \<in> set ns"
      using that ts(2) by blast
    then show ?thesis
      using r(5) by fastforce
  qed
  have dk: "distinct (off # concat (map pages ks))"
    using dist T by simp
  have clear: "set (pages k) \<inter> broot ` insert T ts = {}"
    if k: "k \<in> set ks - ts \<or> (\<exists>t \<in> ts. k \<in> set (kids t))" for k
  proof -
    obtain a where a: "a \<in> set ks" "set (pages k) \<subseteq> set (pages a)" "a \<in> ts \<longrightarrow> broot a \<notin> set (pages k)"
    proof (cases "k \<in> set ks - ts")
      case False
      then obtain t where t: "t \<in> ts" "k \<in> set (kids t)"
        using k by blast
      moreover have "t \<in> set ks"
        using ts(1) t(1) by blast
      moreover from this have "distinct (pages t)"
        using dk by (auto simp: distinct_concat_iff)
      ultimately show ?thesis
        using that [of t] kids_pages kids_apart by blast
    qed (use that [of k] in blast)
    have "broot b \<notin> set (pages k)" if b: "b \<in> ts" for b
    proof (cases "b = a")
      case False
      then have "set (pages a) \<inter> set (pages b) = {}"
        using distinct_concat_apart [of pages ks a b] dk a(1) b ts(1) by auto
      then show ?thesis
        using a(2) broot_in_pages [of b] by blast
    qed (use a(3) b in blast)
    moreover have "off \<notin> set (pages k)"
      using dk a(1,2) by auto
    ultimately show ?thesis
      using T by auto
  qed
  have kid: "stored (readNode ix') k" if "k \<in> set ks" for k
  proof (cases "k \<in> ts")
    case True
    have "stored (readNode ix') j" if "j \<in> set (kids k)" for j
      using old(2) that True clear [of j] by (intro stored_keeps [OF _ kp]) auto
    then show ?thesis
      using rd [of k] True by (intro stored_kids [THEN iffD2]) auto
  next
    case False
    then show ?thesis
      using old(1) that clear [of k] by (intro stored_keeps [OF _ kp]) auto
  qed
  have "stored (readNode ix') T"
    using rd [of T] kid T by (intro stored_kids [THEN iffD2]) auto
  then show ?thesis
    using r(1,2,4) kp dist disj by (auto simp: owned_def)
qed

section \<open>What a removal below a node keeps\<close>

definition shrunk ::
  "ntx_index \<Rightarrow> nat list \<Rightarrow> nat \<Rightarrow> btree \<Rightarrow> entry list \<Rightarrow> ntx_index \<Rightarrow> nat list \<Rightarrow> btree \<Rightarrow> bool" where
  "shrunk ix fs h t es ix' fs' t' \<longleftrightarrow>
     wf_store ix' fs' \<and> ix_root ix' = ix_root ix \<and> ix_fileSize ix' = ix_fileSize ix
     \<and> keeps (set (pages t)) ix ix' \<and> owned ix' fs' t' \<and> broot t' = broot t \<and> bal h t'
     \<and> fits (unat (ix_keySize ix)) (unat (ix_maxItem ix)) t' \<and> inorder t' = es
     \<and> set (pages t') \<subseteq> set (pages t) \<and> set fs' \<subseteq> set fs \<union> set (pages t)
     \<and> length fs' + length (pages t') = length fs + length (pages t)"

lemma shrunk_refl:
  assumes "wf_store ix fs" "owned ix fs t" "bal h t" "fits (unat (ix_keySize ix)) (unat (ix_maxItem ix)) t"
  shows "shrunk ix fs h t (inorder t) ix fs t"
  using assms keeps_mono [OF keeps_refl, of "set (pages t)" ix] by (simp add: shrunk_def)

lemma shrunk_trans:
  assumes "shrunk ix fs h t es ix1 fs1 t1" "shrunk ix1 fs1 h t1 es' ix2 fs2 t2"
  shows "shrunk ix fs h t es' ix2 fs2 t2"
proof -
  have "keeps (set (pages t)) ix ix2"
    using keeps_mono [OF keeps_trans, of "set (pages t)" ix ix1 "set (pages t1)" ix2 "set (pages t)"] assms
    by (auto simp: shrunk_def)
  moreover have "ix_keySize ix1 = ix_keySize ix" "ix_maxItem ix1 = ix_maxItem ix"
    using assms(1) keeps_shape unfolding shrunk_def by blast+
  ultimately show ?thesis
    using assms by (auto simp: shrunk_def)
qed

lemma shrunk_synced:
  assumes "shrunk ix fs h t es ix' fs' t'" "synced ix"
  shows "synced ix'"
proof -
  have "length (ix_rw ix) \<le> length (ix_rw ix')" "length (ix_rw ix') \<le> ix_fileSize ix'"
      "ix_fileSize ix' = ix_fileSize ix"
    using assms(1) keeps_shape(9) [of "set (pages t)" ix ix'] by (auto simp: shrunk_def wf_store_def)
  then show ?thesis
    using assms(2) by (simp add: synced_def)
qed

text \<open>The branch of a child that shrank: the page of the branch itself is as it was.\<close>

lemma shrink_child:
  assumes wf: "wf_store ix fs" and T: "T = BNode off (k1 @ c # k2) (s1 @ s2)"
    and len: "length k1 = length s1" "length k2 = length s2"
    and own: "owned ix fs T" and bal: "bal (Suc h) T"
    and fit: "fits (unat (ix_keySize ix)) (unat (ix_maxItem ix)) T"
    and sh: "shrunk ix fs h c es ix' fs' c'"
  shows "shrunk ix fs (Suc h) T (fore (map inorder k1) s1 @ es @ aft s2 (map inorder k2)) ix' fs'
    (BNode off (k1 @ c' # k2) (s1 @ s2))"
proof -
  let ?T' = "BNode off (k1 @ c' # k2) (s1 @ s2)"
  let ?others = "insert off (\<Union>k \<in> set k1 \<union> set k2. set (pages k))"
  have i: "wf_store ix' fs'" "ix_root ix' = ix_root ix" "ix_fileSize ix' = ix_fileSize ix"
      "keeps (set (pages c)) ix ix'" "owned ix' fs' c'" "broot c' = broot c" "bal h c'"
      "fits (unat (ix_keySize ix)) (unat (ix_maxItem ix)) c'"
      "inorder c' = es" "set (pages c') \<subseteq> set (pages c)" "set fs' \<subseteq> set fs \<union> set (pages c)"
      "length fs' + length (pages c') = length fs + length (pages c)"
    using sh by (auto simp: shrunk_def)
  have pT: "set (pages T) = set (pages c) \<union> ?others"
    unfolding T by auto
  have dT: "distinct (off # concat (map pages k1) @ pages c @ concat (map pages k2))"
    using own unfolding T by (simp add: owned_def)
  then have others: "?others \<inter> set (pages c) = {}"
    by auto
  have rd: "readNode ix' off = Inr (node_of T)"
    using own keeps_readNode [OF i(4), of off] others unfolding T by (auto simp: owned_def)
  have kids: "stored (readNode ix') k" if "k \<in> set k1 \<union> set k2" for k
  proof -
    have "set (pages k) \<inter> set (pages c) = {}"
      using others that by blast
    moreover have "stored (readNode ix) k"
      using own that unfolding T by (auto simp: owned_def)
    ultimately show ?thesis
      using i(4) stored_keeps by blast
  qed
  have "node_of ?T' = node_of T"
    unfolding T by (rule node_of_replace [OF len i(6)])
  then have "stored (readNode ix') ?T'"
    using rd kids i(5) by (simp add: owned_def ball_Un del: node_of.simps)
  moreover have "distinct (pages ?T')"
  proof -
    have "set (pages c') \<inter> ?others = {}"
      using i(10) others by blast
    then show ?thesis
      using distinct_replace [OF dT, of "pages c'"] i(5) by (auto simp: owned_def)
  qed
  moreover have "set (pages ?T') \<inter> set fs' = {}"
  proof -
    have "?others \<inter> set fs = {}"
      using own pT by (auto simp: owned_def)
    then have "?others \<inter> set fs' = {}"
      using others i(11) by blast
    moreover have "set (pages c') \<inter> set fs' = {}"
      using i(5) by (simp add: owned_def)
    moreover have "set (pages ?T') = set (pages c') \<union> ?others"
      by auto
    ultimately show ?thesis
      by blast
  qed
  ultimately have own': "owned ix' fs' ?T'"
    by (simp add: owned_def)
  have "inorder ?T' = fore (map inorder k1) s1 @ es @ aft s2 (map inorder k2)"
    using i(9) len by (simp add: interleave_split)
  moreover have "set (pages ?T') \<subseteq> set (pages T)" "set fs' \<subseteq> set fs \<union> set (pages T)"
    using i(10,11) pT by auto
  moreover have "keeps (set (pages T)) ix ix'"
    using pT by (intro keeps_mono [OF i(4)]) blast
  moreover have "bal (Suc h) ?T'" "fits (unat (ix_keySize ix)) (unat (ix_maxItem ix)) ?T'"
    using bal fit i(7,8) unfolding T by auto
  moreover have "length fs' + length (pages ?T') = length fs + length (pages T)"
    using i(12) unfolding T by simp
  ultimately show ?thesis
    using i(1-3) own' unfolding T by (simp add: shrunk_def)
qed

section \<open>Rebalancing\<close>

lemma rotate_store:
  assumes wf: "wf_store ix fs" and T: "T = BNode off (k1 @ l # r # k2) (s1 @ s # s2)"
    and len: "length k1 = length s1" "length k2 = length s2"
    and own: "owned ix fs T" and bal: "bal (Suc h) T"
    and fit: "fits (unat (ix_keySize ix)) (unat (ix_maxItem ix)) T"
    and lim: "ix_fileSize ix \<le> 2 ^ 32" and g: "regrouped h l s r l' s' r'"
    and M: "bcount l' \<le> unat (ix_maxItem ix)" "bcount r' \<le> unat (ix_maxItem ix)"
    and T': "T' = BNode off (k1 @ l' # r' # k2) (s1 @ s' # s2)"
    and ns: "mset ns = mset [node_of l', node_of r', node_of T']"
  shows "\<exists>ix'. seqS writeNode ns ix = (ix', Inr ()) \<and> shrunk ix fs (Suc h) T (inorder T) ix' fs T'"
proof -
  let ?K = "unat (ix_keySize ix)" and ?M = "unat (ix_maxItem ix)"
  have g': "bal h l'" "bal h r'" "broot l' = broot l" "broot r' = broot r"
      "inorder l' @ s' # inorder r' = inorder l @ s # inorder r"
      "mset (pages l' @ pages r') = mset (pages l @ pages r)"
      "set (kids l') \<union> set (kids r') = set (kids l) \<union> set (kids r)"
      "set (s' # seps l' @ seps r') = set (s # seps l @ seps r)"
    using g by (simp_all add: regrouped_def)
  have lr: "bal h l" "bal h r" "fits ?K ?M l" "fits ?K ?M r" "length (ent_key s) = ?K"
    using bal fit T by auto
  have seps: "length (ent_key e) = ?K" if "e \<in> set (s' # seps l' @ seps r')" for e
    using that lr unfolding g'(8) by (auto simp: fits_seps_kids)
  have kidfit: "fits ?K ?M k" if "k \<in> set (kids l') \<union> set (kids r')" for k
    using that lr unfolding g'(7) by (auto simp: fits_seps_kids)
  have "fits ?K ?M l'" "fits ?K ?M r'"
    using seps kidfit M fits_seps_kids [OF g'(1)] fits_seps_kids [OF g'(2)] by auto
  then have fit': "fits ?K ?M T'" and bal': "bal (Suc h) T'"
    using fit bal seps g'(1,2) T T' by auto
  have "mset (pages T') = mset (pages T)"
    using g'(6) T T' by simp
  then have pg: "set (pages T') = set (pages T)" "distinct (pages T')"
    using own mset_eq_setD mset_eq_imp_distinct_iff unfolding owned_def by blast+
  have lay: "\<forall>p \<in> set (pages T'). 0 < p \<and> pageSize dvd p \<and> p + pageSize \<le> ix_fileSize ix"
    using owned_page [OF wf own] pg(1) by blast
  have apart: "distinct [broot l, broot r, off]"
  proof -
    have "distinct (pages l @ pages r)" "off \<notin> set (pages l) \<union> set (pages r)"
      using own T by (auto simp: owned_def)
    moreover have "broot l \<in> set (pages l)" "broot r \<in> set (pages r)"
      by simp_all
    ultimately show ?thesis
      unfolding distinct_append by fastforce
  qed
  have "mset (map nd_offset ns) = image_mset nd_offset (mset [node_of l', node_of r', node_of T'])"
    unfolding ns [symmetric] by simp
  then have "mset (map nd_offset ns) = mset [broot l, broot r, off]"
    using g'(3,4) T' by (simp del: node_of.simps)
  then have dist: "distinct (map nd_offset ns)"
    using apart mset_eq_imp_distinct_iff by blast
  have set: "set ns = node_of ` insert T' {l', r'}"
    using mset_eq_setD [OF ns] by (auto simp del: node_of.simps)
  have st: "stored (readNode ix) k" if "k \<in> set k1 \<union> set k2 \<union> set (kids l) \<union> set (kids r)" for k
  proof -
    have "stored (readNode ix) l" "stored (readNode ix) r" "k \<in> set k1 \<union> set k2 \<Longrightarrow> stored (readNode ix) k"
      using own T by (auto simp: owned_def)
    then show ?thesis
      using that stored_kids [of _ l] stored_kids [of _ r] by blast
  qed
  have old: "\<forall>k \<in> set (k1 @ l' # r' # k2) - {l', r'}. stored (readNode ix) k"
      "\<forall>t \<in> {l', r'}. \<forall>k \<in> set (kids t). stored (readNode ix) k"
    using st g'(7) by auto
  obtain ix' where w: "seqS writeNode ns ix = (ix', Inr ())" "wf_store ix' fs"
      "keeps (broot ` insert T' {l', r'}) ix ix'" "same_roots ix ix'" "owned ix' fs T'"
    using rewrite_children [OF wf T' bal' fit' pg(2) _ lay lim _ set dist old] own pg(1)
    unfolding owned_def by auto
  have "keeps (set (pages T)) ix ix'"
    using pg(1) T' by (intro keeps_mono [OF w(3)]) auto
  moreover have "inorder T' = inorder T"
  proof -
    have "inorder l' @ s' # inorder r' @ z = inorder l @ s # inorder r @ z" for z
      using arg_cong [OF g'(5), of "\<lambda>x. x @ z"] by simp
    then show ?thesis
      using len unfolding T T' by (simp add: interleave_split)
  qed
  moreover have "broot T' = broot T"
    using T T' by simp
  moreover have "length (pages T') = length (pages T)"
    using \<open>mset (pages T') = mset (pages T)\<close> by (rule mset_eq_length)
  ultimately show ?thesis
    using w fit' bal' pg(1) by (auto simp: shrunk_def same_roots_def)
qed

lemma merge_store:
  assumes wf: "wf_store ix fs" and T: "T = BNode off (k1 @ l # r # k2) (s1 @ s # s2)"
    and len: "length k1 = length s1" "length k2 = length s2"
    and own: "owned ix fs T" and bal: "bal (Suc h) T"
    and fit: "fits (unat (ix_keySize ix)) (unat (ix_maxItem ix)) T"
    and lim: "ix_fileSize ix \<le> 2 ^ 32" and room: "bcount l + bcount r < unat (ix_maxItem ix)"
    and T': "T' = BNode off (k1 @ join l s r # k2) (s1 @ s2)"
  shows "\<exists>ix'. mergeChildren (node_of T) (length s1) (node_of l) (node_of r) ix = (ix', Inr (node_of T'))
    \<and> shrunk ix fs (Suc h) T (inorder T) ix' (broot r # fs) T'"
proof -
  let ?K = "unat (ix_keySize ix)" and ?M = "unat (ix_maxItem ix)" and ?m = "join l s r" and ?r = "broot r"
  have lr: "bal h l" "bal h r" "fits ?K ?M l" "fits ?K ?M r" "length (ent_key s) = ?K"
    using bal fit T by auto
  note j = join_props [OF lr(1,2), of s]
  have "fits ?K ?M ?m"
    using lr room j(5,6,7) unfolding fits_seps_kids [OF j(1)] by (auto simp: fits_seps_kids)
  then have fit': "fits ?K ?M T'" and bal': "bal (Suc h) T'"
    using fit bal j(1) T T' by auto
  have mp: "mset (pages T) = add_mset ?r (mset (pages T'))"
    using j(4) T T' by simp
  have dT: "distinct (pages T)" "set (pages T) \<inter> set fs = {}"
    using own by (auto simp: owned_def)
  have pg: "set (pages T) = insert ?r (set (pages T'))"
    using arg_cong [OF mp, of set_mset] by simp
  have new: "distinct (?r # pages T')"
    using mset_eq_imp_distinct_iff [of "pages T" "?r # pages T'"] mp dT(1) by simp
  have r: "0 < ?r" "pageSize dvd ?r" "?r + pageSize \<le> ix_fileSize ix" "?r \<notin> set fs"
    using owned_page [OF wf own, of ?r] pg by auto
  have "?r + pageSize \<le> length (ix_rw ix)"
    using stored_pages [of ix T ?r] own pg by (auto simp: owned_def)
  moreover have "?r < 2 ^ 32"
    using r(3) lim by (simp add: pageSize_def)
  ultimately obtain ix1 where f: "freePage ?r ix = (ix1, Inr ())" "wf_store ix1 (?r # fs)" "keeps {?r} ix ix1"
      "ix_root ix1 = ix_root ix" "ix_fileSize ix1 = ix_fileSize ix"
    using freePage_store [OF wf r(1,2,4)] by blast
  have sh: "ix_keySize ix1 = ix_keySize ix" "ix_maxItem ix1 = ix_maxItem ix"
    using keeps_shape [OF f(3)] by simp_all
  have lay: "\<forall>p \<in> set (pages T'). 0 < p \<and> pageSize dvd p \<and> p + pageSize \<le> ix_fileSize ix1"
    using owned_page [OF wf own] pg f(5) by auto
  have other: "?r \<notin> set (pages k)" if k: "k \<in> set k1 \<union> set k2 \<union> set (kids l) \<union> set (kids r)" for k
  proof (cases "k \<in> set (kids r)")
    case True
    have "distinct (pages r)"
      using dT(1) T by simp
    then show ?thesis
      using True kids_apart by blast
  next
    case False
    have "set (pages k) \<subseteq> set (pages T')"
    proof (cases "k \<in> set (kids l)")
      case True
      then have "set (pages k) \<subseteq> set (pages ?m)"
        using kids_pages [of k ?m] j(5) by blast
      then show ?thesis
        using T' by auto
    qed (use k False T' in auto)
    then show ?thesis
      using new by auto
  qed
  have st: "stored (readNode ix1) k" if "k \<in> set k1 \<union> set k2 \<union> set (kids l) \<union> set (kids r)" for k
  proof -
    have "stored (readNode ix) l" "stored (readNode ix) r" "k \<in> set k1 \<union> set k2 \<Longrightarrow> stored (readNode ix) k"
      using own T by (auto simp: owned_def)
    then have "stored (readNode ix) k"
      using that stored_kids [of _ l] stored_kids [of _ r] by blast
    then show ?thesis
      using other [OF that] by (intro stored_keeps [OF _ f(3)]) auto
  qed
  have old: "\<forall>k \<in> set (k1 @ ?m # k2) - {?m}. stored (readNode ix1) k"
      "\<forall>t \<in> {?m}. \<forall>k \<in> set (kids t). stored (readNode ix1) k"
    using st j(5) by auto
  have apart: "broot ?m \<noteq> off"
    using new broot_in_pages [of ?m] T' by auto
  have disj: "set (pages T') \<inter> set (?r # fs) = {}"
    using dT(2) new pg by auto
  have lim1: "ix_fileSize ix1 \<le> 2 ^ 32"
    using lim f(5) by simp
  have nodes: "set [node_of ?m, node_of T'] = node_of ` insert T' {?m}" "{?m} \<subseteq> set (k1 @ ?m # k2)"
      "distinct (map nd_offset [node_of ?m, node_of T'])"
    using apart T' by auto
  have dist': "distinct (pages T')"
    using new by simp
  obtain ix' where w: "seqS writeNode [node_of ?m, node_of T'] ix1 = (ix', Inr ())" "wf_store ix' (?r # fs)"
      "keeps (broot ` insert T' {?m}) ix1 ix'" "same_roots ix1 ix'" "owned ix' (?r # fs) T'"
    using rewrite_children [OF f(2) T' bal' _ dist' disj lay lim1 nodes(2,1,3) old] fit' sh by auto
  have "keeps (set (pages T)) ix ix'"
  proof (rule keeps_mono [OF keeps_trans [OF f(3) w(3)]])
    show "{?r} \<union> broot ` insert T' {?m} \<subseteq> set (pages T)"
      using pg T' broot_in_pages [of ?m] by auto
  qed
  moreover have "inorder T' = inorder T"
    using len j(3) unfolding T T' by (simp add: interleave_split)
  moreover have "broot T' = broot T"
    using T T' by simp
  moreover have "mergeChildren (node_of T) (length s1) (node_of l) (node_of r) ix = (ix', Inr (node_of T'))"
    unfolding T mergeChildren_pages [OF lr(1,2) len] using f(1) w(1) T' by (simp add: steps del: seqS.simps node_of.simps)
  moreover have "Suc (length (pages T')) = length (pages T)"
    using arg_cong [OF mp, of size] by simp
  ultimately show ?thesis
    using w fit' bal' pg f(4,5) by (auto simp: shrunk_def same_roots_def simp del: node_of.simps)
qed

text \<open>A branch whose child \<open>c\<close> alone may be one entry short of \<open>m\<close>.\<close>

definition lacking :: "nat \<Rightarrow> btree list \<Rightarrow> btree \<Rightarrow> btree list \<Rightarrow> bool" where
  "lacking m k1 c k2 \<longleftrightarrow> (\<forall>k \<in> set k1 \<union> set k2. m \<le> bcount k \<and> filled m k) \<and> filled m c \<and> m \<le> Suc (bcount c)"

definition mended ::
  "ntx_index \<Rightarrow> nat list \<Rightarrow> nat \<Rightarrow> btree \<Rightarrow> btree list \<Rightarrow> btree \<Rightarrow> btree list \<Rightarrow> ntx_index \<Rightarrow> nat list \<Rightarrow> btree \<Rightarrow> bool" where
  "mended ix fs h T k1 c k2 ix' fs' T' \<longleftrightarrow> shrunk ix fs h T (inorder T) ix' fs' T' \<and> bcount T \<le> Suc (bcount T')
     \<and> (\<forall>m \<le> unat (ix_halfPage ix). lacking m k1 c k2 \<longrightarrow> filled m T')"

text \<open>The branch the code rebalances at child \<open>c\<close>, between \<open>k1\<close> and \<open>k2\<close>.\<close>

definition mending :: "ntx_index \<Rightarrow> nat list \<Rightarrow> nat \<Rightarrow> btree \<Rightarrow> nat \<Rightarrow> btree list \<Rightarrow> btree \<Rightarrow> btree list \<Rightarrow> entry list \<Rightarrow> entry list \<Rightarrow> bool" where
  "mending ix fs h T off k1 c k2 s1 s2 \<longleftrightarrow> wf_store ix fs \<and> T = BNode off (k1 @ c # k2) (s1 @ s2)
     \<and> length k1 = length s1 \<and> length k2 = length s2 \<and> owned ix fs T \<and> bal (Suc h) T
     \<and> fits (unat (ix_keySize ix)) (unat (ix_maxItem ix)) T \<and> ix_fileSize ix \<le> 2 ^ 32
     \<and> ix_halfPage ix = ix_maxItem ix div 2 \<and> bcount c < unat (ix_halfPage ix)"

lemma half_max: "2 * unat (w div 2) \<le> unat (w :: u16)"
  by (simp add: unat_div)

lemma regrouped_filled:
  assumes "regrouped h l s r l' s' r'" "filled m l" "filled m r"
  shows "filled m l'" "filled m r'"
proof -
  have "set (kids l') \<union> set (kids r') = set (kids l) \<union> set (kids r)"
    using assms(1) by (simp add: regrouped_def)
  then show "filled m l'" "filled m r'"
    using assms(2,3) filled_kids [of m l] filled_kids [of m r] filled_kids [of m l'] filled_kids [of m r'] by blast+
qed

lemma mend_rotateRight:
  assumes m: "mending ix fs h T off (k1 @ [l]) c k2 (s1 @ [s]) s2" and l: "unat (ix_halfPage ix) < bcount l"
  shows "\<exists>ix' T'. rotateRight (node_of T) (Suc (length s1)) (node_of l) (node_of c) ix = (ix', Inr (node_of T'))
    \<and> mended ix fs (Suc h) T (k1 @ [l]) c k2 ix' fs T'"
proof -
  have wf: "wf_store ix fs" and T: "T = BNode off (k1 @ l # c # k2) (s1 @ s # s2)"
    and len: "length k1 = length s1" "length k2 = length s2" and own: "owned ix fs T" and bal: "bal (Suc h) T"
    and fit: "fits (unat (ix_keySize ix)) (unat (ix_maxItem ix)) T" and lim: "ix_fileSize ix \<le> 2 ^ 32"
    and half: "2 * unat (ix_halfPage ix) \<le> unat (ix_maxItem ix)" and c: "bcount c < unat (ix_halfPage ix)"
    using m half_max [of "ix_maxItem ix"] by (auto simp: mending_def)
  obtain l' s' c' where rot: "rot_right l s c = (l', s', c')"
    by (metis surj_pair)
  have b: "bal h l" "bal h c" "0 < bcount l" "bcount l \<le> unat (ix_maxItem ix)"
    using bal fit T l fits_seps_kids [of h l] by auto
  note g = rot_right_regrouped [OF rot b(1-3)]
  let ?T = "BNode off (k1 @ l' # c' # k2) (s1 @ s' # s2)"
  have M: "bcount l' \<le> unat (ix_maxItem ix)" "bcount c' \<le> unat (ix_maxItem ix)"
    using g(2,3) b(4) c half by simp_all
  obtain ix' where w: "seqS writeNode [node_of l', node_of c', node_of ?T] ix = (ix', Inr ())"
      "shrunk ix fs (Suc h) T (inorder T) ix' fs ?T"
    using rotate_store [OF wf T len own bal fit lim g(1) M refl refl] by blast
  have "filled m ?T" if "m \<le> unat (ix_halfPage ix)" "lacking m (k1 @ [l]) c k2" for m
    using that regrouped_filled [OF g(1), of m] g(2,3) l by (auto simp: lacking_def)
  then have "mended ix fs (Suc h) T (k1 @ [l]) c k2 ix' fs ?T"
    using w(2) T by (simp add: mended_def)
  moreover have "rotateRight (node_of T) (Suc (length s1)) (node_of l) (node_of c) ix = (ix', Inr (node_of ?T))"
    unfolding T rotateRight_pages [OF rot b(1-3) len] using w(1) by (simp add: steps del: seqS.simps node_of.simps)
  ultimately show ?thesis
    by blast
qed

lemma mend_rotateLeft:
  assumes m: "mending ix fs h T off k1 c (r # k2) s1 (s # s2)" and r: "unat (ix_halfPage ix) < bcount r"
  shows "\<exists>ix' T'. rotateLeft (node_of T) (length s1) (node_of c) (node_of r) ix = (ix', Inr (node_of T'))
    \<and> mended ix fs (Suc h) T k1 c (r # k2) ix' fs T'"
proof -
  have wf: "wf_store ix fs" and T: "T = BNode off (k1 @ c # r # k2) (s1 @ s # s2)"
    and len: "length k1 = length s1" "length k2 = length s2" and own: "owned ix fs T" and bal: "bal (Suc h) T"
    and fit: "fits (unat (ix_keySize ix)) (unat (ix_maxItem ix)) T" and lim: "ix_fileSize ix \<le> 2 ^ 32"
    and half: "2 * unat (ix_halfPage ix) \<le> unat (ix_maxItem ix)" and c: "bcount c < unat (ix_halfPage ix)"
    using m half_max [of "ix_maxItem ix"] by (auto simp: mending_def)
  obtain c' s' r' where rot: "rot_left c s r = (c', s', r')"
    by (metis surj_pair)
  have b: "bal h c" "bal h r" "0 < bcount r" "bcount r \<le> unat (ix_maxItem ix)"
    using bal fit T r fits_seps_kids [of h r] by auto
  note g = rot_left_regrouped [OF rot b(1-3)]
  let ?T = "BNode off (k1 @ c' # r' # k2) (s1 @ s' # s2)"
  have M: "bcount c' \<le> unat (ix_maxItem ix)" "bcount r' \<le> unat (ix_maxItem ix)"
    using g(2,3) b(4) c half by simp_all
  have perm: "mset [node_of r', node_of c', node_of ?T] = mset [node_of c', node_of r', node_of ?T]"
    by (simp del: node_of.simps)
  obtain ix' where w: "seqS writeNode [node_of r', node_of c', node_of ?T] ix = (ix', Inr ())"
      "shrunk ix fs (Suc h) T (inorder T) ix' fs ?T"
    using rotate_store [OF wf T len own bal fit lim g(1) M refl perm] by blast
  have "filled m ?T" if "m \<le> unat (ix_halfPage ix)" "lacking m k1 c (r # k2)" for m
    using that regrouped_filled [OF g(1), of m] g(2,3) r by (auto simp: lacking_def)
  then have "mended ix fs (Suc h) T k1 c (r # k2) ix' fs ?T"
    using w(2) T by (simp add: mended_def)
  moreover have "rotateLeft (node_of T) (length s1) (node_of c) (node_of r) ix = (ix', Inr (node_of ?T))"
    unfolding T rotateLeft_pages [OF rot b(1-3) len] using w(1) by (simp add: steps del: seqS.simps node_of.simps)
  ultimately show ?thesis
    by blast
qed

lemma mend_mergeRight:
  assumes m: "mending ix fs h T off k1 c (r # k2) s1 (s # s2)" and r: "bcount r \<le> unat (ix_halfPage ix)"
  shows "\<exists>ix' fs' T'. mergeChildren (node_of T) (length s1) (node_of c) (node_of r) ix = (ix', Inr (node_of T'))
    \<and> mended ix fs (Suc h) T k1 c (r # k2) ix' fs' T'"
proof -
  have wf: "wf_store ix fs" and T: "T = BNode off (k1 @ c # r # k2) (s1 @ s # s2)"
    and len: "length k1 = length s1" "length k2 = length s2" and own: "owned ix fs T" and bal: "bal (Suc h) T"
    and fit: "fits (unat (ix_keySize ix)) (unat (ix_maxItem ix)) T" and lim: "ix_fileSize ix \<le> 2 ^ 32"
    and half: "2 * unat (ix_halfPage ix) \<le> unat (ix_maxItem ix)" and c: "bcount c < unat (ix_halfPage ix)"
    using m half_max [of "ix_maxItem ix"] by (auto simp: mending_def)
  have b: "bal h c" "bal h r" and room: "bcount c + bcount r < unat (ix_maxItem ix)"
    using bal T c r half by auto
  let ?T = "BNode off (k1 @ join c s r # k2) (s1 @ s2)"
  obtain ix' where w: "mergeChildren (node_of T) (length s1) (node_of c) (node_of r) ix = (ix', Inr (node_of ?T))"
      "shrunk ix fs (Suc h) T (inorder T) ix' (broot r # fs) ?T"
    using merge_store [OF wf T len own bal fit lim room refl] by blast
  note j = join_props [OF b, of s]
  have "filled m ?T" if "m \<le> unat (ix_halfPage ix)" "lacking m k1 c (r # k2)" for m
    using that j(5,7) filled_kids [of m c] filled_kids [of m r] filled_kids [of m "join c s r"]
    by (auto simp: lacking_def)
  then have "mended ix fs (Suc h) T k1 c (r # k2) ix' (broot r # fs) ?T"
    using w(2) T by (simp add: mended_def)
  then show ?thesis
    using w(1) by blast
qed

lemma mend_mergeLeft:
  assumes m: "mending ix fs h T off (k1 @ [l]) c k2 (s1 @ [s]) s2" and l: "bcount l \<le> unat (ix_halfPage ix)"
  shows "\<exists>ix' fs' T'. mergeChildren (node_of T) (length s1) (node_of l) (node_of c) ix = (ix', Inr (node_of T'))
    \<and> mended ix fs (Suc h) T (k1 @ [l]) c k2 ix' fs' T'"
proof -
  have wf: "wf_store ix fs" and T: "T = BNode off (k1 @ l # c # k2) (s1 @ s # s2)"
    and len: "length k1 = length s1" "length k2 = length s2" and own: "owned ix fs T" and bal: "bal (Suc h) T"
    and fit: "fits (unat (ix_keySize ix)) (unat (ix_maxItem ix)) T" and lim: "ix_fileSize ix \<le> 2 ^ 32"
    and half: "2 * unat (ix_halfPage ix) \<le> unat (ix_maxItem ix)" and c: "bcount c < unat (ix_halfPage ix)"
    using m half_max [of "ix_maxItem ix"] by (auto simp: mending_def)
  have b: "bal h l" "bal h c" and room: "bcount l + bcount c < unat (ix_maxItem ix)"
    using bal T c l half by auto
  let ?T = "BNode off (k1 @ join l s c # k2) (s1 @ s2)"
  obtain ix' where w: "mergeChildren (node_of T) (length s1) (node_of l) (node_of c) ix = (ix', Inr (node_of ?T))"
      "shrunk ix fs (Suc h) T (inorder T) ix' (broot c # fs) ?T"
    using merge_store [OF wf T len own bal fit lim room refl] by blast
  note j = join_props [OF b, of s]
  have "filled m ?T" if "m \<le> unat (ix_halfPage ix)" "lacking m (k1 @ [l]) c k2" for m
    using that j(5,7) filled_kids [of m l] filled_kids [of m c] filled_kids [of m "join l s c"]
    by (auto simp: lacking_def)
  then have "mended ix fs (Suc h) T (k1 @ [l]) c k2 ix' (broot c # fs) ?T"
    using w(2) T by (simp add: mended_def)
  then show ?thesis
    using w(1) by blast
qed

lemma mending_sibling:
  assumes "mending ix fs h T off k1 c k2 s1 s2" "k \<in> set k1 \<union> set k2"
  shows "readNode ix (broot k) = Inr (node_of k)" "length (nd_items (node_of k)) = bcount k"
proof -
  have T: "T = BNode off (k1 @ c # k2) (s1 @ s2)" and "owned ix fs T" "bal (Suc h) T"
    using assms(1) unfolding mending_def by meson+
  then have "stored (readNode ix) k" "bal h k"
    using assms(2) unfolding T owned_def by auto
  then show "readNode ix (broot k) = Inr (node_of k)" "length (nd_items (node_of k)) = bcount k"
    using stored_root node_of_length by blast+
qed

lemma mending_child:
  assumes "mending ix fs h T off k1 c k2 s1 s2" "i < length (k1 @ c # k2)"
  shows "childAt (node_of T) i = broot ((k1 @ c # k2) ! i)" "length (nd_items (node_of T)) = length s1 + length s2"
proof -
  have T: "T = BNode off (k1 @ c # k2) (s1 @ s2)" "bal (Suc h) T" "length k1 = length s1" "length k2 = length s2"
    using assms(1) unfolding mending_def by meson+
  show "childAt (node_of T) i = broot ((k1 @ c # k2) ! i)"
    using childAt_node [OF T(2) [unfolded T(1)], of i] T(3,4) assms(2) unfolding T(1) by (simp del: node_of.simps)
  show "length (nd_items (node_of T)) = length s1 + length s2"
    using node_of_length [OF T(2)] T(1) by (simp del: node_of.simps)
qed

lemma fixRight_store:
  assumes m: "mending ix fs h T off k1 c k2 s1 s2" and one: "0 < length s1 + length s2"
    and left: "k1 \<noteq> [] \<Longrightarrow> bcount (last k1) \<le> unat (ix_halfPage ix)"
  shows "\<exists>ix' fs' T'. fixRight (node_of T) (length s1) (node_of c) ix = (ix', Inr (node_of T'))
    \<and> mended ix fs (Suc h) T k1 c k2 ix' fs' T'"
proof -
  have len: "length k1 = length s1" "length k2 = length s2"
    using m by (simp_all add: mending_def)
  show ?thesis
  proof (cases k2)
    case (Cons r k2')
    then obtain s s2' where s2: "s2 = s # s2'"
      using len(2) by (cases s2) auto
    note m' = m [unfolded Cons s2]
    have rd: "readNode ix (childAt (node_of T) (Suc (length s1))) = Inr (node_of r)"
        "length (nd_items (node_of r)) = bcount r" "length s1 < length (nd_items (node_of T))"
      using mending_sibling [OF m, of r] mending_child [OF m, of "Suc (length s1)"] len Cons s2
      by (simp_all add: nth_append)
    show ?thesis
    proof (cases "unat (ix_halfPage ix) < bcount r")
      case True
      then show ?thesis
        using mend_rotateLeft [OF m' True] rd Cons by (auto simp: fixRight_def steps)
    next
      case False
      then show ?thesis
        using mend_mergeRight [OF m'] rd Cons by (auto simp: fixRight_def steps)
    qed
  next
    case Nil
    then have s2: "s2 = []"
      using len(2) by simp
    then obtain s1' s where s1: "s1 = s1' @ [s]"
      using one by (cases s1 rule: rev_cases) auto
    then obtain k1' l where k1: "k1 = k1' @ [l]" "length k1' = length s1'"
      using len(1) by (cases k1 rule: rev_cases) auto
    note m' = m [unfolded k1(1) s1]
    have "readNode ix (childAt (node_of T) (length s1')) = Inr (node_of l)"
        "length (nd_items (node_of T)) = length s1"
      using mending_sibling [OF m, of l] mending_child [OF m, of "length s1'"] len k1 s1 s2
      by (simp_all add: nth_append)
    moreover have "childBefore (node_of T) (length s1) = Inr (childAt (node_of T) (length s1'))"
      using s1 by (simp add: childBefore_def)
    ultimately show ?thesis
      using mend_mergeLeft [OF m'] left k1 s1 by (auto simp: fixRight_def steps)
  qed
qed

lemma fixChild_store:
  assumes m: "mending ix fs h T off k1 c k2 s1 s2" and one: "0 < length s1 + length s2"
  shows "\<exists>ix' fs' T'. fixChild (node_of T) (length s1) (node_of c) ix = (ix', Inr (node_of T'))
    \<and> mended ix fs (Suc h) T k1 c k2 ix' fs' T'"
proof (cases s1 rule: rev_cases)
  case Nil
  then have "k1 = []"
    using m by (simp add: mending_def)
  then show ?thesis
    using fixRight_store [OF m one] Nil by (simp add: fixChild_def)
next
  case (snoc s1' s)
  then obtain k1' l where k1: "k1 = k1' @ [l]" "length k1' = length s1'"
    using m by (cases k1 rule: rev_cases) (auto simp: mending_def)
  note m' = m [unfolded k1(1) snoc]
  have rd: "readNode ix (childAt (node_of T) (length s1 - 1)) = Inr (node_of l)" "length (nd_items (node_of l)) = bcount l"
    using mending_sibling [OF m, of l] mending_child [OF m, of "length s1'"] k1 snoc
    by (simp_all add: nth_append)
  show ?thesis
  proof (cases "unat (ix_halfPage ix) < bcount l")
    case True
    then show ?thesis
      using mend_rotateRight [OF m' True] rd k1 snoc by (auto simp: fixChild_def steps)
  next
    case False
    then show ?thesis
      using fixRight_store [OF m one] rd k1 snoc by (auto simp: fixChild_def steps)
  qed
qed

text \<open>With the flag the child returned: either the child is full enough, or it is rebalanced.\<close>

definition child_flag :: "ntx_index \<Rightarrow> btree \<Rightarrow> bool \<Rightarrow> bool" where
  "child_flag ix c uf \<longleftrightarrow> (if uf then bcount c < unat (ix_halfPage ix) else minFill ix \<le> bcount c)"

lemma minFill_half: "ix_halfPage ix = ix_maxItem ix div 2 \<Longrightarrow> minFill ix \<le> unat (ix_halfPage ix)"
  by (simp add: minFill_def unat_div)

lemma rebalance_store:
  assumes wf: "wf_store ix fs" and T: "T = BNode off (k1 @ c # k2) (s1 @ s2)"
    and len: "length k1 = length s1" "length k2 = length s2" and own: "owned ix fs T" and bal: "bal (Suc h) T"
    and fit: "fits (unat (ix_keySize ix)) (unat (ix_maxItem ix)) T" and lim: "ix_fileSize ix \<le> 2 ^ 32"
    and half: "ix_halfPage ix = ix_maxItem ix div 2" and one: "0 < bcount T"
    and flag: "child_flag ix c uf" and lack: "lacking (minFill ix) k1 c k2"
  shows "\<exists>ix' fs' T'. rebalance uf (node_of T) (length s1) (node_of c) ix = (ix', Inr (node_of T'))
    \<and> shrunk ix fs (Suc h) T (inorder T) ix' fs' T' \<and> bcount T \<le> Suc (bcount T') \<and> filled (minFill ix) T'"
proof (cases uf)
  case True
  then have "mending ix fs h T off k1 c k2 s1 s2"
    using assms by (simp add: mending_def child_flag_def)
  then obtain ix' fs' T' where "fixChild (node_of T) (length s1) (node_of c) ix = (ix', Inr (node_of T'))"
      "mended ix fs (Suc h) T k1 c k2 ix' fs' T'"
    using fixChild_store [of ix fs h T off k1 c k2 s1 s2] one T by auto
  then show ?thesis
    using True minFill_half [OF half] lack by (auto simp: rebalance_def mended_def)
next
  case False
  then have "filled (minFill ix) T"
    using flag lack T by (auto simp: child_flag_def lacking_def)
  then show ?thesis
    using shrunk_refl [OF wf own bal fit] False
    by (intro exI [of _ ix] exI [of _ fs] exI [of _ T]) (simp add: rebalance_def returnS_apply)
qed

section \<open>Removing below a node\<close>

text \<open>A tree an operation may remove from.\<close>

definition removable :: "ntx_index \<Rightarrow> nat list \<Rightarrow> nat \<Rightarrow> btree \<Rightarrow> bool" where
  "removable ix fs h t \<longleftrightarrow> wf_store ix fs \<and> owned ix fs t \<and> bal h t
     \<and> fits (unat (ix_keySize ix)) (unat (ix_maxItem ix)) t \<and> filled (minFill ix) t
     \<and> ix_fileSize ix \<le> 2 ^ 32 \<and> ix_halfPage ix = ix_maxItem ix div 2 \<and> 1 \<le> minFill ix"

text \<open>The tree after it, with at most one entry less in its root.\<close>

definition cut_to ::
  "ntx_index \<Rightarrow> nat list \<Rightarrow> nat \<Rightarrow> btree \<Rightarrow> entry list \<Rightarrow> ntx_index \<Rightarrow> nat list \<Rightarrow> btree \<Rightarrow> bool" where
  "cut_to ix fs h t es ix' fs' t' \<longleftrightarrow> shrunk ix fs h t es ix' fs' t' \<and> bcount t \<le> Suc (bcount t')
     \<and> filled (minFill ix) t'"

lemma shrunk_shape:
  assumes "shrunk ix fs h t es ix' fs' t'"
  shows "ix_keySize ix' = ix_keySize ix" "ix_maxItem ix' = ix_maxItem ix" "ix_halfPage ix' = ix_halfPage ix"
    "minFill ix' = minFill ix"
  using assms keeps_shape [of "set (pages t)" ix ix'] by (simp_all add: shrunk_def minFill_def)

lemma removable_child:
  assumes "removable ix fs (Suc h) (BNode off ks ss)" "k \<in> set ks"
  shows "removable ix fs h k" "0 < bcount k" "minFill ix \<le> bcount k"
proof -
  show *: "minFill ix \<le> bcount k"
    using assms by (simp add: removable_def)
  show "removable ix fs h k"
    using assms owned_child [of ix fs off ks ss k] by (auto simp: removable_def)
  show "0 < bcount k"
    using * assms(1) by (simp add: removable_def)
qed

lemma fits_inorder: "fits K M t \<Longrightarrow> bal h t \<Longrightarrow> e \<in> set (inorder t) \<Longrightarrow> length (ent_key e) = K"
proof (induction t arbitrary: h e)
  case (BNode off ks ss)
  then obtain k ks' h' where ks: "ks = k # ks'" "length ks' = length ss" "\<forall>k \<in> set ks. bal h' k"
    by (cases ks) auto
  then have "e \<in> (\<Union>k \<in> set ks. set (inorder k)) \<union> set ss"
    using BNode.prems(3) by (auto simp: interleave_def set_aft)
  then show ?case
    using BNode.IH BNode.prems(1) ks(3) by auto
qed simp

lemma removable_query:
  assumes "removable ix fs h t"
  shows "length (nd_items (node_of t)) = bcount t" "nd_leaf (node_of t) \<longleftrightarrow> h = 0"
    "underflowed ix (node_of t) \<longleftrightarrow> bcount t < unat (ix_halfPage ix)" "readNode ix (broot t) = Inr (node_of t)"
proof -
  have "bal h t" "stored (readNode ix) t"
    using assms by (simp_all add: removable_def owned_def)
  then show "length (nd_items (node_of t)) = bcount t" "nd_leaf (node_of t) \<longleftrightarrow> h = 0"
    "readNode ix (broot t) = Inr (node_of t)"
    using node_of_length node_of_leaf stored_root by blast+
  then show "underflowed ix (node_of t) \<longleftrightarrow> bcount t < unat (ix_halfPage ix)"
    by (simp add: underflowed_def)
qed

lemma cut_underflowed:
  assumes "removable ix fs h t" "shrunk ix fs h t es ix' fs' t'"
  shows "underflowed ix' (node_of t') \<longleftrightarrow> bcount t' < unat (ix_halfPage ix)"
    "child_flag ix' t' (underflowed ix' (node_of t'))"
proof -
  have "bal h t'" and half: "ix_halfPage ix' = ix_maxItem ix' div 2"
    using assms shrunk_shape [OF assms(2)] by (simp_all add: removable_def shrunk_def)
  then show "underflowed ix' (node_of t') \<longleftrightarrow> bcount t' < unat (ix_halfPage ix)"
    using node_of_length [of h t'] shrunk_shape [OF assms(2)] by (simp add: underflowed_def)
  then show "child_flag ix' t' (underflowed ix' (node_of t'))"
    using minFill_half [OF half] shrunk_shape [OF assms(2)] by (auto simp: child_flag_def)
qed

lemma leaf_store:
  assumes r: "removable ix fs 0 (BLeaf off es)" and es: "set es' \<subseteq> set es" "length es' \<le> length es"
    "length es \<le> Suc (length es')"
  shows "\<exists>ix'. writeNode (node_of (BLeaf off es')) ix = (ix', Inr ())
    \<and> cut_to ix fs 0 (BLeaf off es) es' ix' fs (BLeaf off es')"
proof -
  have i: "wf_store ix fs" "owned ix fs (BLeaf off es)" "ix_fileSize ix \<le> 2 ^ 32"
      "fits (unat (ix_keySize ix)) (unat (ix_maxItem ix)) (BLeaf off es')"
    using r es by (auto simp: removable_def)
  have "writable fs ix (node_of (BLeaf off es'))"
    using i owned_page [OF i(1,2), of off] by (intro writable_tree [where h = 0]) auto
  then obtain ix' where w: "writeNode (node_of (BLeaf off es')) ix = (ix', Inr ())" "wf_store ix' fs"
      "ix_root ix' = ix_root ix" "ix_fileSize ix' = ix_fileSize ix" "keeps {off} ix ix'"
      "readNode ix' off = Inr (node_of (BLeaf off es'))"
    using writeNode_store [OF i(1), of "node_of (BLeaf off es')"] by auto
  then have "shrunk ix fs 0 (BLeaf off es) es' ix' fs (BLeaf off es')"
    using i(2,4) by (auto simp: shrunk_def owned_def)
  then show ?thesis
    using w(1) es(3) by (auto simp: cut_to_def)
qed

text \<open>Writing a branch whose separator after child \<open>length k1\<close> changed.\<close>

lemma resep_store:
  assumes wf: "wf_store ix fs" and T: "T = BNode off (k1 @ c # k2) (s1 @ x # s2)"
    and own: "owned ix fs T" and bal: "bal (Suc h) T"
    and fit: "fits (unat (ix_keySize ix)) (unat (ix_maxItem ix)) T" and lim: "ix_fileSize ix \<le> 2 ^ 32"
    and y: "length (ent_key y) = unat (ix_keySize ix)" and T': "T' = BNode off (k1 @ c # k2) (s1 @ y # s2)"
  shows "\<exists>ix'. writeNode (node_of T') ix = (ix', Inr ()) \<and> shrunk ix fs (Suc h) T (inorder T') ix' fs T'"
proof -
  have b: "bal (Suc h) T'" "fits (unat (ix_keySize ix)) (unat (ix_maxItem ix)) T'" "pages T' = pages T"
    using bal fit y T T' by auto
  have lay: "\<forall>p \<in> set (pages T'). 0 < p \<and> pageSize dvd p \<and> p + pageSize \<le> ix_fileSize ix"
    using owned_page [OF wf own] b(3) by auto
  have st: "\<forall>k \<in> set (k1 @ c # k2) - {}. stored (readNode ix) k"
    using own T by (auto simp: owned_def)
  have d: "distinct (pages T')" "set (pages T') \<inter> set fs = {}" "{} \<subseteq> set (k1 @ c # k2)"
      "set [node_of T'] = node_of ` insert T' {}" "distinct (map nd_offset [node_of T'])"
    using own b(3) by (simp_all add: owned_def)
  obtain ix' where w: "seqS writeNode [node_of T'] ix = (ix', Inr ())" "wf_store ix' fs"
      "keeps (broot ` insert T' {}) ix ix'" "same_roots ix ix'" "owned ix' fs T'"
    using rewrite_children [OF wf T' b(1,2) d(1,2) lay lim d(3-5) st] by blast
  have "keeps (set (pages T)) ix ix'"
    using T T' by (intro keeps_mono [OF w(3)]) auto
  moreover have "writeNode (node_of T') ix = (ix', Inr ())"
    using w(1) by (auto simp: bindS_apply returnS_apply split: prod.splits sum.splits simp del: node_of.simps)
  moreover have "broot T' = broot T"
    using T T' by simp
  ultimately show ?thesis
    using w b by (auto simp: shrunk_def same_roots_def)
qed

text \<open>The tail of a step in a branch: child \<open>c\<close> became \<open>c'\<close>, now rebalance.\<close>

lemma mend_after:
  assumes r: "removable ix fs (Suc h) T" and T: "T = BNode off (k1 @ c # k2) (s1 @ s2)"
    and sh: "shrunk ix fs (Suc h) T es ix1 fs1 T1" and T1: "T1 = BNode off (k1 @ c' # k2) (s1' @ s2')"
    and len: "length k1 = length s1" "length s1' = length s1" "length s2' = length s2" "0 < bcount T"
    and c: "bcount c \<le> Suc (bcount c')" "filled (minFill ix) c'" "child_flag ix1 c' uf"
  shows "\<exists>ix2 fs2 T2. rebalance uf (node_of T1) (length s1) (node_of c') ix1 = (ix2, Inr (node_of T2))
    \<and> cut_to ix fs (Suc h) T es ix2 fs2 T2"
proof -
  note sp = shrunk_shape [OF sh]
  have T1': "wf_store ix1 fs1" "owned ix1 fs1 T1" "bal (Suc h) T1"
      "fits (unat (ix_keySize ix1)) (unat (ix_maxItem ix1)) T1" "ix_fileSize ix1 \<le> 2 ^ 32"
      "ix_halfPage ix1 = ix_maxItem ix1 div 2" "inorder T1 = es"
    using sh r sp by (auto simp: shrunk_def removable_def)
  have l2: "length k1 = length s1'" "length k2 = length s2'"
    using T1'(3) T1 len by auto
  have "filled (minFill ix) T"
    using r by (simp add: removable_def)
  then have "lacking (minFill ix1) k1 c' k2"
    using c(1,2) T sp(4) by (auto simp: lacking_def)
  moreover have "0 < bcount T1" "bcount T = bcount T1"
    using len T T1 by auto
  ultimately obtain ix2 fs2 T2 where t: "rebalance uf (node_of T1) (length s1') (node_of c') ix1 = (ix2, Inr (node_of T2))"
      "shrunk ix1 fs1 (Suc h) T1 (inorder T1) ix2 fs2 T2" "bcount T1 \<le> Suc (bcount T2)" "filled (minFill ix1) T2"
    using rebalance_store [OF T1'(1) T1 l2 T1'(2-6)] c(3) by blast
  have "cut_to ix fs (Suc h) T es ix2 fs2 T2"
    using shrunk_trans [OF sh t(2)] t(3,4) T1'(7) sp(4) T T1 len by (simp add: cut_to_def)
  then show ?thesis
    using t(1) len(2) by metis
qed

lemma interleave_last:
  assumes "length k1 = length s1"
  shows "inorder (BNode off (k1 @ [c]) s1) = fore (map inorder k1) s1 @ inorder c"
  using interleave_split [of "map inorder k1" s1 "inorder c" "[]" "[]"] assms by simp

lemma deleteMax_store:
  assumes "removable ix fs h t" "0 < bcount t" "h < fuel"
  shows "\<exists>ix' fs' t'. deleteMax fuel (node_of t) ix
      = (ix', Inr (last (inorder t), underflowed ix' (node_of t'), node_of t'))
    \<and> cut_to ix fs h t (butlast (inorder t)) ix' fs' t'"
  using assms
proof (induction h arbitrary: fuel ix fs t)
  case 0
  then obtain off es f where t: "t = BLeaf off es" "fuel = Suc f" "es \<noteq> []"
    by (cases t; cases fuel) (auto simp: removable_def)
  have es: "set (butlast es) \<subseteq> set es" "length (butlast es) \<le> length es" "length es \<le> Suc (length (butlast es))"
    by (auto dest: in_set_butlastD)
  obtain ix' where w: "writeNode (node_of (BLeaf off (butlast es))) ix = (ix', Inr ())"
      "cut_to ix fs 0 (BLeaf off es) (butlast es) ix' fs (BLeaf off (butlast es))"
    using leaf_store [OF 0(1) [unfolded t(1)] es] by blast
  have run: "deleteMax fuel (node_of t) ix
      = (ix', Inr (last es, underflowed ix' (node_of (BLeaf off (butlast es))), node_of (BLeaf off (butlast es))))"
    using t w(1) by (simp add: Let_def bindS_apply map_butlast last_map)
  show ?case
    unfolding t(1) inorder.simps by (intro exI conjI, rule run [unfolded t(1)], rule w(2))
next
  case (Suc h)
  obtain off ks ss f where t0: "t = BNode off ks ss" and f: "fuel = Suc f" "h < f"
    using Suc.prems by (cases t; cases fuel) (auto simp: removable_def)
  then obtain k1 c where ks: "ks = k1 @ [c]" and len: "length k1 = length ss"
    using Suc.prems(1) by (cases ks rule: rev_cases) (auto simp: removable_def)
  have t: "t = BNode off (k1 @ c # []) (ss @ [])"
    using t0 ks by simp
  have l2: "length ([] :: btree list) = length ([] :: entry list)"
    by simp
  note c = removable_child [OF Suc.prems(1) [unfolded t], of c, simplified]
  obtain ix1 fs1 c' where r: "deleteMax f (node_of c) ix
      = (ix1, Inr (last (inorder c), underflowed ix1 (node_of c'), node_of c'))"
      "cut_to ix fs h c (butlast (inorder c)) ix1 fs1 c'"
    using Suc.IH [OF c(1,2) f(2)] by blast
  have sh: "shrunk ix fs h c (butlast (inorder c)) ix1 fs1 c'" and cc: "bcount c \<le> Suc (bcount c')" "filled (minFill ix) c'"
    using r(2) by (simp_all add: cut_to_def)
  let ?es = "fore (map inorder k1) ss @ butlast (inorder c)" and ?T1 = "BNode off (k1 @ c' # []) (ss @ [])"
  have p: "wf_store ix fs" "owned ix fs t" "bal (Suc h) t" "fits (unat (ix_keySize ix)) (unat (ix_maxItem ix)) t"
    using Suc.prems(1) by (simp_all add: removable_def)
  have sh1: "shrunk ix fs (Suc h) t ?es ix1 fs1 ?T1"
    using shrink_child [OF p(1) t len l2 p(2-4) sh] by simp
  obtain ix2 fs2 T2 where m: "rebalance (underflowed ix1 (node_of c')) (node_of ?T1) (length ss) (node_of c') ix1 = (ix2, Inr (node_of T2))"
      "cut_to ix fs (Suc h) t ?es ix2 fs2 T2"
    using mend_after [OF Suc.prems(1) t sh1 refl len refl refl Suc.prems(2) cc cut_underflowed(2) [OF c(1) sh]] by blast
  have same: "node_of ?T1 = node_of t"
    unfolding t using sh len by (intro node_of_replace) (simp_all add: shrunk_def)
  have ne: "inorder c \<noteq> []"
    using inorder_nonempty c(1,2) unfolding removable_def by blast
  have ord: "last (inorder t) = last (inorder c)" "butlast (inorder t) = ?es"
    using interleave_last [OF len, of off c] ne t0 ks by (simp_all add: butlast_append)
  have q: "length (nd_items (node_of t)) = length ss" "\<not> nd_leaf (node_of t)" "nd_right (node_of t) = broot c"
      "readNode ix (broot c) = Inr (node_of c)"
    using removable_query [OF Suc.prems(1)] removable_query(4) [OF c(1)] t0 ks by (simp_all del: inorder.simps)
  have "deleteMax fuel (node_of t) ix
      = (ix2, Inr (last (inorder t), underflowed ix2 (node_of T2), node_of T2))"
    using f(1) q r(1) m(1) same ord(1) by (simp add: steps del: node_of.simps inorder.simps)
  then show ?case
    using m(2) ord(2) by auto
qed

text \<open>Removal on sorted lists: every occurrence of an entry is the first one.\<close>

lemma remove1_sorted:
  assumes "sorted (xs @ x # ys)"
  shows "remove1 x (xs @ x # ys) = xs @ ys"
proof -
  have "sorted (remove1 x (xs @ x # ys))" "sorted (xs @ ys)"
    by (rule sorted_remove1 [OF assms]) (use assms in \<open>auto simp: sorted_append\<close>)
  moreover have "mset (remove1 x (xs @ x # ys)) = mset (xs @ ys)"
    by simp
  ultimately show ?thesis
    using properties_for_sort sorted_sort_id by metis
qed

lemma aft_beyond:
  fixes x :: "'a::linorder"
  assumes "length ks = length ss" "sorted (aft ss ks)" "ss \<noteq> [] \<longrightarrow> x < hd ss" "y \<in> set (aft ss ks)"
  shows "x < y"
  using aft_above [of ks ss "\<lambda>e. e \<le> x" y] assms by (auto simp: not_le)

lemma first_above:
  fixes es :: "'a::linorder list"
  assumes "sorted es" "s2 = dropWhile (\<lambda>e. e < x) es" "s2 = [] \<or> hd s2 \<noteq> x"
  shows "x \<notin> set es" "s2 \<noteq> [] \<longrightarrow> x < hd s2"
proof -
  show h: "s2 \<noteq> [] \<longrightarrow> x < hd s2"
  proof
    assume ne: "s2 \<noteq> []"
    have "\<not> hd s2 < x"
      using ne hd_dropWhile [of "\<lambda>e. e < x" es] unfolding assms(2) by blast
    moreover have "hd s2 \<noteq> x"
      using ne assms(3) by blast
    ultimately show "x < hd s2"
      by simp
  qed
  have "es = takeWhile (\<lambda>e. e < x) es @ s2"
    using assms(2) by simp
  moreover have "x \<notin> set s2"
    using h sorted_dropWhile [OF assms(1), of "\<lambda>e. e < x"] assms(2) [symmetric] by (cases s2) auto
  ultimately show "x \<notin> set es"
    by (metis Un_iff less_irrefl set_append set_takeWhileD)
qed

definition removed ::
  "ntx_index \<Rightarrow> nat list \<Rightarrow> nat \<Rightarrow> btree \<Rightarrow> entry \<Rightarrow> ntx_index \<Rightarrow> nat list \<Rightarrow> btree \<Rightarrow> bool \<Rightarrow> bool" where
  "removed ix fs h t x ix' fs' t' uf \<longleftrightarrow> cut_to ix fs h t (remove1 x (inorder t)) ix' fs' t'
     \<and> (if uf then bcount t' < unat (ix_halfPage ix) else minFill ix \<le> bcount t' \<or> bcount t \<le> bcount t')"

lemma removed_flag:
  assumes "removed ix fs h t x ix' fs' t' uf" "minFill ix \<le> bcount t"
  shows "child_flag ix' t' uf"
  using assms shrunk_shape [of ix fs h t "remove1 x (inorder t)" ix' fs' t']
  by (auto simp: removed_def cut_to_def child_flag_def split: if_splits)

lemma cut_removed:
  assumes "removable ix fs h t" "cut_to ix fs h t (remove1 x (inorder t)) ix' fs' t'"
  shows "removed ix fs h t x ix' fs' t' (underflowed ix' (node_of t'))"
proof -
  have sh: "shrunk ix fs h t (remove1 x (inorder t)) ix' fs' t'"
    using assms(2) by (simp add: cut_to_def)
  show ?thesis
    using assms cut_underflowed [OF assms(1) sh] shrunk_shape [OF sh]
    by (auto simp: removed_def child_flag_def split: if_splits)
qed

lemma delete_leaf:
  assumes r: "removable ix fs 0 t" and srt: "sorted (inorder t)"
  shows "\<exists>ix' fs' t' uf. deleteRec (Suc f) (node_of t) key recno ix
      = (ix', Inr (Entry key recno \<in> set (inorder t), uf, node_of t'))
    \<and> removed ix fs 0 t (Entry key recno) ix' fs' t' uf"
proof -
  let ?x = "Entry key recno"
  obtain off es where t: "t = BLeaf off es"
    using r by (cases t) (auto simp: removable_def)
  define s1 s2 where s: "s1 = takeWhile (\<lambda>e. e < ?x) es" "s2 = dropWhile (\<lambda>e. e < ?x) es"
  have es: "es = s1 @ s2"
    by (simp add: s)
  have "sorted (node_entries (node_of t))"
    using srt t by simp
  from findInNode_takeWhile [OF this] have i: "findInNode (node_of t) key recno = length s1"
    using t s by simp
  show ?thesis
  proof (cases "s2 = [] \<or> hd s2 \<noteq> ?x")
    case True
    then have x: "?x \<notin> set es"
      using first_above(1) [OF _ s(2)] srt t by simp
    have "\<not> (length s1 < length es \<and> es ! length s1 = ?x)"
      using x nth_mem by force
    then have run: "deleteRec (Suc f) (node_of t) key recno ix = (ix, Inr (?x \<in> set (inorder t), False, node_of t))"
      using i x t node_of_item [of 0 t "length s1"] by (auto simp: Let_def returnS_apply leaf_item_def)
    have rem: "removed ix fs 0 t ?x ix fs t False"
      using r x t shrunk_refl [of ix fs t 0] by (simp add: removed_def cut_to_def removable_def remove1_idem)
    show ?thesis
      by (intro exI conjI, rule run, rule rem)
  next
    case False
    then obtain s2' where s2: "s2 = ?x # s2'"
      by (cases s2) auto
    let ?es = "s1 @ s2'"
    have d: "set ?es \<subseteq> set es" "length ?es \<le> length es" "length es \<le> Suc (length ?es)"
      using es s2 by auto
    obtain ix' where w: "writeNode (node_of (BLeaf off ?es)) ix = (ix', Inr ())"
        "cut_to ix fs 0 (BLeaf off es) ?es ix' fs (BLeaf off ?es)"
      using leaf_store [OF r [unfolded t] d] by blast
    have rm: "remove1 ?x es = ?es"
      unfolding es s2 by (rule remove1_sorted) (use srt t es s2 in simp)
    have nt: "(node_of t)\<lparr>nd_items := take (length s1) (nd_items (node_of t)) @ drop (length s1 + 1) (nd_items (node_of t))\<rparr>
        = node_of (BLeaf off ?es)"
      using t es s2 by (simp add: drop_map take_map)
    have run: "deleteRec (Suc f) (node_of t) key recno ix
        = (ix', Inr (?x \<in> set (inorder t), underflowed ix' (node_of (BLeaf off ?es)), node_of (BLeaf off ?es)))"
      using i nt w(1) removable_query(2) [OF r] t es s2
      by (simp add: Let_def bindS_apply leaf_item_def nth_append)
    have rem: "removed ix fs 0 t ?x ix' fs (BLeaf off ?es) (underflowed ix' (node_of (BLeaf off ?es)))"
      using cut_removed [OF r, of ?x ix' fs "BLeaf off ?es"] w(2) rm t by simp
    show ?thesis
      by (intro exI conjI, rule run, rule rem)
  qed
qed

text \<open>A step in a branch.  The entry is below child \<open>c\<close>, or it is the separator after \<open>c\<close>.\<close>

lemma delete_below:
  assumes r: "removable ix fs (Suc h) t" and t: "t = BNode off (k1 @ c # k2) (s1 @ s2)"
    and len: "length k1 = length s1" "length k2 = length s2" "0 < bcount t"
    and rec: "deleteRec f (node_of c) key recno ix = (ix1, Inr (found, uf, node_of c'))"
      "removed ix fs h c x ix1 fs1 c' uf"
    and i: "findInNode (node_of t) key recno = length s1"
    and exact: "\<not> (length s1 < bcount t \<and> seps t ! length s1 = Entry key recno)"
    and rm: "remove1 x (inorder t) = fore (map inorder k1) s1 @ remove1 x (inorder c) @ aft s2 (map inorder k2)"
  shows "\<exists>ix' fs' t' uf. deleteRec (Suc f) (node_of t) key recno ix = (ix', Inr (found, uf, node_of t'))
    \<and> removed ix fs (Suc h) t x ix' fs' t' uf"
proof -
  have p: "wf_store ix fs" "owned ix fs t" "bal (Suc h) t" "fits (unat (ix_keySize ix)) (unat (ix_maxItem ix)) t"
    using r by (simp_all add: removable_def)
  note c = removable_child [OF r [unfolded t], of c, simplified]
  have sh: "shrunk ix fs h c (remove1 x (inorder c)) ix1 fs1 c'" and cc: "bcount c \<le> Suc (bcount c')" "filled (minFill ix) c'"
    using rec(2) by (simp_all add: removed_def cut_to_def)
  let ?es = "fore (map inorder k1) s1 @ remove1 x (inorder c) @ aft s2 (map inorder k2)"
    and ?T1 = "BNode off (k1 @ c' # k2) (s1 @ s2)"
  have sh1: "shrunk ix fs (Suc h) t ?es ix1 fs1 ?T1"
    by (rule shrink_child [OF p(1) t len(1,2) p(2-4) sh])
  obtain ix2 fs2 T2 where m: "rebalance uf (node_of ?T1) (length s1) (node_of c') ix1 = (ix2, Inr (node_of T2))"
      "cut_to ix fs (Suc h) t ?es ix2 fs2 T2"
    using mend_after [OF r t sh1 refl len(1) refl refl len(3) cc removed_flag [OF rec(2) c(3)]] by blast
  have same: "node_of ?T1 = node_of t"
    unfolding t using sh len by (intro node_of_replace) (simp_all add: shrunk_def)
  have q: "length (nd_items (node_of t)) = bcount t" "\<not> nd_leaf (node_of t)" "childAt (node_of t) (length s1) = broot c"
      "readNode ix (broot c) = Inr (node_of c)"
    using removable_query [OF r] removable_query(4) [OF c(1)] childAt_split [OF p(3) [unfolded t] len(1)] t
    by (simp_all del: node_of.simps)
  have ex: "(length s1 < bcount t \<and> compareEntries (it_key (nd_items (node_of t) ! length s1))
      (it_recno (nd_items (node_of t) ! length s1)) key recno = 0) = False"
    using exact node_of_item [OF p(3), of "length s1"] by auto
  have run: "deleteRec (Suc f) (node_of t) key recno ix = (ix2, Inr (found, underflowed ix2 (node_of T2), node_of T2))"
    unfolding deleteRec.simps Let_def i q(1) ex if_False using q(2-4) rec(1) m(1) same
    by (simp add: steps del: node_of.simps)
  have rem: "removed ix fs (Suc h) t x ix2 fs2 T2 (underflowed ix2 (node_of T2))"
    using m(2) by (intro cut_removed [OF r]) (simp add: rm)
  show ?thesis
    by (intro exI conjI, rule run, rule rem)
qed

lemma delete_separator:
  assumes r: "removable ix fs (Suc h) t" and t: "t = BNode off (k1 @ c # k2) (s1 @ Entry key recno # s2)"
    and len: "length k1 = length s1" and fuel: "h < f" and srt: "sorted (inorder t)"
    and i: "findInNode (node_of t) key recno = length s1"
  shows "\<exists>ix' fs' t' uf. deleteRec (Suc f) (node_of t) key recno ix = (ix', Inr (True, uf, node_of t'))
    \<and> removed ix fs (Suc h) t (Entry key recno) ix' fs' t' uf"
proof -
  let ?x = "Entry key recno" and ?K = "unat (ix_keySize ix)"
  have p: "wf_store ix fs" "owned ix fs t" "bal (Suc h) t" "fits ?K (unat (ix_maxItem ix)) t"
      "ix_fileSize ix \<le> 2 ^ 32"
    using r by (simp_all add: removable_def)
  obtain d k2' where k2: "k2 = d # k2'" "length k2' = length s2"
    using p(3) t len by (cases k2) auto
  have l2: "length k2 = length (?x # s2)"
    using k2 by simp
  note c = removable_child [OF r [unfolded t], of c, simplified]
  obtain ix1 fs1 c' where rec: "deleteMax f (node_of c) ix
      = (ix1, Inr (last (inorder c), underflowed ix1 (node_of c'), node_of c'))"
      "cut_to ix fs h c (butlast (inorder c)) ix1 fs1 c'"
    using deleteMax_store [OF c(1,2) fuel] by blast
  let ?y = "last (inorder c)"
  have sh: "shrunk ix fs h c (butlast (inorder c)) ix1 fs1 c'" and cc: "bcount c \<le> Suc (bcount c')" "filled (minFill ix) c'"
    using rec(2) by (simp_all add: cut_to_def)
  have ne: "inorder c \<noteq> []"
    using inorder_nonempty c(1,2) unfolding removable_def by blast
  let ?F = "fore (map inorder k1) s1" and ?A = "aft s2 (map inorder k2')"
  let ?T1 = "BNode off (k1 @ c' # k2) (s1 @ ?x # s2)" and ?T2 = "BNode off (k1 @ c' # k2) (s1 @ ?y # s2)"
  let ?es = "?F @ inorder c @ inorder d @ ?A"
  have ord: "inorder t = ?F @ inorder c @ ?x # inorder d @ ?A"
    using len k2 unfolding t by (simp add: interleave_split)
  have rm: "remove1 ?x (inorder t) = ?es"
    using remove1_sorted [of "?F @ inorder c" ?x "inorder d @ ?A"] srt unfolding ord by simp
  have sh1: "shrunk ix fs (Suc h) t (?F @ butlast (inorder c) @ aft (?x # s2) (map inorder k2)) ix1 fs1 ?T1"
    by (rule shrink_child [OF p(1) t len l2 p(2-4) sh])
  note sp = shrunk_shape [OF sh1]
  have T1: "wf_store ix1 fs1" "owned ix1 fs1 ?T1" "bal (Suc h) ?T1"
      "fits (unat (ix_keySize ix1)) (unat (ix_maxItem ix1)) ?T1" "ix_fileSize ix1 \<le> 2 ^ 32"
    using sh1 p(5) sp by (auto simp: shrunk_def)
  have "length (ent_key ?y) = ?K"
    using c(1) ne fits_inorder [of ?K "unat (ix_maxItem ix)" c h ?y] by (simp add: removable_def)
  then have y: "length (ent_key ?y) = unat (ix_keySize ix1)"
    using sp by simp
  obtain ix2 where w: "writeNode (node_of ?T2) ix1 = (ix2, Inr ())"
      "shrunk ix1 fs1 (Suc h) ?T1 (inorder ?T2) ix2 fs1 ?T2"
    using resep_store [OF T1(1) refl T1(2-5) y refl] by blast
  have ord2: "inorder ?T2 = ?es"
    using len k2 sh ne by (simp add: interleave_split shrunk_def)
  have sh2: "shrunk ix fs (Suc h) t ?es ix2 fs1 ?T2"
    using shrunk_trans [OF sh1 w(2)] unfolding ord2 .
  have cb: "0 < bcount t"
    using t by simp
  have flag: "child_flag ix2 c' (underflowed ix1 (node_of c'))"
    using cut_underflowed(2) [OF c(1) sh] shrunk_shape [OF w(2)] by (simp add: child_flag_def)
  have lens: "length (?y # s2) = length (?x # s2)"
    by simp
  obtain ix3 fs3 T3 where m: "rebalance (underflowed ix1 (node_of c')) (node_of ?T2) (length s1) (node_of c') ix2 = (ix3, Inr (node_of T3))"
      "cut_to ix fs (Suc h) t ?es ix3 fs3 T3"
    using mend_after [OF r t sh2 refl len refl lens cb cc flag] by blast
  have item: "nd_items (node_of t) ! length s1 = branch_item c ?x"
    unfolding t k2(1) by (rule parent_item [OF len k2(2)])
  have same: "(node_of t)\<lparr>nd_items := (nd_items (node_of t))[length s1 := (nd_items (node_of t) ! length s1)
      \<lparr>it_key := ent_key ?y, it_recno := ent_recno ?y\<rparr>]\<rparr> = node_of ?T2"
  proof -
    have "broot c' = broot c"
      using sh by (simp add: shrunk_def)
    then show ?thesis
      unfolding item unfolding t k2(1) by (rule parent_update [OF len k2(2) _ refl refl])
  qed
  have q: "length (nd_items (node_of t)) = bcount t" "\<not> nd_leaf (node_of t)" "readNode ix (broot c) = Inr (node_of c)"
    using removable_query [OF r] removable_query(4) [OF c(1)] by simp_all
  have ch: "it_child (branch_item c ?x) = broot c" "it_key (branch_item c ?x) = key" "it_recno (branch_item c ?x) = recno"
    by (simp_all add: branch_item_def)
  have ex: "length s1 < bcount t"
    using t by simp
  have run: "deleteRec (Suc f) (node_of t) key recno ix = (ix3, Inr (True, underflowed ix3 (node_of T3), node_of T3))"
    unfolding deleteRec.simps Let_def i q(1) using q(2,3) rec(1) w(1) m(1) same [unfolded item] ex
    by (simp add: item ch steps del: node_of.simps)
  have rem: "removed ix fs (Suc h) t ?x ix3 fs3 T3 (underflowed ix3 (node_of T3))"
    using m(2) by (intro cut_removed [OF r]) (simp add: rm)
  show ?thesis
    by (intro exI conjI, rule run, rule rem)
qed

lemma deleteRec_store:
  assumes "removable ix fs h t" "0 < h \<longrightarrow> 0 < bcount t" "h < fuel" "sorted (inorder t)"
  shows "\<exists>ix' fs' t' uf. deleteRec fuel (node_of t) key recno ix
      = (ix', Inr (Entry key recno \<in> set (inorder t), uf, node_of t'))
    \<and> removed ix fs h t (Entry key recno) ix' fs' t' uf"
  using assms
proof (induction h arbitrary: fuel ix fs t)
  case 0
  then show ?case
    using delete_leaf [of ix fs t] by (cases fuel) auto
next
  case (Suc h)
  let ?x = "Entry key recno"
  obtain off ks ss f where t0: "t = BNode off ks ss" and f: "fuel = Suc f" "h < f"
    using Suc.prems by (cases t; cases fuel) (auto simp: removable_def)
  have bal: "bal (Suc h) t" and srt: "sorted (inorder t)"
    using Suc.prems(1,4) by (simp_all add: removable_def)
  obtain k1 c k2 s1 s2 where sp: "ks = k1 @ c # k2" "ss = s1 @ s2" and len: "length k1 = length s1"
      "length k2 = length s2" and s1: "takeWhile (\<lambda>e. e < ?x) ss = s1" and s2: "dropWhile (\<lambda>e. e < ?x) ss = s2"
      and ord: "inorder (BNode off ks ss) = fore (map inorder k1) s1 @ inorder c @ aft s2 (map inorder k2)"
      and lo: "\<forall>e \<in> set (fore (map inorder k1) s1). e < ?x"
      and hi: "\<forall>e \<in> set (aft s2 (map inorder k2)). \<not> e < ?x" and sc: "sorted (inorder c)"
    by (rule descend_split [OF bal [unfolded t0] srt [unfolded t0] downward_less])
  have t: "t = BNode off (k1 @ c # k2) (s1 @ s2)"
    by (simp only: t0 sp(1) sp(2) [symmetric])
  have "sorted (node_entries (node_of t))"
    using sorted_seps [OF bal srt] by (simp add: node_of_entries [OF bal])
  then have i: "findInNode (node_of t) key recno = length s1"
    unfolding findInNode_takeWhile [OF \<open>sorted (node_entries (node_of t))\<close>] node_of_entries [OF bal]
    using s1 t0 by simp
  have nlo: "?x \<notin> set (fore (map inorder k1) s1)"
    using lo by blast
  show ?case
  proof (cases "s2 = [] \<or> hd s2 \<noteq> ?x")
    case False
    then obtain s2' where s2': "s2 = ?x # s2'"
      by (cases s2) auto
    have "?x \<in> set (inorder t)"
      using inorder_seps [OF bal] t s2' by auto
    then show ?thesis
      using delete_separator [OF Suc.prems(1) t [unfolded s2'] len(1) f(2) srt i] f(1) by simp
  next
    case True
    have "sorted ss"
      using sorted_seps [OF bal srt] t0 by simp
    then have h2: "s2 \<noteq> [] \<longrightarrow> ?x < hd s2"
      using first_above(2) [OF _ s2 [symmetric]] True by blast
    have "sorted (aft s2 (map inorder k2))"
      using srt ord t0 by (simp add: sorted_append)
    then have nhi: "?x \<notin> set (aft s2 (map inorder k2))"
      using aft_beyond [of "map inorder k2" s2 ?x ?x] len(2) h2 by auto
    have ex: "\<not> (length s1 < bcount t \<and> seps t ! length s1 = ?x)"
      using True t by (cases s2) (auto simp: nth_append)
    have rm: "remove1 ?x (inorder t) = fore (map inorder k1) s1 @ remove1 ?x (inorder c) @ aft s2 (map inorder k2)"
      using nlo nhi ord t0 by (simp add: remove1_append remove1_idem)
    have mem: "?x \<in> set (inorder t) \<longleftrightarrow> ?x \<in> set (inorder c)"
      using nlo nhi ord t0 by simp
    note c = removable_child [OF Suc.prems(1) [unfolded t], of c, simplified]
    obtain ix1 fs1 c' uf where rec: "deleteRec f (node_of c) key recno ix = (ix1, Inr (?x \<in> set (inorder c), uf, node_of c'))"
        "removed ix fs h c ?x ix1 fs1 c' uf"
      using Suc.IH [OF c(1) _ f(2) sc] c(2) by blast
    show ?thesis
      unfolding f(1) mem
      by (rule delete_below [OF Suc.prems(1) t len _ rec i ex rm]) (use Suc.prems(2) in simp)
  qed
qed

section \<open>Delete\<close>

text \<open>A valid index whose nodes must not run empty: at least three entries fit a page.\<close>

lemma valid_removable:
  assumes "ntx_valid ix fs h t" "3 \<le> unat (ix_maxItem ix)" "ix_fileSize ix \<le> 2 ^ 32"
  shows "removable ix fs h t"
  using assms by (auto simp: removable_def ntx_valid_def tree_ok_def owned_def minFill_def)

text \<open>An index after a removal whose root is still the root of its tree.\<close>

lemma shrunk_valid:
  assumes "shrunk ix fs h t es ix' fs' t'" "ntx_valid ix fs h t" "filled (minFill ix) t'" "sorted es"
  shows "ntx_valid ix' fs' h t'" "same_shape ix ix'" "no_leak ix fs t \<Longrightarrow> no_leak ix' fs' t'"
proof -
  show "no_leak ix fs t \<Longrightarrow> no_leak ix' fs' t'"
    using assms(1) by (simp add: shrunk_def no_leak_def)
  show "same_shape ix ix'"
    using assms(1) by (simp add: shrunk_def keeps_def)
  show "ntx_valid ix' fs' h t'"
    using assms shrunk_shape [OF assms(1)] shrunk_synced [OF assms(1)]
    by (auto simp: ntx_valid_def tree_ok_def shrunk_def owned_def)
qed

lemma header_valid:
  assumes v: "ntx_valid ix fs h t"
  shows "\<exists>ix'. ntx_writeHeader ix = (ix', Inr ()) \<and> ntx_valid ix' fs h t \<and> header_current ix' \<and> same_shape ix ix'
    \<and> ix_fileSize ix' = ix_fileSize ix"
proof -
  have i: "wf_store ix fs" "synced ix" "owned ix fs t" "ix_root ix = broot t"
    using v by (auto simp: ntx_valid_def tree_ok_def owned_def)
  obtain ix' where w: "ntx_writeHeader ix = (ix', Inr ())" "wf_store ix' fs" "keeps {0} ix ix'"
      "same_roots ix ix'" "header_current ix'"
    using writeHeader_store [OF i(1)] by blast
  have "0 \<notin> set (pages t)"
    using owned_page(1) [OF i(1,3)] by blast
  then have "owned ix' fs t"
    using owned_keeps [OF i(3) w(3)] by simp
  moreover have "synced ix'"
    using i(2) w(2,4) keeps_shape(9) [OF w(3)] by (simp add: synced_def wf_store_def same_roots_def)
  ultimately have "ntx_valid ix' fs h t"
    using v w(2,4) keeps_shape [OF w(3)]
    by (auto simp: ntx_valid_def tree_ok_def owned_def same_roots_def minFill_def)
  then show ?thesis
    using w(1,3,4,5) by (auto simp: keeps_def same_roots_def)
qed

text \<open>A root branch left without separators gives way to its only child.\<close>

lemma collapse_valid:
  assumes v: "ntx_valid ix fs h t" and t: "0 < h" "bcount t = 0" and lim: "ix_fileSize ix \<le> 2 ^ 32"
  shows "\<exists>ix' fs' h' k. t = BNode (broot t) [k] [] \<and> h = Suc h'
    \<and> freePage (broot t) (ix\<lparr>ix_root := broot k\<rparr>) = (ix', Inr ()) \<and> ntx_valid ix' fs' h' k
    \<and> same_shape ix ix' \<and> inorder k = inorder t \<and> ix_fileSize ix' = ix_fileSize ix
    \<and> (no_leak ix fs t \<longrightarrow> no_leak ix' fs' k)"
proof -
  have i: "wf_store ix fs" "synced ix" "owned ix fs t" "bal h t"
    using v by (auto simp: ntx_valid_def tree_ok_def owned_def)
  obtain off ks where t1: "t = BNode off ks []"
    using t i(4) by (cases t) auto
  obtain h' k where k: "h = Suc h'" "ks = [k]" "bal h' k"
    using i(4) t1 by (cases ks) auto
  let ?ix = "ix\<lparr>ix_root := broot k\<rparr>"
  have wf: "wf_store ?ix fs"
    using i(1) by (simp add: wf_store_def)
  have off: "0 < off" "pageSize dvd off" "off + pageSize \<le> ix_fileSize ix" "off \<notin> set fs"
    using owned_page [OF i(1,3), of off] t1 by auto
  have "off + pageSize \<le> length (ix_rw ?ix)" "off < 2 ^ 32"
    using off(3) i(2) lim by (simp_all add: synced_def pageSize_def)
  then obtain ix' where f: "freePage off ?ix = (ix', Inr ())" "wf_store ix' (off # fs)" "keeps {off} ?ix ix'"
      "ix_root ix' = broot k" "ix_fileSize ix' = ix_fileSize ix"
    using freePage_store [OF wf off(1,2,4)] by auto
  have k0: "keeps {} ix ?ix"
    by (simp add: keeps_def same_shape_def)
  have ok: "owned ix fs k" "off \<notin> set (pages k)"
    using i(3) owned_child [of ix fs off ks "[]" k] t1 k(2) by (auto simp: owned_def)
  have kp: "keeps {off} ix ix'"
    using keeps_trans [OF k0 f(3)] by simp
  have "stored (readNode ix') k"
    using ok by (intro stored_keeps [OF _ kp]) (auto simp: owned_def)
  then have own: "stored (readNode ix') k" "distinct (pages k)" "set (pages k) \<inter> set (off # fs) = {}"
    using ok by (auto simp: owned_def)
  note sh = keeps_shape [OF kp]
  have "synced ix'"
    using i(2) f(2,5) sh(9) by (simp add: synced_def wf_store_def)
  then have "ntx_valid ix' (off # fs) h' k"
    using v f(2,4) own k t1 sh by (auto simp: ntx_valid_def tree_ok_def minFill_def)
  moreover have "inorder k = inorder t"
    using t1 k(2) by simp
  moreover have "no_leak ix fs t \<longrightarrow> no_leak ix' (off # fs) k"
    using t1 k(2) f(5) by (simp add: no_leak_def)
  ultimately show ?thesis
    using t1 k f(1,5) kp by (auto simp: keeps_def)
qed

definition removed_index :: "ntx_index \<Rightarrow> nat list \<Rightarrow> btree \<Rightarrow> entry list \<Rightarrow> ntx_index \<Rightarrow> nat list \<Rightarrow> nat \<Rightarrow> btree \<Rightarrow> bool" where
  "removed_index ix fs t es ix' fs' h' t' \<longleftrightarrow> ntx_valid ix' fs' h' t' \<and> same_shape ix ix' \<and> inorder t' = es
     \<and> ix_fileSize ix' = ix_fileSize ix \<and> (no_leak ix fs t \<longrightarrow> no_leak ix' fs' t')"

lemma Delete_store:
  assumes v: "ntx_valid ix fs h t" "rooted h t" and M: "3 \<le> unat (ix_maxItem ix)"
    and lim: "ix_fileSize ix \<le> 2 ^ 32" and key: "normalizeKey ix key = Inr k"
  shows "\<exists>ix' fs' h' t'. ntx_Delete key recno ix = (ix', Inr (Entry k recno \<in> set (inorder t)))
    \<and> removed_index ix fs t (remove1 (Entry k recno) (inorder t)) ix' fs' h' t'
    \<and> (Entry k recno \<in> set (inorder t) \<longrightarrow> rooted h' t' \<and> header_current ix')"
proof -
  let ?x = "Entry k recno"
  have r: "removable ix fs h t"
    by (rule valid_removable [OF v(1) M lim])
  have i: "wf_store ix fs" "tree_ok ix h t" "sorted (inorder t)" "ix_root ix = broot t" "bal h t"
    using v(1) by (auto simp: ntx_valid_def tree_ok_def)
  have root: "readNode ix (ix_root ix) = Inr (node_of t)"
    using removable_query(4) [OF r] i(4) by simp
  have one: "0 < h \<longrightarrow> 0 < bcount t"
    using v(2) by (simp add: rooted_def)
  obtain ix1 fs1 t1 uf where d: "deleteRec (ntx_fuel ix) (node_of t) k recno ix
      = (ix1, Inr (?x \<in> set (inorder t), uf, node_of t1))" "removed ix fs h t ?x ix1 fs1 t1 uf"
    using deleteRec_store [OF r one fuel_enough [OF i(1,2)] i(3), of k recno] by blast
  have sh: "shrunk ix fs h t (remove1 ?x (inorder t)) ix1 fs1 t1" and fl: "filled (minFill ix) t1"
    using d(2) by (simp_all add: removed_def cut_to_def)
  note v1 = shrunk_valid [OF sh v(1) fl sorted_remove1 [OF i(3)]]
  have b1: "bal h t1" "ix_fileSize ix1 = ix_fileSize ix" "inorder t1 = remove1 ?x (inorder t)" "1 \<le> minFill ix"
    using sh r by (simp_all add: shrunk_def removable_def)
  have q: "nd_leaf (node_of t1) \<longleftrightarrow> h = 0" "nd_items (node_of t1) = [] \<longleftrightarrow> bcount t1 = 0"
    using node_of_leaf [OF b1(1)] node_of_length [OF b1(1)] by (simp, metis length_0_conv)
  show ?thesis
  proof (cases "?x \<in> set (inorder t)")
    case False
    have "ntx_Delete key recno ix = (ix1, Inr False)"
      unfolding ntx_Delete_def using key root d(1) False by (simp add: bindS_apply queryS_apply returnS_apply)
    then show ?thesis
      using v1 b1 False by (auto simp: removed_index_def)
  next
    case True
    show ?thesis
    proof (cases "0 < h \<and> bcount t1 = 0")
      case False
      obtain ix2 where w: "ntx_writeHeader ix1 = (ix2, Inr ())" "ntx_valid ix2 fs1 h t1" "header_current ix2"
          "same_shape ix1 ix2" "ix_fileSize ix2 = ix_fileSize ix1"
        using header_valid [OF v1(1)] by blast
      have "ntx_Delete key recno ix = (ix2, Inr True)"
        unfolding ntx_Delete_def using key root d(1) True False q w(1)
        by (auto simp: bindS_apply queryS_apply returnS_apply)
      moreover have "same_shape ix ix2"
        using v1(2) w(4) by (simp add: same_shape_def)
      moreover have "rooted h t1"
        using False by (auto simp: rooted_def)
      moreover have "no_leak ix fs t \<longrightarrow> no_leak ix2 fs1 t1"
        using v1(3) w(5) by (auto simp: no_leak_def)
      ultimately show ?thesis
        using w b1 True by (auto simp: removed_index_def)
    next
      case e: True
      have lim1: "ix_fileSize ix1 \<le> 2 ^ 32"
        using b1(2) lim by simp
      obtain ix2 fs2 h2 c where f: "t1 = BNode (broot t1) [c] []" "h = Suc h2"
          "freePage (broot t1) (ix1\<lparr>ix_root := broot c\<rparr>) = (ix2, Inr ())" "ntx_valid ix2 fs2 h2 c"
          "same_shape ix1 ix2" "inorder c = inorder t1" "ix_fileSize ix2 = ix_fileSize ix1"
          "no_leak ix1 fs1 t1 \<longrightarrow> no_leak ix2 fs2 c"
        using collapse_valid [OF v1(1) conjunct1 [OF e] conjunct2 [OF e] lim1] by blast
      obtain ix3 where w: "ntx_writeHeader ix2 = (ix3, Inr ())" "ntx_valid ix3 fs2 h2 c" "header_current ix3"
          "same_shape ix2 ix3" "ix_fileSize ix3 = ix_fileSize ix2"
        using header_valid [OF f(4)] by blast
      have nr: "nd_right (node_of t1) = broot c"
        by (subst f(1)) simp
      have "ntx_Delete key recno ix = (ix3, Inr True)"
        unfolding ntx_Delete_def using key root d(1) True e q f(3) w(1) nr
        by (simp add: bindS_apply queryS_apply returnS_apply)
      moreover have "same_shape ix ix3"
        using v1(2) f(5) w(4) by (simp add: same_shape_def)
      moreover have "filled (minFill ix) (BNode (broot t1) [c] [])"
        using fl f(1) by simp
      then have "rooted h2 c"
        using b1(4) by (simp add: rooted_def)
      moreover have "no_leak ix fs t \<longrightarrow> no_leak ix3 fs2 c"
        using v1(3) f(8) w(5) by (auto simp: no_leak_def)
      ultimately show ?thesis
        using w f(6,7) b1 True by (auto simp: removed_index_def)
    qed
  qed
qed

end
