(* ===== verification/NtxDeleteSpec.thy ===== *)
theory NtxDeleteSpec
  imports NtxSpec NtxRemove
begin

text \<open>
  \<open>Delete\<close> against the sorted list the index represents.  \<open>holds ix es\<close> is \<open>represents\<close> for an index
  whose branch root has a separator, which is what the rebalancing of \<open>Delete\<close> relies on, and whose
  file has no page but the header, the free list and the tree: \<open>Create\<close> establishes it, \<open>Insert\<close>
  and a \<open>Delete\<close> that finds its entry keep it.  The page count bounds the file by the number of
  entries, so a run of insertions is known not to reach the 32-bit limit of page addresses.
\<close>

definition holds :: "ntx_index \<Rightarrow> entry list \<Rightarrow> bool" where
  "holds ix es \<longleftrightarrow> (\<exists>fs h t. ntx_valid ix fs h t \<and> rooted h t \<and> no_leak ix fs t \<and> inorder t = es)"

lemma holds_represents: "holds ix es \<Longrightarrow> represents ix es"
  by (auto simp: holds_def represents_def)

lemma sample_holds: "sample_index u ix es \<Longrightarrow> holds ix es"
  by (fastforce simp: sample_index_def holds_def rooted_def)

text \<open>Every node but an empty root holds an entry, so there are hardly more pages than entries.\<close>

lemma sum_list_le: "(\<And>x. x \<in> set xs \<Longrightarrow> f x \<le> g x) \<Longrightarrow> sum_list (map f xs) \<le> (sum_list (map g xs) :: nat)"
  by (induction xs) (auto intro: add_mono)

lemma length_aft: "length ks = length ss \<Longrightarrow> length (aft ss ks) = length ss + sum_list (map length ks)"
  by (induction ks ss rule: list_induct2) auto

lemma pages_entries:
  assumes "bal h t" "filled m t" "1 \<le> m"
  shows "length (pages t) \<le> length (inorder t) + (if bcount t = 0 then 1 else 0)"
  using assms
proof (induction t arbitrary: h)
  case (BNode off ks ss)
  then obtain k ks' h' where ks: "ks = k # ks'" "length ks' = length ss" "\<forall>k \<in> set ks. bal h' k"
    by (cases ks) auto
  have "length (pages k) \<le> length (inorder k)" if "k \<in> set ks" for k
    using BNode.IH [OF that, of h'] BNode.prems(2,3) ks(3) that by auto
  then have "sum_list (map (\<lambda>k. length (pages k)) ks) \<le> sum_list (map (\<lambda>k. length (inorder k)) ks)"
    by (rule sum_list_le)
  moreover have "length (inorder (BNode off ks ss)) = sum_list (map (\<lambda>k. length (inorder k)) ks) + length ss"
    using ks by (simp add: interleave_def length_aft comp_def)
  moreover have "length (pages (BNode off ks ss)) = Suc (sum_list (map (\<lambda>k. length (pages k)) ks))"
    by (simp add: length_concat comp_def)
  ultimately show ?case
    by (cases ss) simp_all
qed (simp add: Suc_le_eq)

lemma Insert_holds:
  assumes "holds ix es" "normalizeKey ix key = Inr k" "3 \<le> unat (ix_maxItem ix)" "ix_fileSize ix < 2 ^ 31"
    and "ix_unique ix \<longrightarrow> (\<forall>e \<in> set es. ent_key e \<noteq> k)"
  shows "\<exists>ix'. Insert key recno ix = (ix', Inr True) \<and> holds ix' (insort (Entry k recno) es)
    \<and> header_current ix' \<and> same_shape ix ix' \<and> ix_fileSize ix' \<le> max (ix_fileSize ix) ((length es + 3) * pageSize)"
proof -
  obtain fs h t where v: "ntx_valid ix fs h t" "rooted h t" "no_leak ix fs t" "inorder t = es"
    using assms(1) by (auto simp: holds_def)
  obtain ix' fs' h' t' where i: "Insert key recno ix = (ix', Inr True)"
      "inserted_index ix fs h t (Entry k recno) ix' fs' h' t'"
    using Insert_store [OF v(1) assms(2) fuel_bound [OF v(1) assms(4)]] assms(5) v(4) by blast
  have v': "ntx_valid ix' fs' h' t'" "no_leak ix' fs' t'" "inorder t' = insort (Entry k recno) es" "same_shape ix ix'"
      "fs' = [] \<or> ix_fileSize ix' = ix_fileSize ix"
    using i(2) v(3,4) by (auto simp: inserted_index_def)
  have "1 \<le> minFill ix'"
    using minFill_pos assms(3) v'(4) by (simp add: same_shape_def)
  then have "length (pages t') \<le> length (inorder t') + 1"
    using pages_entries [of h' t' "minFill ix'"] valid_tree(2,6) [OF v'(1)] by (auto split: if_splits)
  then have "(1 + length (pages t')) * pageSize \<le> (length es + 3) * pageSize"
    using v'(3) by (intro mult_le_mono1) simp
  then have "ix_fileSize ix' \<le> max (ix_fileSize ix) ((length es + 3) * pageSize)"
    using v'(2,5) by (auto simp: no_leak_def)
  then show ?thesis
    using i v unfolding inserted_index_def holds_def by blast
qed

lemma Delete_holds:
  assumes "holds ix es" "normalizeKey ix key = Inr k" "3 \<le> unat (ix_maxItem ix)" "ix_fileSize ix \<le> 2 ^ 32"
  shows "\<exists>ix'. ntx_Delete key recno ix = (ix', Inr (Entry k recno \<in> set es)) \<and> same_shape ix ix'
    \<and> ix_fileSize ix' = ix_fileSize ix \<and> represents ix' (remove1 (Entry k recno) es)
    \<and> (Entry k recno \<in> set es \<longrightarrow> holds ix' (remove1 (Entry k recno) es) \<and> header_current ix')"
proof -
  obtain fs h t where v: "ntx_valid ix fs h t" "rooted h t" "no_leak ix fs t" "inorder t = es"
    using assms(1) by (auto simp: holds_def)
  show ?thesis
    using Delete_store [OF v(1,2) assms(3,4,2), of recno] v(3,4)
    unfolding removed_index_def holds_def represents_def by blast
qed

text \<open>C4: \<open>Delete\<close> removes exactly one occurrence of the entry with the given (space padded) key and
  record number and returns true, and the index keeps every invariant, its root included; the
  bytes of the file then reopen to the same handle.  When there is no such entry it returns false
  and the index represents the same entries.  At least three entries must fit a page, which the
  source reaches for every key of at most 245 bytes.\<close>

theorem Delete_removes:
  assumes "holds ix es" "normalizeKey ix key = Inr k" "3 \<le> unat (ix_maxItem ix)" "ix_fileSize ix \<le> 2 ^ 32"
    and "expr_ok ix"
  shows "\<exists>ix'. ntx_Delete key recno ix = (ix', Inr (Entry k recno \<in> set es)) \<and> same_shape ix ix'
    \<and> represents ix' (remove1 (Entry k recno) es)
    \<and> (Entry k recno \<in> set es \<longrightarrow> holds ix' (remove1 (Entry k recno) es) \<and> ntx_Open (ix_rw ix') = Inr ix')"
proof -
  obtain ix' where d: "ntx_Delete key recno ix = (ix', Inr (Entry k recno \<in> set es))" "same_shape ix ix'"
      "ix_fileSize ix' = ix_fileSize ix" "represents ix' (remove1 (Entry k recno) es)"
      "Entry k recno \<in> set es \<longrightarrow> holds ix' (remove1 (Entry k recno) es) \<and> header_current ix'"
    using Delete_holds [OF assms(1-4)] by blast
  have "ntx_Open (ix_rw ix') = Inr ix'" if found: "Entry k recno \<in> set es"
  proof -
    obtain fs h t where v: "ntx_valid ix' fs h t" "header_current ix'"
      using d(5) found unfolding holds_def by blast
    have "expr_ok ix'"
      using assms(5) d(2) by (simp add: expr_ok_def same_shape_def)
    then show ?thesis
      using reopen_store [OF v] assms(4) d(3) by simp
  qed
  then show ?thesis
    using d by blast
qed

theorem Delete_removes_witness:
  "\<exists>ix ix'. holds ix [Entry (sample_key 66) 2] \<and> ntx_Delete [66] 2 ix = (ix', Inr True) \<and> holds ix' []"
proof -
  obtain ix where s: "sample_index True ix [Entry (sample_key 66) 2]"
    using sample_index_one by blast
  then have "3 \<le> unat (ix_maxItem ix)" "ix_fileSize ix \<le> 2 ^ 32" "expr_ok ix"
    by (simp_all add: sample_index_def sample_geom_def expr_ok_def maxKeyExpr_def)
  then show ?thesis
    using Delete_removes [OF sample_holds [OF s] sample_keys [OF s, of 66], of 2] sample_holds [OF s] by auto
qed

end
