(* ===== verification/Lock.thy ===== *)
theory Lock
  imports Prelude
begin

text \<open>
  \<open>blipperdb/lock.go\<close> and \<open>blipperfs/lock_unix.go\<close>: open modes, the \<open>Locker\<close> interface, the lock
  regions, \<open>FLOCK\<close>/\<open>RLOCK\<close>/\<open>UNLOCK\<close> and the write check.  \<open>lock_area\<close> holds the fields of \<open>Area\<close>
  these operations use; theory \<open>Area\<close> extends it.  The system call \<open>fcntl(F_SETLK)\<close> is a
  parameter; the locale \<open>posix_locks\<close> states its documented behaviour, the locale \<open>lock_users\<close> what
  an area relies on, and the first gives the second.
\<close>

section \<open>The Locker interface and its POSIX implementation\<close>

record 'os locker =
  lk_LockRegion :: "int \<Rightarrow> int \<Rightarrow> bool \<Rightarrow> ('os, unit) op"
  lk_UnlockRegion :: "int \<Rightarrow> int \<Rightarrow> ('os, unit) op"

datatype lock_type = F_RDLCK | F_WRLCK | F_UNLCK

record flock =
  fl_type :: lock_type
  fl_start :: int
  fl_len :: int

text \<open>\<open>fcntl os p lk\<close>: process \<open>p\<close> issues \<open>F_SETLK\<close>; the error it returns, if any.\<close>

type_synonym 'os fcntl = "'os \<Rightarrow> nat \<Rightarrow> flock \<Rightarrow> 'os \<times> error option"

definition LockRegion :: "'os fcntl \<Rightarrow> nat \<Rightarrow> int \<Rightarrow> int \<Rightarrow> bool \<Rightarrow> ('os, unit) op" where
  "LockRegion fcntl p off len exclusive os =
     (case fcntl os p \<lparr>fl_type = (if exclusive then F_WRLCK else F_RDLCK), fl_start = off, fl_len = len\<rparr> of
        (os', None) \<Rightarrow> (os', Inr ())
      | (os', Some e) \<Rightarrow> (os', Inl (Wrap ''locking bytes'' e)))"

definition UnlockRegion :: "'os fcntl \<Rightarrow> nat \<Rightarrow> int \<Rightarrow> int \<Rightarrow> ('os, unit) op" where
  "UnlockRegion fcntl p off len os =
     (case fcntl os p \<lparr>fl_type = F_UNLCK, fl_start = off, fl_len = len\<rparr> of
        (os', None) \<Rightarrow> (os', Inr ())
      | (os', Some e) \<Rightarrow> (os', Inl (Wrap ''unlocking bytes'' e)))"

definition lockableFile :: "'os fcntl \<Rightarrow> nat \<Rightarrow> 'os locker" where
  "lockableFile fcntl p = \<lparr>lk_LockRegion = LockRegion fcntl p, lk_UnlockRegion = UnlockRegion fcntl p\<rparr>"

section \<open>Modes, held locks, the lock operations\<close>

datatype open_mode = Exclusive | Shared

record held_lock =
  hl_off :: int
  hl_length :: int
  hl_recno :: u32

record lock_area =
  a_mode :: open_mode
  a_held :: "held_lock option"
  a_recno :: u32

definition lockFileBase :: int where "lockFileBase = 2 ^ 30"

definition lockRecordBase :: int where "lockRecordBase = 2 ^ 31"

definition lockRegionForRecord :: "u32 \<Rightarrow> int \<times> int" where
  "lockRegionForRecord recno = (lockRecordBase + uint recno, 1)"

definition FLock :: "'os locker option \<Rightarrow> ('os \<times> 'a lock_area_scheme, unit) op" where
  "FLock l = (\<lambda>(os, a).
     let hold = a\<lparr>a_held := Some \<lparr>hl_off = lockFileBase, hl_length = 1, hl_recno = 0\<rparr>\<rparr> in
     if a_mode a = Exclusive then ((os, hold), Inr ())
     else case l of
       None \<Rightarrow> ((os, a), Inl ErrLockUnsupported)
     | Some l \<Rightarrow>
       if a_held a \<noteq> None then ((os, a), Inl (Errorf ''already holding a lock''))
       else case lk_LockRegion l lockFileBase 1 True os of
         (os, Inl e) \<Rightarrow> ((os, a), Inl (Wrap ''lock held'' ErrLockHeld))
       | (os, Inr _) \<Rightarrow> ((os, hold), Inr ()))"

definition RLock :: "'os locker option \<Rightarrow> ('os \<times> 'a lock_area_scheme, unit) op" where
  "RLock l = (\<lambda>(os, a).
     if a_recno a = 0 then ((os, a), Inl (Errorf ''no current record to lock''))
     else
       let (off, len) = lockRegionForRecord (a_recno a);
           hold = a\<lparr>a_held := Some \<lparr>hl_off = off, hl_length = len, hl_recno = a_recno a\<rparr>\<rparr> in
       if a_mode a = Exclusive then ((os, hold), Inr ())
       else case l of
         None \<Rightarrow> ((os, a), Inl ErrLockUnsupported)
       | Some l \<Rightarrow>
         if a_held a \<noteq> None then ((os, a), Inl (Errorf ''already holding a lock''))
         else case lk_LockRegion l off len True os of
           (os, Inl e) \<Rightarrow> ((os, a), Inl (Wrap ''lock held'' ErrLockHeld))
         | (os, Inr _) \<Rightarrow> ((os, hold), Inr ()))"

definition Unlock :: "'os locker option \<Rightarrow> ('os \<times> 'a lock_area_scheme, unit) op" where
  "Unlock l = (\<lambda>(os, a).
     case a_held a of
       None \<Rightarrow> ((os, a), Inr ())
     | Some held \<Rightarrow>
       let a = a\<lparr>a_held := None\<rparr> in
       if a_mode a = Exclusive then ((os, a), Inr ())
       else case l of
         None \<Rightarrow> ((os, a), Inr ())
       | Some l \<Rightarrow>
         (case lk_UnlockRegion l (hl_off held) (hl_length held) os of (os, r) \<Rightarrow> ((os, a), r)))"

definition Locked :: "'a lock_area_scheme \<Rightarrow> bool" where
  "Locked a \<longleftrightarrow> a_held a \<noteq> None"

definition checkWritable :: "'a lock_area_scheme \<Rightarrow> u32 \<Rightarrow> error + unit" where
  "checkWritable a recno =
     (if a_mode a = Exclusive then Inr ()
      else case a_held a of
        None \<Rightarrow> Inl ErrNotLocked
      | Some h \<Rightarrow>
        if hl_recno h = 0 then Inr ()
        else if recno = 0 then Inl (Wrap ''needs FLock, not RLock'' ErrNotLocked)
        else if hl_recno h \<noteq> recno then Inl (Wrap ''holding a lock on another record'' ErrNotLocked)
        else Inr ())"

section \<open>What an area relies on\<close>

text \<open>The bytes of a lock, and of the lock an area holds.\<close>

definition lock_span :: "int \<Rightarrow> int \<Rightarrow> int set" where
  "lock_span off len = {off..<off + len}"

definition lock_bytes :: "held_lock \<Rightarrow> int set" where
  "lock_bytes h = lock_span (hl_off h) (hl_length h)"

text \<open>\<open>owns os p\<close>: the bytes user \<open>p\<close> has write-locked.\<close>

locale lock_users =
  fixes L :: "nat \<Rightarrow> 'os locker" and owns :: "'os \<Rightarrow> nat \<Rightarrow> int set"
  assumes lock_ok: "lk_LockRegion (L p) off len True os = (os', Inr u) \<Longrightarrow>
      owns os' p = owns os p \<union> lock_span off len
      \<and> (\<forall>q. q \<noteq> p \<longrightarrow> owns os' q = owns os q \<and> owns os q \<inter> lock_span off len = {})"
    and lock_fail: "lk_LockRegion (L p) off len True os = (os', Inl e) \<Longrightarrow> owns os' = owns os"
    and unlock: "lk_UnlockRegion (L p) off len os = (os', r) \<Longrightarrow>
      owns os' p \<subseteq> owns os p \<and> (\<forall>q. q \<noteq> p \<longrightarrow> owns os' q = owns os q)"

text \<open>The documented behaviour of \<open>F_SETLK\<close>: a lock is granted only on bytes no other process has
  locked for writing, a refusal changes nothing, and no call changes another process's locks.\<close>

locale posix_locks =
  fixes fcntl :: "'os fcntl" and owns :: "'os \<Rightarrow> nat \<Rightarrow> int set"
  assumes write_lock: "fcntl os p \<lparr>fl_type = F_WRLCK, fl_start = off, fl_len = len\<rparr> = (os', None) \<Longrightarrow>
      owns os' p = owns os p \<union> lock_span off len \<and> (\<forall>q. q \<noteq> p \<longrightarrow> owns os q \<inter> lock_span off len = {})"
    and release: "fcntl os p \<lparr>fl_type = F_UNLCK, fl_start = off, fl_len = len\<rparr> = (os', None) \<Longrightarrow>
      owns os' p = owns os p - lock_span off len"
    and others: "fcntl os p lk = (os', None) \<Longrightarrow> q \<noteq> p \<Longrightarrow> owns os' q = owns os q"
    and refused: "fcntl os p lk = (os', Some e) \<Longrightarrow> os' = os"

sublocale posix_locks \<subseteq> users: lock_users "lockableFile fcntl" owns
proof
  fix p off len os os' u
  assume "lk_LockRegion (lockableFile fcntl p) off len True os = (os', Inr u)"
  then have f: "fcntl os p \<lparr>fl_type = F_WRLCK, fl_start = off, fl_len = len\<rparr> = (os', None)"
    by (auto simp: lockableFile_def LockRegion_def split: prod.splits option.splits)
  show "owns os' p = owns os p \<union> lock_span off len
      \<and> (\<forall>q. q \<noteq> p \<longrightarrow> owns os' q = owns os q \<and> owns os q \<inter> lock_span off len = {})"
    using write_lock [OF f] others [OF f] by auto
next
  fix p off len os os' e
  assume "lk_LockRegion (lockableFile fcntl p) off len True os = (os', Inl e)"
  then show "owns os' = owns os"
    by (auto simp: lockableFile_def LockRegion_def split: prod.splits option.splits dest: refused)
next
  fix p off len os os' r
  assume u: "lk_UnlockRegion (lockableFile fcntl p) off len os = (os', r)"
  show "owns os' p \<subseteq> owns os p \<and> (\<forall>q. q \<noteq> p \<longrightarrow> owns os' q = owns os q)"
  proof (cases "fcntl os p \<lparr>fl_type = F_UNLCK, fl_start = off, fl_len = len\<rparr>")
    case (Pair os'' res)
    then show ?thesis
      using u release [of os p off len os''] others [of os p _ os''] refused [of os p _ os'']
      by (cases res) (auto simp: lockableFile_def UnlockRegion_def)
  qed
qed

section \<open>Several users of one table\<close>

text \<open>Each user is an area opened \<open>SHARED\<close> over the same file.  A step is one call by one user:
  a lock operation, whatever it returns, or a move of the record pointer.\<close>

inductive user_step :: "(nat \<Rightarrow> 'os locker) \<Rightarrow> 'os \<times> (nat \<Rightarrow> lock_area) \<Rightarrow> 'os \<times> (nat \<Rightarrow> lock_area) \<Rightarrow> bool"
  for L where
  flock: "FLock (Some (L p)) (os, A p) = ((os', a), r) \<Longrightarrow> user_step L (os, A) (os', A(p := a))"
| rlock: "RLock (Some (L p)) (os, A p) = ((os', a), r) \<Longrightarrow> user_step L (os, A) (os', A(p := a))"
| unlock: "Unlock (Some (L p)) (os, A p) = ((os', a), r) \<Longrightarrow> user_step L (os, A) (os', A(p := a))"
| move: "user_step L (os, A) (os, A(p := (A p)\<lparr>a_recno := recno\<rparr>))"

inductive_cases user_stepE: "user_step L s t"

inductive user_reachable :: "(nat \<Rightarrow> 'os locker) \<Rightarrow> ('os \<Rightarrow> nat \<Rightarrow> int set) \<Rightarrow> 'os \<times> (nat \<Rightarrow> lock_area) \<Rightarrow> bool"
  for L owns where
  start: "(\<And>p. owns os p = {}) \<Longrightarrow> (\<And>p. a_mode (A p) = Shared \<and> a_held (A p) = None) \<Longrightarrow> user_reachable L owns (os, A)"
| step: "user_reachable L owns s \<Longrightarrow> user_step L s t \<Longrightarrow> user_reachable L owns t"

text \<open>The region of a lock is fixed by the record number it carries, 0 for the file.\<close>

definition held_ok :: "held_lock \<Rightarrow> bool" where
  "held_ok h \<longleftrightarrow> hl_length h = 1
     \<and> hl_off h = (if hl_recno h = 0 then lockFileBase else lockRecordBase + uint (hl_recno h))"

lemma held_same_recno: "held_ok h \<Longrightarrow> held_ok h' \<Longrightarrow> hl_recno h = hl_recno h' \<Longrightarrow> lock_bytes h = lock_bytes h'"
  by (auto simp: held_ok_def lock_bytes_def)

lemma held_bytes: "held_ok h \<Longrightarrow> lock_bytes h = {hl_off h}"
  by (auto simp: held_ok_def lock_bytes_def lock_span_def)

text \<open>Two locks are on the same byte only if they are on the same record, or both on the file.\<close>

lemma held_distinct:
  assumes "held_ok h" "held_ok h'" "hl_recno h \<noteq> hl_recno h'"
  shows "lock_bytes h \<inter> lock_bytes h' = {}"
proof -
  have "uint (hl_recno h) \<noteq> uint (hl_recno h')"
    using assms(3) by (metis word_uint_eq_iff)
  moreover have "lockFileBase < lockRecordBase + uint r" for r :: u32
  proof -
    have "(2::int) ^ 30 < 2 ^ 31"
      by simp
    then show ?thesis
      using uint_nonnegative [of r] unfolding lockFileBase_def lockRecordBase_def by linarith
  qed
  ultimately show ?thesis
    using assms(1,2) held_bytes [OF assms(1)] held_bytes [OF assms(2)]
    by (auto simp: held_ok_def split: if_splits) (metis order_less_irrefl)+
qed

definition users_inv :: "('os \<Rightarrow> nat \<Rightarrow> int set) \<Rightarrow> 'os \<times> (nat \<Rightarrow> lock_area) \<Rightarrow> bool" where
  "users_inv owns = (\<lambda>(os, A).
     (\<forall>p. a_mode (A p) = Shared)
     \<and> (\<forall>p h. a_held (A p) = Some h \<longrightarrow> held_ok h \<and> lock_bytes h \<subseteq> owns os p)
     \<and> (\<forall>p q. p \<noteq> q \<longrightarrow> owns os p \<inter> owns os q = {}))"

context lock_users
begin

text \<open>What one call of user \<open>p\<close> may do: nothing, give up its lock, or gain one on free bytes.\<close>

definition change :: "nat \<Rightarrow> 'os \<Rightarrow> 'os \<Rightarrow> 'a lock_area_scheme \<Rightarrow> 'a lock_area_scheme \<Rightarrow> bool" where
  "change p os os' a a' \<longleftrightarrow> a_mode a' = a_mode a \<and> (\<forall>q. q \<noteq> p \<longrightarrow> owns os' q = owns os q)
     \<and> (a_held a' = a_held a \<and> owns os' p = owns os p
        \<or> a_held a' = None \<and> owns os' p \<subseteq> owns os p
        \<or> a_held a' \<noteq> None \<and> held_ok (the (a_held a')) \<and> owns os' p = owns os p \<union> lock_bytes (the (a_held a'))
          \<and> (\<forall>q. q \<noteq> p \<longrightarrow> owns os q \<inter> lock_bytes (the (a_held a')) = {}))"

lemma FLock_change:
  assumes "FLock (Some (L p)) (os, a) = ((os', a'), r)" "a_mode a = Shared"
  shows "change p os os' a a'"
proof (cases "a_held a = None")
  case False
  then show ?thesis
    using assms by (auto simp: FLock_def change_def Let_def)
next
  case True
  obtain os1 res where l: "lk_LockRegion (L p) lockFileBase 1 True os = (os1, res)"
    by fastforce
  show ?thesis
  proof (cases res)
    case (Inl e)
    then show ?thesis
      using assms True l lock_fail [of p lockFileBase 1 os os1 e] by (auto simp: FLock_def change_def Let_def)
  next
    case (Inr u)
    then have "a' = a\<lparr>a_held := Some \<lparr>hl_off = lockFileBase, hl_length = 1, hl_recno = 0\<rparr>\<rparr>" "os' = os1"
      using assms True l by (simp_all add: FLock_def Let_def)
    then show ?thesis
      using lock_ok [of p lockFileBase 1 os os1 u] l Inr by (simp add: change_def held_ok_def lock_bytes_def)
  qed
qed

lemma RLock_change:
  assumes "RLock (Some (L p)) (os, a) = ((os', a'), r)" "a_mode a = Shared"
  shows "change p os os' a a'"
proof (cases "a_held a = None \<and> a_recno a \<noteq> 0")
  case False
  then show ?thesis
    using assms by (auto simp: RLock_def change_def Let_def lockRegionForRecord_def split: if_splits)
next
  case True
  let ?off = "lockRecordBase + uint (a_recno a)"
  obtain os1 res where l: "lk_LockRegion (L p) ?off 1 True os = (os1, res)"
    by fastforce
  show ?thesis
  proof (cases res)
    case (Inl e)
    then show ?thesis
      using assms True l lock_fail [of p ?off 1 os os1 e]
      by (auto simp: RLock_def change_def Let_def lockRegionForRecord_def)
  next
    case (Inr u)
    then have "a' = a\<lparr>a_held := Some \<lparr>hl_off = ?off, hl_length = 1, hl_recno = a_recno a\<rparr>\<rparr>" "os' = os1"
      using assms True l by (simp_all add: RLock_def Let_def lockRegionForRecord_def)
    then show ?thesis
      using lock_ok [of p ?off 1 os os1 u] l Inr True by (simp add: change_def held_ok_def lock_bytes_def)
  qed
qed

lemma Unlock_change:
  assumes "Unlock (Some (L p)) (os, a) = ((os', a'), r)" "a_mode a = Shared"
  shows "change p os os' a a'"
  using assms unlock by (fastforce simp: Unlock_def change_def split: option.splits prod.splits)

lemma change_inv:
  assumes i: "users_inv owns (os, A)" and c: "change p os os' (A p) a"
  shows "users_inv owns (os', A(p := a))"
proof -
  have o: "\<forall>q. q \<noteq> p \<longrightarrow> owns os' q = owns os q" and m: "a_mode a = Shared"
    using i c by (auto simp: change_def users_inv_def)
  have disj: "owns os' q \<inter> owns os' p = {}" if "q \<noteq> p" for q
    using that i c by (fastforce simp: change_def users_inv_def)
  have held: "held_ok h \<and> lock_bytes h \<subseteq> owns os' p" if ah: "a_held a = Some h" for h
  proof -
    consider "a_held (A p) = Some h" "owns os' p = owns os p" | "held_ok h" "owns os' p = owns os p \<union> lock_bytes h"
      using ah c by (auto simp: change_def)
    then show ?thesis
    proof cases
      case 1
      then show ?thesis
        using i unfolding users_inv_def by auto
    qed simp
  qed
  have "owns os' q \<inter> owns os' r = {}" if "q \<noteq> r" for q r
    using that disj [of q] disj [of r] o i by (cases "q = p"; cases "r = p") (auto simp: users_inv_def)
  then show ?thesis
    using i o m held by (auto simp: users_inv_def)
qed

lemma step_inv:
  assumes "users_inv owns s" "user_step L s t"
  shows "users_inv owns t"
  using assms(2)
proof cases
  case (flock p os A os' a r)
  have "a_mode (A p) = Shared"
    using assms(1) flock(1) by (simp add: users_inv_def)
  then show ?thesis
    using change_inv [OF assms(1) [unfolded flock(1)] FLock_change [OF flock(3)]] flock(2) by simp
next
  case (rlock p os A os' a r)
  have "a_mode (A p) = Shared"
    using assms(1) rlock(1) by (simp add: users_inv_def)
  then show ?thesis
    using change_inv [OF assms(1) [unfolded rlock(1)] RLock_change [OF rlock(3)]] rlock(2) by simp
next
  case (unlock p os A os' a r)
  have "a_mode (A p) = Shared"
    using assms(1) unlock(1) by (simp add: users_inv_def)
  then show ?thesis
    using change_inv [OF assms(1) [unfolded unlock(1)] Unlock_change [OF unlock(3)]] unlock(2) by simp
next
  case (move os A p recno)
  then show ?thesis
    using assms(1) by (auto simp: users_inv_def)
qed

lemma reachable_inv: "user_reachable L owns s \<Longrightarrow> users_inv owns s"
proof (induction rule: user_reachable.induct)
  case (start os A)
  then show ?case
    by (auto simp: users_inv_def)
next
  case (step s t)
  then show ?case
    using step_inv by blast
qed

lemma locks_distinct:
  assumes "user_reachable L owns (os, A)" "p \<noteq> q" "a_held (A p) = Some h" "a_held (A q) = Some h'"
  shows "hl_recno h \<noteq> hl_recno h'"
proof
  assume eq: "hl_recno h = hl_recno h'"
  have i: "users_inv owns (os, A)"
    by (rule reachable_inv [OF assms(1)])
  then have ok: "held_ok h" "held_ok h'" "lock_bytes h \<subseteq> owns os p" "lock_bytes h' \<subseteq> owns os q"
      "owns os p \<inter> owns os q = {}"
    using assms by (auto simp: users_inv_def)
  then have "hl_off h \<in> owns os p \<inter> owns os q"
    using held_same_recno [OF ok(1,2) eq] held_bytes [OF ok(1)] by auto
  then show False
    using ok(5) by simp
qed

end

context posix_locks
begin

lemma posix_distinct:
  assumes "user_reachable (lockableFile fcntl) owns (os, A)" "p \<noteq> q"
    and "a_held (A p) = Some h" "a_held (A q) = Some h'"
  shows "hl_recno h \<noteq> hl_recno h'"
  by (rule users.locks_distinct [OF assms])

lemma posix_inv: "user_reachable (lockableFile fcntl) owns s \<Longrightarrow> users_inv owns s"
  by (rule users.reachable_inv)

end

section \<open>A lock table\<close>

text \<open>A table of locked bytes that behaves as \<open>posix_locks\<close> asks: the instance the examples run on.\<close>

type_synonym lock_table = "(nat \<times> int) list"

fun table_fcntl :: "lock_table fcntl" where
  "table_fcntl T p lk =
     (let inside = (\<lambda>b. fl_start lk \<le> b \<and> b < fl_start lk + fl_len lk);
          rest = filter (\<lambda>(q, b). \<not> (q = p \<and> inside b)) T in
      case fl_type lk of
        F_UNLCK \<Rightarrow> (rest, None)
      | t \<Rightarrow>
        if list_ex (\<lambda>(q, b). q \<noteq> p \<and> inside b) T then (T, Some (Errorf ''EAGAIN''))
        else if t = F_WRLCK then (map (Pair p) [fl_start lk..fl_start lk + fl_len lk - 1] @ rest, None)
        else (rest, None))"

definition table_owns :: "lock_table \<Rightarrow> nat \<Rightarrow> int set" where
  "table_owns T p = snd ` set (filter (\<lambda>(q, b). q = p) T)"

lemma table_owns_iff: "b \<in> table_owns T p \<longleftrightarrow> (p, b) \<in> set T"
  by (force simp: table_owns_def)

interpretation table_locks: posix_locks table_fcntl table_owns
proof
  fix os os' :: lock_table and p off len
  assume "table_fcntl os p \<lparr>fl_type = F_WRLCK, fl_start = off, fl_len = len\<rparr> = (os', None)"
  then have n: "\<not> list_ex (\<lambda>(q, b). q \<noteq> p \<and> off \<le> b \<and> b < off + len) os"
    and os': "\<And>q b. (q, b) \<in> set os' \<longleftrightarrow> (q, b) \<in> set os \<or> q = p \<and> b \<in> lock_span off len"
    by (auto simp: Let_def lock_span_def split: if_splits)
  have "(q, b) \<notin> set os \<or> b \<notin> lock_span off len" if "q \<noteq> p" for q b
    using n that by (auto simp: list_ex_iff lock_span_def)
  then show "table_owns os' p = table_owns os p \<union> lock_span off len
      \<and> (\<forall>q. q \<noteq> p \<longrightarrow> table_owns os q \<inter> lock_span off len = {})"
    by (auto simp: os' table_owns_iff)
next
  fix os os' :: lock_table and p off len
  assume "table_fcntl os p \<lparr>fl_type = F_UNLCK, fl_start = off, fl_len = len\<rparr> = (os', None)"
  then show "table_owns os' p = table_owns os p - lock_span off len"
    by (auto simp: table_owns_iff lock_span_def Let_def)
next
  fix os os' :: lock_table and p q lk
  assume "table_fcntl os p lk = (os', None)" "q \<noteq> p"
  then show "table_owns os' q = table_owns os q"
    by (auto simp: table_owns_iff set_eq_iff Let_def split: lock_type.splits if_splits)
next
  fix os os' :: lock_table and p lk e
  assume "table_fcntl os p lk = (os', Some e)"
  then show "os' = os"
    by (auto simp: Let_def split: lock_type.splits if_splits)
qed

text \<open>Two shared areas on record 1 of one file.\<close>

definition sample_users :: "nat \<Rightarrow> lock_area" where
  "sample_users p = \<lparr>a_mode = Shared, a_held = None, a_recno = (if p = 0 then 1 else 2)\<rparr>"

lemma sample_start: "user_reachable (lockableFile table_fcntl) table_owns ([], sample_users)"
  by (rule user_reachable.start) (simp_all add: table_owns_def sample_users_def)

section \<open>The properties\<close>




text \<open>The two locks are on different bytes, so that case does occur: a user with the file lock and a user
  with a record lock may both write the record.\<close>

definition both_os :: lock_table where
  "both_os = [(1, 2147483650), (0, 1073741824)]"

definition both_users :: "nat \<Rightarrow> lock_area" where
  "both_users = sample_users(
     0 := \<lparr>a_mode = Shared, a_held = Some \<lparr>hl_off = 1073741824, hl_length = 1, hl_recno = 0\<rparr>, a_recno = 1\<rparr>,
     1 := \<lparr>a_mode = Shared, a_held = Some \<lparr>hl_off = 2147483650, hl_length = 1, hl_recno = 2\<rparr>, a_recno = 2\<rparr>)"

lemma both_reachable: "user_reachable (lockableFile table_fcntl) table_owns (both_os, both_users)"
proof -
  let ?L = "lockableFile table_fcntl"
  let ?A = "sample_users(0 := \<lparr>a_mode = Shared, a_held = Some \<lparr>hl_off = 1073741824, hl_length = 1, hl_recno = 0\<rparr>,
     a_recno = 1\<rparr>)"
  have "FLock (Some (?L 0)) ([], sample_users 0) = (([(0, 1073741824)], ?A 0), Inr ())"
    by (simp add: FLock_def sample_users_def lockableFile_def LockRegion_def lockFileBase_def)
  from user_step.flock [where L = ?L and A = sample_users and p = 0, OF this]
  have "user_step ?L ([], sample_users) ([(0, 1073741824)], ?A)"
    by simp
  then have r: "user_reachable ?L table_owns ([(0, 1073741824)], ?A)"
    by (rule user_reachable.step [OF sample_start])
  have "RLock (Some (?L 1)) ([(0, 1073741824)], ?A 1) = ((both_os, both_users 1), Inr ())"
    by (simp add: RLock_def sample_users_def lockableFile_def LockRegion_def lockRegionForRecord_def lockRecordBase_def
        both_os_def both_users_def)
  from user_step.rlock [where L = ?L and A = ?A and p = 1, OF this]
  have "user_step ?L ([(0, 1073741824)], ?A) (both_os, both_users)"
    by (simp add: both_users_def)
  then show ?thesis
    by (rule user_reachable.step [OF r])
qed



end
