(* ===== verification/DbfNumeric.thy ===== *)
theory DbfNumeric
  imports Prelude
begin

text \<open>
  \<open>dbf/numeric.go\<close> and \<open>ntx/keys.go\<close>: numbers as fixed-width ASCII.  A \<open>float64\<close> is its bit
  pattern; its value is a rational, so \<open>strconv.FormatFloat(v, 'f', d, 64)\<close>, which rounds the
  exact binary value half to even at the last decimal, is computed exactly.  \<open>strconv.ParseFloat\<close>
  is the correctly rounded value of a text and stays a parameter of the definitions that read.
\<close>

type_synonym u64 = "64 word"

section \<open>IEEE binary64\<close>

definition f64_sign :: "u64 \<Rightarrow> bool" where
  "f64_sign v \<longleftrightarrow> bit v 63"

definition f64_exp :: "u64 \<Rightarrow> nat" where
  "f64_exp v = unat (drop_bit 52 v AND 0x7FF)"

definition f64_mant :: "u64 \<Rightarrow> nat" where
  "f64_mant v = unat (v AND 0xFFFFFFFFFFFFF)"

definition f64_finite :: "u64 \<Rightarrow> bool" where
  "f64_finite v \<longleftrightarrow> f64_exp v \<noteq> 2047"

text \<open>The magnitude of a finite number is \<open>f64_sig v * 2 ^ f64_up v / 2 ^ f64_down v\<close>.\<close>

definition f64_sig :: "u64 \<Rightarrow> nat" where
  "f64_sig v = (if f64_exp v = 0 then f64_mant v else 2 ^ 52 + f64_mant v)"

definition f64_up :: "u64 \<Rightarrow> nat" where
  "f64_up v = f64_exp v - 1075"

definition f64_down :: "u64 \<Rightarrow> nat" where
  "f64_down v = 1075 - (if f64_exp v = 0 then 1 else f64_exp v)"

definition f64_abs :: "u64 \<Rightarrow> u64" where
  "f64_abs v = v AND 0x7FFFFFFFFFFFFFFF"

definition f64_is_zero :: "u64 \<Rightarrow> bool" where
  "f64_is_zero v \<longleftrightarrow> f64_abs v = 0"

section \<open>Decimal text\<close>

text \<open>\<open>dec_digits n\<close> is \<open>strconv.FormatUint(n, 10)\<close>; \<open>dec_fixed k n\<close> the last \<open>k\<close> digits of \<open>n\<close>.\<close>

definition digit :: "nat \<Rightarrow> byte" where
  "digit d = word_of_nat (48 + d mod 10)"

fun dec_digits :: "nat \<Rightarrow> bytes" where
  "dec_digits n = (if n < 10 then [digit n] else dec_digits (n div 10) @ [digit n])"

declare dec_digits.simps [simp del]

fun dec_fixed :: "nat \<Rightarrow> nat \<Rightarrow> bytes" where
  "dec_fixed 0 n = []"
| "dec_fixed (Suc k) n = dec_fixed k (n div 10) @ [digit n]"

definition round_half_even :: "nat \<Rightarrow> nat \<Rightarrow> nat" where
  "round_half_even num den =
     (let q = num div den; r = num mod den in
      if 2 * r > den \<or> 2 * r = den \<and> odd q then q + 1 else q)"

definition FormatInt :: "int \<Rightarrow> bytes" where
  "FormatInt i = (if i < 0 then 0x2D # dec_digits (nat (- i)) else dec_digits (nat i))"

definition f64_scaled :: "u64 \<Rightarrow> nat \<Rightarrow> nat" where
  "f64_scaled v d = round_half_even (f64_sig v * 2 ^ f64_up v * 10 ^ d) (2 ^ f64_down v)"

definition FormatFloat :: "u64 \<Rightarrow> nat \<Rightarrow> bytes" where
  "FormatFloat v d =
     (let n = f64_scaled v d in
      (if f64_sign v then [0x2D] else [])
      @ dec_digits (n div 10 ^ d) @ (if d = 0 then [] else 0x2E # dec_fixed d n))"

text \<open>\<open>strconv.ParseInt(text, 10, 64)\<close>.\<close>

definition is_digit :: "byte \<Rightarrow> bool" where
  "is_digit c \<longleftrightarrow> 0x30 \<le> c \<and> c \<le> 0x39"

definition dec_value :: "bytes \<Rightarrow> nat" where
  "dec_value ds = foldl (\<lambda>n c. 10 * n + (unat c - 48)) 0 ds"

definition ParseInt :: "bytes \<Rightarrow> int option" where
  "ParseInt text =
     (let neg = (case text of c # _ \<Rightarrow> c = 0x2D | [] \<Rightarrow> False);
          ds = (case text of c # cs \<Rightarrow> if c = 0x2D \<or> c = 0x2B then cs else text | [] \<Rightarrow> []) in
      if ds = [] \<or> \<not> list_all is_digit ds then None
      else
        let n = int (dec_value ds) in
        if neg then (if n \<le> 2 ^ 63 then Some (- n) else None)
        else (if n < 2 ^ 63 then Some n else None))"

section \<open>The operations\<close>

definition PadSpace :: byte where "PadSpace = 0x20"

definition PadZero :: byte where "PadZero = 0x30"

definition FormatNumeric :: "u64 \<Rightarrow> int \<Rightarrow> int \<Rightarrow> byte \<Rightarrow> error + bytes" where
  "FormatNumeric v width decimals pad =
     (if width \<le> 0 then Inl (Errorf ''numeric width must be positive'')
      else if decimals < 0 then Inl (Errorf ''numeric decimals must not be negative'')
      else if decimals > 0 \<and> decimals + 2 > width then Inl (Errorf ''decimals need more bytes'')
      else if \<not> f64_finite v then Inl (Errorf ''cannot encode as a numeric field'')
      else
        let text = FormatFloat v (nat decimals) in
        if length text > nat width then Inl (Wrap ''value does not fit'' ErrNumericOverflow)
        else
          let fill = nat width - length text in
          if pad = PadZero \<and> fill > 0 \<and> hd text = 0x2D
          then Inl (Wrap ''negative values cannot be zero padded'' ErrUnsupported)
          else Inr (replicate fill pad @ text))"

definition trimSpaces :: "bytes \<Rightarrow> bytes" where
  "trimSpaces raw = rev (dropWhile (\<lambda>c. c = 0x20) (rev (dropWhile (\<lambda>c. c = 0x20) raw)))"

definition allAsterisks :: "bytes \<Rightarrow> bool" where
  "allAsterisks text \<longleftrightarrow> list_all (\<lambda>c. c = 0x2A) text \<and> text \<noteq> []"

definition ParseNumeric :: "(bytes \<Rightarrow> u64 option) \<Rightarrow> bytes \<Rightarrow> error + u64" where
  "ParseNumeric parseFloat raw =
     (let text = trimSpaces raw in
      if text = [] then Inr 0
      else if allAsterisks text then Inl (Wrap ''field holds an overflow marker'' ErrNumericOverflow)
      else case parseFloat text of
        None \<Rightarrow> Inl (Wrap ''invalid record'' ErrInvalidRecord)
      | Some v \<Rightarrow> Inr v)"

definition NegativeKeyDigit :: "byte \<Rightarrow> byte" where
  "NegativeKeyDigit c = (if c = 0x2E then c else 0x5C - c)"

definition ApplyNegativeKeyTransform :: "bytes \<Rightarrow> bytes" where
  "ApplyNegativeKeyTransform key = map NegativeKeyDigit key"

section \<open>NTX keys\<close>

definition CharKey :: "bytes \<Rightarrow> nat \<Rightarrow> bytes" where
  "CharKey s sz = take sz s @ replicate (sz - length s) 0x20"

definition LogicalKey :: "bool \<Rightarrow> bytes" where
  "LogicalKey b = (if b then [0x54] else [0x46])"

definition NumericKey :: "u64 \<Rightarrow> int \<Rightarrow> int \<Rightarrow> error + bytes" where
  "NumericKey value len decimals =
     (if len \<le> 0 \<or> len > 250 then Inl (Errorf ''bad numeric key length'')
      else
        let negative = (f64_sign value \<and> \<not> f64_is_zero value) in
        bindR (FormatNumeric (f64_abs value) len decimals PadZero) (\<lambda>key.
          Inr (if negative then ApplyNegativeKeyTransform key else key)))"

end
