(* ===== verification/DbfSchema.thy ===== *)
theory DbfSchema
  imports DbfNumeric
begin

text \<open>
  The layout of a \<open>.DBF\<close> file: \<open>dbf/types.go\<close>, \<open>header.go\<close>, \<open>field.go\<close>, \<open>schema.go\<close> and
  \<open>dbasetypes.go\<close>.  A \<open>time.Time\<close> is its UTC calendar fields.  \<open>strings.ToUpper\<close> and
  \<open>strings.TrimSpace\<close> act on the ASCII part of a name and leave the other bytes alone.
\<close>

section \<open>Times\<close>

record gotime =
  t_year :: int
  t_month :: nat
  t_day :: nat
  t_hour :: nat
  t_min :: nat
  t_sec :: nat
  t_nsec :: nat

definition zero_time :: gotime where
  "zero_time = \<lparr>t_year = 1, t_month = 1, t_day = 1, t_hour = 0, t_min = 0, t_sec = 0, t_nsec = 0\<rparr>"

definition leap :: "int \<Rightarrow> bool" where
  "leap y \<longleftrightarrow> y mod 4 = 0 \<and> (y mod 100 \<noteq> 0 \<or> y mod 400 = 0)"

definition days_in :: "int \<Rightarrow> nat \<Rightarrow> nat" where
  "days_in y m = (if m = 2 then (if leap y then 29 else 28)
     else if m = 4 \<or> m = 6 \<or> m = 9 \<or> m = 11 then 30 else 31)"

lemma days_in_pos [simp]: "0 < days_in y m"
  by (simp add: days_in_def)

text \<open>\<open>time.Date\<close> normalizes a month or a day outside its range into the neighbouring ones.\<close>

function norm_days :: "int \<Rightarrow> nat \<Rightarrow> nat \<Rightarrow> int \<times> nat \<times> nat" where
  "norm_days y m d =
     (if d \<le> days_in y m then (y, m, d)
      else if m \<ge> 12 then norm_days (y + 1) 1 (d - days_in y m)
      else norm_days y (m + 1) (d - days_in y m))"
  by pat_completeness auto
termination
  by (relation "measure (\<lambda>(y, m, d). d)") (auto simp: not_le intro!: diff_less)

declare norm_days.simps [simp del]

definition time_Date :: "int \<Rightarrow> int \<Rightarrow> nat \<Rightarrow> gotime" where
  "time_Date y m d =
     (let y = y + (m - 1) div 12; m = nat ((m - 1) mod 12) + 1;
          (y, m, d) = (if d = 0 then (if m = 1 then (y - 1, 12, 31) else (y, m - 1, days_in y (m - 1)))
                       else norm_days y m d)
      in zero_time\<lparr>t_year := y, t_month := m, t_day := d\<rparr>)"

definition valid_date :: "int \<Rightarrow> nat \<Rightarrow> nat \<Rightarrow> bool" where
  "valid_date y m d \<longleftrightarrow> 1 \<le> m \<and> m \<le> 12 \<and> 1 \<le> d \<and> d \<le> days_in y m"

lemma time_Date_valid:
  assumes "valid_date y m d"
  shows "time_Date y (int m) d = zero_time\<lparr>t_year := y, t_month := m, t_day := d\<rparr>"
proof -
  have "(int m - 1) div 12 = 0" "(int m - 1) mod 12 = int m - 1" "Suc (nat (int m - 1)) = m"
    using assms by (auto simp: valid_date_def div_pos_pos_trivial mod_pos_pos_trivial)
  then show ?thesis
    using assms by (auto simp: time_Date_def valid_date_def Let_def norm_days.simps [of y m d])
qed

section \<open>Types\<close>

type_synonym field_type = byte

definition Character :: field_type where "Character = 0x43"
definition Numeric :: field_type where "Numeric = 0x4E"
definition Logical :: field_type where "Logical = 0x4C"
definition Date :: field_type where "Date = 0x44"
definition System :: field_type where "System = 0x30"
definition Float :: field_type where "Float = 0x46"
definition Memo :: field_type where "Memo = 0x4D"
definition Integer :: field_type where "Integer = 0x49"
definition Double :: field_type where "Double = 0x42"
definition Currency :: field_type where "Currency = 0x59"
definition General :: field_type where "General = 0x47"
definition Blob :: field_type where "Blob = 0x57"
definition Varchar :: field_type where "Varchar = 0x56"
definition Varbinary :: field_type where "Varbinary = 0x51"
definition DateTime :: field_type where "DateTime = 0x54"
definition DBaseBinary :: field_type where "DBaseBinary = 0x62"
definition DBaseGeneral :: field_type where "DBaseGeneral = 0x67"

lemmas field_types = Character_def Numeric_def Logical_def Date_def System_def Float_def Memo_def Integer_def
  Double_def Currency_def General_def Blob_def Varchar_def Varbinary_def DateTime_def DBaseBinary_def DBaseGeneral_def

definition isSupportedType :: "field_type \<Rightarrow> bool" where
  "isSupportedType t \<longleftrightarrow> t \<in> {Character, Numeric, Logical, Date, Float, Memo, Varchar, Varbinary}
     \<or> t \<in> {Integer, Double, Currency, General, DateTime, Blob} \<or> t = System
     \<or> t \<in> {DBaseBinary, DBaseGeneral}"

record field =
  f_Name :: bytes
  f_Type :: field_type
  f_Length :: byte
  f_Decimals :: byte
  f_SystemColumn :: bool
  f_Nullable :: bool
  f_Binary :: bool

type_synonym schema = "field list"

record dbf_header =
  h_LastUpdate :: gotime
  h_CodePage :: byte

record header_info =
  hi_recordCount :: u32
  hi_headerSize :: u16
  hi_recordSize :: u16
  hi_versionByte :: byte
  hi_hasMemo :: bool
  hi_tableFlags :: byte

definition dbfVersion :: byte where "dbfVersion = 0x03"
definition dbfVersionMemo :: byte where "dbfVersionMemo = 0x83"
definition dbfVersionFPT :: byte where "dbfVersionFPT = 0xF5"
definition dbfVersionVFP :: byte where "dbfVersionVFP = 0x30"
definition dbfVersionVFPAutoinc :: byte where "dbfVersionVFPAutoinc = 0x31"
definition dbfVersionVFPVarLen :: byte where "dbfVersionVFPVarLen = 0x32"
definition dbfVersionDBaseIV :: byte where "dbfVersionDBaseIV = 0x8B"
definition dbfVersionDBaseIVSQLTable :: byte where "dbfVersionDBaseIVSQLTable = 0x43"
definition dbfVersionDBaseIVSQLSystem :: byte where "dbfVersionDBaseIVSQLSystem = 0x63"

lemmas dbf_versions = dbfVersion_def dbfVersionMemo_def dbfVersionFPT_def dbfVersionVFP_def dbfVersionVFPAutoinc_def
  dbfVersionVFPVarLen_def dbfVersionDBaseIV_def dbfVersionDBaseIVSQLTable_def dbfVersionDBaseIVSQLSystem_def

definition known_versions :: "byte list" where
  "known_versions = [dbfVersion, dbfVersionMemo, dbfVersionFPT, dbfVersionVFP, dbfVersionVFPAutoinc,
     dbfVersionVFPVarLen, dbfVersionDBaseIV, dbfVersionDBaseIVSQLTable, dbfVersionDBaseIVSQLSystem]"

definition fileHeaderSize :: nat where "fileHeaderSize = 32"
definition fieldDescriptorSize :: nat where "fieldDescriptorSize = 32"
definition headerTerminator :: byte where "headerTerminator = 0x0D"
definition fileTerminator :: byte where "fileTerminator = 0x1A"
definition MaxFieldNameLength :: nat where "MaxFieldNameLength = 11"
definition MaxFields :: nat where "MaxFields = (65535 - 33) div 32"
definition MaxRecordSize :: nat where "MaxRecordSize = 65535"
definition dbfBacklinkSize :: nat where "dbfBacklinkSize = 263"
definition headerYearPivot :: byte where "headerYearPivot = 80"

definition isDBaseLineage :: "byte \<Rightarrow> bool" where
  "isDBaseLineage versionByte \<longleftrightarrow> versionByte AND 0x07 = dbfVersion"

definition remapDBaseLineageType :: "field_type \<Rightarrow> bool \<Rightarrow> field_type" where
  "remapDBaseLineageType onDisk lineageIsDBase =
     (if \<not> lineageIsDBase then onDisk
      else if onDisk = 0x42 then DBaseBinary else if onDisk = 0x47 then DBaseGeneral else onDisk)"

definition unmapDBaseLineageType :: "field_type \<Rightarrow> field_type" where
  "unmapDBaseLineageType internal =
     (if internal = DBaseBinary then 0x42 else if internal = DBaseGeneral then 0x47 else internal)"

section \<open>The file header\<close>

definition decodeHeaderDate :: "byte \<Rightarrow> byte \<Rightarrow> byte \<Rightarrow> gotime" where
  "decodeHeaderDate year month day =
     (if year = 0 \<and> month = 0 \<and> day = 0 then zero_time
      else
        let y = (if year < headerYearPivot then 2000 + uint year else 1900 + uint year)
        in time_Date y (uint month) (unat day))"

definition encodeHeaderDate :: "gotime \<Rightarrow> error + bytes" where
  "encodeHeaderDate t =
     (if t = zero_time then Inr [0, 0, 0]
      else if t_year t < 1900 then Inl (Panic ''year out of DBF range'')
      else Inr [word_of_int (t_year t mod 100), word_of_nat (t_month t), word_of_nat (t_day t)])"

definition readHeader :: "bytes \<Rightarrow> error + dbf_header \<times> header_info" where
  "readHeader f =
     bindR (readAt f 0 fileHeaderSize) (\<lambda>raw.
       if raw ! 0 \<notin> set known_versions then Inl (Errorf ''unsupported DBF version'')
       else Inr (\<lparr>h_LastUpdate = decodeHeaderDate (raw ! 1) (raw ! 2) (raw ! 3), h_CodePage = raw ! 29\<rparr>,
                 \<lparr>hi_recordCount = get_u32 (seg 4 4 raw), hi_headerSize = get_u16 (seg 8 2 raw),
                  hi_recordSize = get_u16 (seg 10 2 raw), hi_versionByte = raw ! 0,
                  hi_hasMemo = (raw ! 0 AND 0x80 \<noteq> 0), hi_tableFlags = raw ! 28\<rparr>))"

definition dbf_header_bytes :: "bytes \<Rightarrow> byte \<Rightarrow> u16 \<Rightarrow> u16 \<Rightarrow> u32 \<Rightarrow> byte \<Rightarrow> byte \<Rightarrow> bytes" where
  "dbf_header_bytes date codePage headerSize recordSize recordCount versionByte tableFlags =
     (let raw = replicate fileHeaderSize 0;
          raw = raw[0 := versionByte];
          raw = raw[28 := tableFlags];
          raw = put_at raw 1 date;
          raw = put_at raw 4 (put_u32 recordCount);
          raw = put_at raw 8 (put_u16 headerSize);
          raw = put_at raw 10 (put_u16 recordSize)
      in raw[29 := codePage])"

text \<open>The bytes \<open>writeHeader\<close> writes at its stream's position; every caller is at offset 0.\<close>

definition writeHeader :: "dbf_header \<Rightarrow> u16 \<Rightarrow> u16 \<Rightarrow> u32 \<Rightarrow> byte \<Rightarrow> byte \<Rightarrow> error + bytes" where
  "writeHeader header headerSize recordSize recordCount versionByte tableFlags =
     bindR (encodeHeaderDate (h_LastUpdate header)) (\<lambda>date.
       Inr (dbf_header_bytes date (h_CodePage header) headerSize recordSize recordCount versionByte tableFlags))"

section \<open>Field descriptors\<close>

definition trimRight :: "bytes \<Rightarrow> bytes" where
  "trimRight bs = rev (dropWhile (\<lambda>c. c = 0x20) (rev bs))"

definition decodeFieldName :: "bytes \<Rightarrow> bytes" where
  "decodeFieldName raw = trimRight (takeWhile (\<lambda>c. c \<noteq> 0) raw)"

definition encodeFieldName :: "bytes \<Rightarrow> bytes" where
  "encodeFieldName name =
     take MaxFieldNameLength name @ replicate (MaxFieldNameLength - length name) 0"

definition decode_descriptor :: "bool \<Rightarrow> bytes \<Rightarrow> field" where
  "decode_descriptor lineageIsDBase raw =
     \<lparr>f_Name = decodeFieldName (take MaxFieldNameLength raw),
      f_Type = remapDBaseLineageType (raw ! 11) lineageIsDBase,
      f_Length = raw ! 16, f_Decimals = raw ! 17,
      f_SystemColumn = (raw ! 18 AND 0x01 \<noteq> 0), f_Nullable = (raw ! 18 AND 0x02 \<noteq> 0),
      f_Binary = (raw ! 18 AND 0x04 \<noteq> 0)\<rparr>"

text \<open>\<open>readField\<close> at stream position \<open>off\<close>; \<open>None\<close> is the terminator.\<close>

definition readField :: "bytes \<Rightarrow> nat \<Rightarrow> bool \<Rightarrow> error + field option" where
  "readField f off lineageIsDBase =
     bindR (readAt f off 1) (\<lambda>b.
       if b ! 0 = headerTerminator then Inr None
       else bindR (readAt f (off + 1) (fieldDescriptorSize - 1)) (\<lambda>rest.
         let field = decode_descriptor lineageIsDBase (b @ rest) in
         if \<not> isSupportedType (f_Type field) then Inl (Errorf ''unsupported field type'')
         else Inr (Some field)))"

text \<open>The loop of \<open>readFields\<close>, with the position after the terminator; a descriptor is 32 bytes of
  the file, so the length of the file is fuel enough.\<close>

fun readFieldsLoop :: "nat \<Rightarrow> bytes \<Rightarrow> nat \<Rightarrow> bool \<Rightarrow> error + field list \<times> nat" where
  "readFieldsLoop 0 f off lineageIsDBase = Inl OutOfFuel"
| "readFieldsLoop (Suc fuel) f off lineageIsDBase =
     bindR (readField f off lineageIsDBase) (\<lambda>r. case r of
       None \<Rightarrow> Inr ([], off + 1)
     | Some field \<Rightarrow>
         bindR (readFieldsLoop fuel f (off + fieldDescriptorSize) lineageIsDBase) (\<lambda>(flds, stop).
           Inr (field # flds, stop)))"

definition readFields :: "bytes \<Rightarrow> nat \<Rightarrow> bool \<Rightarrow> error + field list \<times> nat" where
  "readFields f off lineageIsDBase = readFieldsLoop (Suc (length f)) f off lineageIsDBase"

definition field_bytes :: "field \<Rightarrow> bytes" where
  "field_bytes field =
     (let raw = replicate fieldDescriptorSize 0;
          raw = put_at raw 0 (encodeFieldName (f_Name field));
          raw = raw[11 := unmapDBaseLineageType (f_Type field)];
          raw = raw[16 := f_Length field]
      in raw[17 := f_Decimals field])"

definition fields_bytes :: "field list \<Rightarrow> bytes" where
  "fields_bytes flds = concat (map field_bytes flds) @ [headerTerminator]"

section \<open>Schemas\<close>

definition is_space :: "byte \<Rightarrow> bool" where
  "is_space c \<longleftrightarrow> c \<in> {0x09, 0x0A, 0x0B, 0x0C, 0x0D, 0x20}"

definition TrimSpace :: "bytes \<Rightarrow> bytes" where
  "TrimSpace s = rev (dropWhile is_space (rev (dropWhile is_space s)))"

definition upper :: "byte \<Rightarrow> byte" where
  "upper c = (if 0x61 \<le> c \<and> c \<le> 0x7A then c - 0x20 else c)"

definition ToUpper :: "bytes \<Rightarrow> bytes" where
  "ToUpper s = map upper s"

definition record_size :: "schema \<Rightarrow> nat" where
  "record_size flds = 1 + sum_list (map (\<lambda>f. unat (f_Length f)) flds)"

definition RecordSize :: "schema \<Rightarrow> u16" where
  "RecordSize flds = word_of_nat (record_size flds)"

definition HeaderSize :: "schema \<Rightarrow> u16" where
  "HeaderSize flds = word_of_nat (32 + length flds * 32 + 1)"

definition HasMemo :: "schema \<Rightarrow> bool" where
  "HasMemo flds \<longleftrightarrow> list_ex (\<lambda>f. f_Type f = Memo) flds"

definition vfpFieldWidth :: "field_type \<Rightarrow> nat option" where
  "vfpFieldWidth t =
     (if t = Integer then Some 4 else if t = Double then Some 8 else if t = Currency then Some 8
      else if t = General \<or> t = Blob then Some 4 else if t = DateTime then Some 8 else None)"

text \<open>The checks of one field in \<open>validate\<close>, in the order of the switch.\<close>

definition validate_type :: "field \<Rightarrow> error + unit" where
  "validate_type f =
     (let t = f_Type f; len = f_Length f; guard = (\<lambda>bad msg. if bad then Inl (Errorf msg) else Inr ()) in
      if t \<in> {Character, Varchar, Varbinary} then guard (len = 0) ''field has zero length''
      else if t = Numeric then
        (if len = 0 then Inl (Errorf ''numeric field has zero length'')
         else guard (f_Decimals f \<ge> len) ''invalid decimal count'')
      else if t = Float then
        (if len = 0 then Inl (Errorf ''float field has zero length'')
         else guard (f_Decimals f \<ge> len) ''invalid decimal count'')
      else if t = Date then guard (len \<noteq> 8) ''date fields must be 8 bytes''
      else if t = Logical then guard (len \<noteq> 1) ''logical fields occupy one byte''
      else if t = Memo then guard (len \<noteq> 10 \<and> len \<noteq> 4) ''memo fields are 10 bytes or 4 bytes''
      else if t \<in> {DBaseBinary, DBaseGeneral} then guard (len \<noteq> 10) ''dBASE B/G fields are 10 bytes''
      else if t = System then Inr ()
      else if t \<in> {Integer, Double, Currency, General, DateTime, Blob}
        then guard (Some (unat len) \<noteq> vfpFieldWidth t) ''wrong width''
      else Inl (Errorf ''unsupported field type''))"

fun validate_fields :: "bool \<Rightarrow> bytes list \<Rightarrow> schema \<Rightarrow> error + unit" where
  "validate_fields strict names [] = Inr ()"
| "validate_fields strict names (f # fs) =
     (let name = TrimSpace (f_Name f); key = ToUpper name in
      if name = [] then Inl (Errorf ''field has no name'')
      else if length name > MaxFieldNameLength then Inl (Errorf ''field name too long'')
      else if strict \<and> key \<in> set names then Inl (Errorf ''duplicate field'')
      else bindR (validate_type f) (\<lambda>_. validate_fields strict (if strict then key # names else names) fs))"

definition schema_validate :: "bool \<Rightarrow> schema \<Rightarrow> error + unit" where
  "schema_validate strict flds =
     (if flds = [] then Inl (Errorf ''schema contains no fields'')
      else if length flds > MaxFields then Inl (Errorf ''too many fields'')
      else if record_size flds > MaxRecordSize then Inl (Errorf ''record size exceeds the limit'')
      else validate_fields strict [] flds)"

definition Validate :: "schema \<Rightarrow> error + unit" where
  "Validate = schema_validate True"

definition validateForOpen :: "schema \<Rightarrow> error + unit" where
  "validateForOpen = schema_validate False"

section \<open>Headers and descriptors read back\<close>

definition date_only :: "gotime \<Rightarrow> gotime" where
  "date_only t = zero_time\<lparr>t_year := t_year t, t_month := t_month t, t_day := t_day t\<rparr>"

text \<open>The dates the two-digit year of the header can tell apart.\<close>

definition header_date_ok :: "gotime \<Rightarrow> bool" where
  "header_date_ok t \<longleftrightarrow> 1980 \<le> t_year t \<and> t_year t \<le> 2079 \<and> valid_date (t_year t) (t_month t) (t_day t)"

lemma header_year:
  assumes "1980 \<le> y" "y \<le> 2079"
  shows "(if (word_of_int (y mod 100) :: byte) < headerYearPivot then 2000 + uint (word_of_int (y mod 100) :: byte)
    else 1900 + uint (word_of_int (y mod 100) :: byte)) = y"
proof -
  have m: "0 \<le> y mod 100" "y mod 100 < 100"
    by simp_all
  then have u: "uint (word_of_int (y mod 100) :: byte) = y mod 100"
    by (simp add: uint_word_of_int mod_pos_pos_trivial)
  moreover have "(word_of_int (y mod 100) :: byte) < headerYearPivot \<longleftrightarrow> y mod 100 < 80"
    using u by (simp add: word_less_def headerYearPivot_def)
  moreover have "y mod 100 = y - c" if "c = k * 100" "c \<le> y" "y < c + 100" for c k
  proof -
    have "y mod 100 = (y - c + k * 100) mod 100"
      using that(1) by simp
    also have "\<dots> = y - c"
      unfolding mod_mult_self1 using that by (simp add: mod_pos_pos_trivial)
    finally show ?thesis .
  qed
  from this [of 1900 19] this [of 2000 20] have "y mod 100 = (if y < 2000 then y - 1900 else y - 2000)"
    using assms by simp
  ultimately show ?thesis
    using assms by auto
qed

lemma length_dbf_header_bytes [simp]: "length (dbf_header_bytes d cp hs rs rc vb tf) = 32"
  by (simp add: dbf_header_bytes_def Let_def fileHeaderSize_def)

lemma put_at_nth_other: "i < length raw \<Longrightarrow> i < off \<or> off + length bs \<le> i \<Longrightarrow> put_at raw off bs ! i = raw ! i"
  by (auto simp: nth_put_at)

lemma seg_list_update: "off + n \<le> length raw \<Longrightarrow> i < off \<or> off + n \<le> i \<Longrightarrow> seg off n (raw[i := x]) = seg off n raw"
  by (intro nth_equalityI) (auto simp: nth_list_update)

lemma header_bytes_fields:
  assumes "length date = 3" "raw = dbf_header_bytes date cp hs rs rc vb tf"
  shows "raw ! 0 = vb" "raw ! 1 = date ! 0" "raw ! 2 = date ! 1" "raw ! 3 = date ! 2" "raw ! 28 = tf" "raw ! 29 = cp"
    and "get_u32 (seg 4 4 raw) = rc" "get_u16 (seg 8 2 raw) = hs" "get_u16 (seg 10 2 raw) = rs"
  using assms
  by (simp_all add: dbf_header_bytes_def Let_def fileHeaderSize_def nth_put_at nth_list_update seg_list_update
      seg_put_at_same seg_put_at_other get_put_u32 get_put_u16)

lemma readHeader_bytes:
  assumes "length date = 3" "vb \<in> set known_versions"
  shows "readHeader (dbf_header_bytes date cp hs rs rc vb tf @ rest)
    = Inr (\<lparr>h_LastUpdate = decodeHeaderDate (date ! 0) (date ! 1) (date ! 2), h_CodePage = cp\<rparr>,
        \<lparr>hi_recordCount = rc, hi_headerSize = hs, hi_recordSize = rs, hi_versionByte = vb,
         hi_hasMemo = (vb AND 0x80 \<noteq> 0), hi_tableFlags = tf\<rparr>)"
proof -
  let ?raw = "dbf_header_bytes date cp hs rs rc vb tf"
  have "readAt (?raw @ rest) 0 fileHeaderSize = Inr ?raw"
    by (simp add: readAt_def fileHeaderSize_def seg_def)
  then show ?thesis
    using assms header_bytes_fields [OF assms(1) refl] by (simp add: readHeader_def)
qed

lemma encodeHeaderDate_decode:
  assumes "header_date_ok t" "encodeHeaderDate t = Inr date"
  shows "length date = 3" "decodeHeaderDate (date ! 0) (date ! 1) (date ! 2) = date_only t"
proof -
  have y: "1980 \<le> t_year t" "t_year t \<le> 2079" and v: "valid_date (t_year t) (t_month t) (t_day t)"
    using assms(1) by (auto simp: header_date_ok_def)
  have "t \<noteq> zero_time"
    using y by (auto simp: zero_time_def)
  then have d: "date = [word_of_int (t_year t mod 100), word_of_nat (t_month t), word_of_nat (t_day t)]"
    using assms(2) y by (simp add: encodeHeaderDate_def)
  then show "length date = 3"
    by simp
  have b: "t_month t \<le> 12" "t_day t \<le> 31" "1 \<le> t_month t"
    using v by (auto simp: valid_date_def days_in_def split: if_splits)
  then have u: "unat (word_of_nat (t_month t) :: byte) = t_month t" "unat (word_of_nat (t_day t) :: byte) = t_day t"
    by (simp_all add: unat_of_nat)
  then have "uint (word_of_nat (t_month t) :: byte) = int (t_month t)" "(word_of_nat (t_month t) :: byte) \<noteq> 0"
    using b(3) by (auto simp: uint_nat)
  with u show "decodeHeaderDate (date ! 0) (date ! 1) (date ! 2) = date_only t"
    using header_year [OF y] time_Date_valid [OF v] by (simp add: decodeHeaderDate_def d date_only_def Let_def)
qed

text \<open>The fields a descriptor can hold: an 11-byte name without NUL, without trailing blanks and not
  starting with the header terminator; no flags; a type its lineage reads back.\<close>

definition field_storable :: "bool \<Rightarrow> field \<Rightarrow> bool" where
  "field_storable lineage f \<longleftrightarrow> length (f_Name f) \<le> MaxFieldNameLength \<and> list_all (\<lambda>c. c \<noteq> 0) (f_Name f)
     \<and> (f_Name f \<noteq> [] \<longrightarrow> last (f_Name f) \<noteq> 0x20 \<and> hd (f_Name f) \<noteq> headerTerminator)
     \<and> isSupportedType (f_Type f)
     \<and> remapDBaseLineageType (unmapDBaseLineageType (f_Type f)) lineage = f_Type f
     \<and> \<not> f_SystemColumn f \<and> \<not> f_Nullable f \<and> \<not> f_Binary f"

lemma trimRight_id: "(xs \<noteq> [] \<Longrightarrow> last xs \<noteq> 0x20) \<Longrightarrow> trimRight xs = xs"
  by (cases xs rule: rev_cases) (auto simp: trimRight_def)

lemma length_field_bytes [simp]: "length (field_bytes f) = 32"
  by (simp add: field_bytes_def Let_def fieldDescriptorSize_def)

lemma length_encodeFieldName [simp]: "length (encodeFieldName name) = 11"
  by (simp add: encodeFieldName_def MaxFieldNameLength_def)

lemma decodeFieldName_encode:
  assumes "length name \<le> MaxFieldNameLength" "list_all (\<lambda>c. c \<noteq> 0) name" "name \<noteq> [] \<Longrightarrow> last name \<noteq> 0x20"
  shows "decodeFieldName (encodeFieldName name) = name"
proof -
  have "takeWhile (\<lambda>c. c \<noteq> 0) (name @ replicate n 0) = name" for n
    using assms(2) by (cases n) (auto simp: takeWhile_append list_all_iff)
  then show ?thesis
    using assms(1) trimRight_id [OF assms(3)] by (simp add: decodeFieldName_def encodeFieldName_def)
qed

lemma field_bytes_parts:
  "take MaxFieldNameLength (field_bytes f) = encodeFieldName (f_Name f)"
  "field_bytes f ! 11 = unmapDBaseLineageType (f_Type f)" "field_bytes f ! 16 = f_Length f"
  "field_bytes f ! 17 = f_Decimals f" "field_bytes f ! 18 = 0"
proof -
  have "seg 0 11 (field_bytes f) = encodeFieldName (f_Name f)"
    by (simp add: field_bytes_def Let_def fieldDescriptorSize_def seg_list_update seg_put_at_same)
  then show "take MaxFieldNameLength (field_bytes f) = encodeFieldName (f_Name f)"
    by (simp add: seg_def MaxFieldNameLength_def)
qed (simp_all add: field_bytes_def Let_def fieldDescriptorSize_def nth_list_update nth_put_at)

lemma decode_field_bytes:
  assumes "field_storable lineage f"
  shows "decode_descriptor lineage (field_bytes f) = f"
  using assms decodeFieldName_encode [of "f_Name f"]
  by (intro field.equality) (auto simp: decode_descriptor_def field_bytes_parts field_storable_def)

lemma field_bytes_first:
  assumes "field_storable lineage f"
  shows "field_bytes f ! 0 \<noteq> headerTerminator"
proof -
  have "field_bytes f ! 0 = take MaxFieldNameLength (field_bytes f) ! 0"
    by (simp add: MaxFieldNameLength_def)
  also have "\<dots> = (if f_Name f = [] then 0 else hd (f_Name f))"
    unfolding field_bytes_parts by (cases "f_Name f") (auto simp: encodeFieldName_def MaxFieldNameLength_def)
  finally show ?thesis
    using assms by (auto simp: field_storable_def headerTerminator_def split: if_splits)
qed

lemma readField_stored:
  assumes "field_storable lineage f"
  shows "readField (pre @ field_bytes f @ post) (length pre) lineage = Inr (Some f)"
proof -
  obtain c cs where c: "field_bytes f = c # cs" "length cs = 31"
    using length_field_bytes [of f] by (cases "field_bytes f") auto
  then have b: "readAt (pre @ field_bytes f @ post) (length pre) 1 = Inr [field_bytes f ! 0]"
    by (simp add: readAt_def seg_def)
  have "readAt (pre @ field_bytes f @ post) (length pre + 1) 31 = Inr (drop 1 (field_bytes f))"
    using c by (simp add: readAt_def seg_def)
  moreover have "[field_bytes f ! 0] @ drop 1 (field_bytes f) = field_bytes f"
    using c by simp
  ultimately show ?thesis
    using b decode_field_bytes [OF assms] field_bytes_first [OF assms] assms
    by (simp add: readField_def fieldDescriptorSize_def Let_def field_storable_def)
qed

lemma readFieldsLoop_stored:
  assumes "list_all (field_storable lineage) fs" "length fs < fuel"
  shows "readFieldsLoop fuel (pre @ fields_bytes fs @ post) (length pre) lineage
    = Inr (fs, length pre + 32 * length fs + 1)"
  using assms
proof (induction fs arbitrary: fuel pre)
  case Nil
  then show ?case
    by (cases fuel) (simp_all add: fields_bytes_def readField_def readAt_def seg_def headerTerminator_def)
next
  case (Cons f fs)
  obtain n where n: "fuel = Suc n" "length fs < n"
    using Cons.prems(2) by (cases fuel) auto
  have s: "pre @ fields_bytes (f # fs) @ post = pre @ field_bytes f @ (fields_bytes fs @ post)"
    by (simp add: fields_bytes_def)
  have "readFieldsLoop n ((pre @ field_bytes f) @ fields_bytes fs @ post) (length (pre @ field_bytes f)) lineage
      = Inr (fs, length (pre @ field_bytes f) + 32 * length fs + 1)"
    using Cons.prems n by (intro Cons.IH) simp_all
  then show ?case
    unfolding s n(1) using readField_stored [of lineage f pre "fields_bytes fs @ post"] Cons.prems(1)
    by (simp add: fieldDescriptorSize_def)
qed

lemma readFields_stored:
  assumes "list_all (field_storable lineage) fs"
  shows "readFields (pre @ fields_bytes fs @ post) (length pre) lineage = Inr (fs, length pre + 32 * length fs + 1)"
proof -
  have "length (concat (map field_bytes fs)) = 32 * length fs"
    by (induction fs) simp_all
  then show ?thesis
    unfolding readFields_def using assms by (intro readFieldsLoop_stored) (simp_all add: fields_bytes_def)
qed

end
