(* ===== verification/DbfRecord.thy ===== *)
theory DbfRecord
  imports DbfSchema
begin

text \<open>
  Records and their bytes: \<open>dbf/record.go\<close>, \<open>record_codec.go\<close>, \<open>vfptypes.go\<close>, \<open>nullflags.go\<close> and the
  text codec of \<open>codepage.go\<close>.  A Go \<open>any\<close> is the sum \<open>value\<close>; the integer kinds are carried as the
  64 bits the code converts them to.  \<open>strconv.ParseFloat\<close> and the character tables of
  \<open>golang.org/x/text\<close> are parameters.  A float out of the range of \<open>int64\<close> converts as on amd64.
\<close>

datatype "value" =
    VNil
  | VStr bytes
  | VBytes bytes
  | VInt u64
  | VUint u64
  | VF32 u32
  | VF64 u64
  | VBool bool
  | VTime gotime
  | VCurrency u64

record dbf_record =
  r_Deleted :: bool
  r_Values :: "value list"

section \<open>Conversions between numbers\<close>

fun bitlen :: "nat \<Rightarrow> nat" where
  "bitlen n = (if n = 0 then 0 else Suc (bitlen (n div 2)))"

declare bitlen.simps [simp del]

text \<open>The double nearest to \<open>num / 2 ^ down\<close>, ties to even.\<close>

definition f64_of_dyadic :: "bool \<Rightarrow> nat \<Rightarrow> nat \<Rightarrow> u64" where
  "f64_of_dyadic neg num down =
     (let s = (if neg then 2 ^ 63 else 0) in
      if num = 0 then word_of_nat s
      else
        let e = int (bitlen num) - 1 - int down;
            lsb = max (e - 52) (- 1074);
            sh = int down + lsb;
            m = (if sh \<ge> 0 then round_half_even num (2 ^ nat sh) else num * 2 ^ nat (- sh));
            bits = (if m < 2 ^ 52 then m else nat (lsb + 1075) * 2 ^ 52 + (m - 2 ^ 52))
        in word_of_nat (s + min bits (2047 * 2 ^ 52)))"

definition f64_of_int :: "int \<Rightarrow> u64" where
  "f64_of_int i = f64_of_dyadic (i < 0) (nat \<bar>i\<bar>) 0"

definition f64_of_f32 :: "u32 \<Rightarrow> u64" where
  "f64_of_f32 v =
     (let ex = unat (drop_bit 23 v AND 0xFF); m = unat (v AND 0x7FFFFF);
          s = (if bit v 31 then 2 ^ 63 else 0) in
      if ex = 255 then word_of_nat (s + 2047 * 2 ^ 52 + m * 2 ^ 29)
      else if ex = 0 then f64_of_dyadic (bit v 31) m 149
      else word_of_nat (s + (ex + 896) * 2 ^ 52 + m * 2 ^ 29))"

text \<open>\<open>int64(n)\<close> when it is exact.\<close>

definition f64_to_int :: "u64 \<Rightarrow> u64 option" where
  "f64_to_int v =
     (let num = f64_sig v * 2 ^ f64_up v; den = 2 ^ f64_down v; k = num div den in
      if \<not> f64_finite v \<or> num mod den \<noteq> 0 then None
      else if f64_sign v then (if k \<le> 2 ^ 63 then Some (- word_of_nat k) else None)
      else if k < 2 ^ 63 then Some (word_of_nat k) else None)"

fun intValue :: "value \<Rightarrow> u64 option" where
  "intValue (VInt n) = Some n"
| "intValue (VUint n) = Some n"
| "intValue (VF32 n) = f64_to_int (f64_of_f32 n)"
| "intValue (VF64 n) = f64_to_int n"
| "intValue _ = None"

fun floatValue :: "value \<Rightarrow> u64 option" where
  "floatValue (VInt n) = Some (f64_of_int (sint n))"
| "floatValue (VUint n) = Some (f64_of_int (uint n))"
| "floatValue (VF32 n) = Some (f64_of_f32 n)"
| "floatValue (VF64 n) = Some n"
| "floatValue _ = None"

fun stringValue :: "value \<Rightarrow> bytes option" where
  "stringValue VNil = Some []"
| "stringValue (VStr s) = Some s"
| "stringValue _ = None"

section \<open>The Visual FoxPro types\<close>

definition put_u64 :: "u64 \<Rightarrow> bytes" where
  "put_u64 v = put_u32 (ucast v) @ put_u32 (ucast (drop_bit 32 v))"

definition get_u64 :: "bytes \<Rightarrow> u64" where
  "get_u64 b = ucast (get_u32 (seg 0 4 b)) OR push_bit 32 (ucast (get_u32 (seg 4 4 b)))"

definition toInt64 :: "value \<Rightarrow> error + u64" where
  "toInt64 v = (case intValue v of Some n \<Rightarrow> Inr n | None \<Rightarrow> Inl (Errorf ''cannot store in an integer field''))"

definition toFloat64 :: "value \<Rightarrow> error + u64" where
  "toFloat64 v =
     (case v of
        VF64 n \<Rightarrow> Inr n
      | VF32 n \<Rightarrow> Inr (f64_of_f32 n)
      | _ \<Rightarrow> (case intValue v of
          Some i \<Rightarrow> Inr (f64_of_int (sint i))
        | None \<Rightarrow> Inl (Errorf ''cannot store in a numeric field'')))"

text \<open>\<open>int64(math.Round(v * currencyScale))\<close>: the product is a double again.\<close>

definition round_currency :: "u64 \<Rightarrow> u64" where
  "round_currency v =
     (if \<not> f64_finite v then 0x8000000000000000
      else
        let p = f64_of_dyadic (f64_sign v) (f64_sig v * 2 ^ f64_up v * 10000) (f64_down v);
            k = (2 * (f64_sig p * 2 ^ f64_up p) + 2 ^ f64_down p) div (2 * 2 ^ f64_down p)
        in if \<not> f64_finite p \<or> k \<ge> 2 ^ 63 then 0x8000000000000000
           else if f64_sign p then - word_of_nat k else word_of_nat k)"

text \<open>Julian day numbers, with Go's truncating division; the operands are not negative here.\<close>

definition encodeJulianDateTime :: "gotime \<Rightarrow> u32 \<times> u32" where
  "encodeJulianDateTime t =
     (let y = t_year t; mo = int (t_month t); d = int (t_day t);
          a = (14 - mo) div 12; y2 = y + 4800 - a; m2 = mo + 12 * a - 3;
          jdn = d + (153 * m2 + 2) div 5 + 365 * y2 + y2 div 4 - y2 div 100 + y2 div 400 - 32045;
          ms = t_hour t * 3600000 + t_min t * 60000 + t_sec t * 1000 + t_nsec t div 1000000
      in (word_of_int jdn, word_of_nat ms))"

definition decodeJulianDateTime :: "u32 \<Rightarrow> u32 \<Rightarrow> gotime" where
  "decodeJulianDateTime day ms =
     (let a = uint day + 32044;
          b = (4 * a + 3) div 146097;
          c = a - (146097 * b) div 4;
          d = (4 * c + 3) div 1461;
          e = c - (1461 * d) div 4;
          m = (5 * e + 2) div 153;
          dayOfMonth = e - (153 * m + 2) div 5 + 1;
          month = m + 3 - 12 * (m div 10);
          year = 100 * b + d - 4800 + m div 10;
          total = unat ms div 1000;
          t = time_Date year month (nat dayOfMonth + total div 86400)
      in t\<lparr>t_hour := total mod 86400 div 3600, t_min := total mod 3600 div 60, t_sec := total mod 60,
           t_nsec := unat ms mod 1000 * 1000000\<rparr>)"

text \<open>\<open>None\<close> for a type the function does not handle.  The buffer starts as zero bytes.\<close>

definition fill_field :: "nat \<Rightarrow> bytes \<Rightarrow> bytes" where
  "fill_field len bs = bs @ replicate (len - length bs) 0"

definition encodeVFPValue :: "nat \<Rightarrow> field \<Rightarrow> value \<Rightarrow> (error + bytes) option" where
  "encodeVFPValue len field value =
     (let t = f_Type field in
      if t = Integer then Some
        (if len < 4 then Inl (Errorf ''Integer field too short'')
         else bindR (toInt64 value) (\<lambda>n.
           if sint n > 2147483647 \<or> sint n < - 2147483648 then Inl (Errorf ''out of range for an Integer field'')
           else Inr (fill_field len (put_u32 (ucast n)))))
      else if t = Double then Some
        (if len < 8 then Inl (Errorf ''Double field too short'')
         else bindR (toFloat64 value) (\<lambda>f. Inr (fill_field len (put_u64 f))))
      else if t = Currency then Some
        (if len < 8 then Inl (Errorf ''Currency field too short'')
         else bindR (case value of
             VCurrency v \<Rightarrow> Inr v
           | VF64 v \<Rightarrow> Inr (round_currency v)
           | _ \<Rightarrow> (case toInt64 value of
               Inl e \<Rightarrow> Inl (Errorf ''cannot store in a Currency field'')
             | Inr n \<Rightarrow> Inr (n * 10000)))
           (\<lambda>scaled. Inr (fill_field len (put_u64 scaled))))
      else if t = General \<or> t = Blob then Some
        (if len < 4 then Inl (Errorf ''General field too short'')
         else bindR (toInt64 value) (\<lambda>n. Inr (fill_field len (put_u32 (ucast n)))))
      else if t = DateTime then Some
        (if len < 8 then Inl (Errorf ''DateTime field too short'')
         else case value of
           VTime t \<Rightarrow>
             (if t = zero_time then Inr (replicate len 0)
              else let (day, ms) = encodeJulianDateTime t in Inr (fill_field len (put_u32 day @ put_u32 ms)))
         | _ \<Rightarrow> Inl (Errorf ''cannot store in a DateTime field''))
      else None)"

definition decodeVFPValue :: "bytes \<Rightarrow> field \<Rightarrow> (error + value) option" where
  "decodeVFPValue raw field =
     (let t = f_Type field; short = Inl (Wrap ''field too short'' ErrInvalidRecord) in
      if t = Integer then Some
        (if length raw < 4 then short else Inr (VInt (scast (get_u32 (seg 0 4 raw)))))
      else if t = Double then Some
        (if length raw < 8 then short else Inr (VF64 (get_u64 (seg 0 8 raw))))
      else if t = Currency then Some
        (if length raw < 8 then short else Inr (VCurrency (get_u64 (seg 0 8 raw))))
      else if t = General \<or> t = Blob then Some
        (if length raw < 4 then short else Inr (VUint (ucast (get_u32 (seg 0 4 raw)))))
      else if t = DateTime then Some
        (if length raw < 8 then short
         else
           let day = get_u32 (seg 0 4 raw); ms = get_u32 (seg 4 4 raw) in
           Inr (VTime (if day = 0 \<and> ms = 0 then zero_time else decodeJulianDateTime day ms)))
      else None)"

section \<open>Null flags\<close>

definition isVarLenType :: "field_type \<Rightarrow> bool" where
  "isVarLenType t \<longleftrightarrow> t = Varchar \<or> t = Varbinary"

text \<open>The bits the fields before the given one allocate.\<close>

fun flag_bits :: "schema \<Rightarrow> nat" where
  "flag_bits [] = 0"
| "flag_bits (f # fs) =
     (if isVarLenType (f_Type f) then 1 else 0) + (if f_Nullable f then 1 else 0) + flag_bits fs"

definition nullBitPosition :: "schema \<Rightarrow> nat \<Rightarrow> error + nat" where
  "nullBitPosition sch i =
     (if i \<ge> length sch then Inl (Errorf ''field index out of range'')
      else if \<not> f_Nullable (sch ! i) then Inl (Errorf ''field is not nullable'')
      else Inr (flag_bits (take i sch) + (if isVarLenType (f_Type (sch ! i)) then 1 else 0)))"

definition fullBitPosition :: "schema \<Rightarrow> nat \<Rightarrow> error + nat" where
  "fullBitPosition sch i =
     (if i \<ge> length sch then Inl (Errorf ''field index out of range'')
      else if \<not> isVarLenType (f_Type (sch ! i)) then Inl (Errorf ''field is not Varchar/Varbinary'')
      else Inr (flag_bits (take i sch)))"

fun nullFlagsFieldIndex :: "schema \<Rightarrow> nat option" where
  "nullFlagsFieldIndex [] = None"
| "nullFlagsFieldIndex (f # fs) =
     (if f_SystemColumn f then Some 0 else map_option Suc (nullFlagsFieldIndex fs))"

definition bitSet :: "bytes \<Rightarrow> nat \<Rightarrow> bool" where
  "bitSet raw b \<longleftrightarrow> b div 8 < length raw \<and> bit (raw ! (b div 8)) (b mod 8)"

section \<open>One value\<close>

definition encodePadded :: "nat \<Rightarrow> bytes \<Rightarrow> bytes" where
  "encodePadded len s = take len s @ replicate (len - length s) 0x20"

definition encodeNumeric :: "nat \<Rightarrow> field \<Rightarrow> value \<Rightarrow> error + bytes" where
  "encodeNumeric len field value =
     (if value = VNil then Inr (replicate len 0x20)
      else if f_Type field = Numeric \<and> f_Decimals field = 0 then
        (case intValue value of
           None \<Rightarrow> Inl (Errorf ''expected integer value'')
         | Some i \<Rightarrow>
           let text = FormatInt (sint i) in
           if length text > len then Inl (Wrap ''value does not fit'' ErrNumericOverflow)
           else Inr (replicate (len - length text) 0x20 @ text))
      else
        (case floatValue value of
           None \<Rightarrow> Inl (Errorf ''expected numeric value'')
         | Some v \<Rightarrow> FormatNumeric v (int len) (uint (f_Decimals field)) PadSpace))"

definition encodeDate :: "nat \<Rightarrow> gotime \<Rightarrow> error + bytes" where
  "encodeDate len t =
     (if len \<noteq> 8 then Inl (Errorf ''date field must be 8 bytes'')
      else if t = zero_time then Inr (encodePadded len [])
      else if t_year t < 0 \<or> t_year t > 9999 then Inl (Errorf ''year out of DBF range'')
      else Inr (dec_fixed 4 (nat (t_year t)) @ dec_fixed 2 (t_month t) @ dec_fixed 2 (t_day t)))"

definition encodeValue :: "nat \<Rightarrow> field \<Rightarrow> value \<Rightarrow> error + bytes" where
  "encodeValue len field value =
     (let t = f_Type field in
      if t = System then
        (case value of
           VBytes b \<Rightarrow> if length b \<noteq> len then Inl (Errorf ''System field has another size'') else Inr b
         | _ \<Rightarrow> Inl (Errorf ''expected []byte for the System field''))
      else case encodeVFPValue len field value of
        Some r \<Rightarrow> r
      | None \<Rightarrow>
        if t \<in> {Character, Memo, Varchar, DBaseBinary, DBaseGeneral} then
          (case stringValue value of
             None \<Rightarrow> Inl (Errorf ''expected string'')
           | Some s \<Rightarrow> Inr (encodePadded len s))
        else if t = Varbinary then
          (case value of
             VBytes b \<Rightarrow> if length b > len then Inl (Errorf ''Varbinary value too long'') else Inr (encodePadded len b)
           | _ \<Rightarrow> Inl (Errorf ''expected []byte for a Varbinary field''))
        else if t \<in> {Numeric, Float} then encodeNumeric len field value
        else if t = Date then
          (case value of
             VTime t \<Rightarrow> encodeDate len t
           | VNil \<Rightarrow> encodeDate len zero_time
           | _ \<Rightarrow> Inl (Errorf ''expected time.Time''))
        else if t = Logical then
          (case value of
             VBool b \<Rightarrow> if len = 0 then Inl (Panic ''index out of range'') else Inr (fill_field len [if b then 0x54 else 0x46])
           | VNil \<Rightarrow> if len = 0 then Inl (Panic ''index out of range'') else Inr (fill_field len [0x46])
           | _ \<Rightarrow> Inl (Errorf ''expected bool''))
        else Inl (Wrap ''field type'' ErrUnsupported))"

definition decodeNumeric :: "(bytes \<Rightarrow> u64 option) \<Rightarrow> bytes \<Rightarrow> field \<Rightarrow> error + value" where
  "decodeNumeric parseFloat raw field =
     (let text = TrimSpace raw; integral = (f_Type field = Numeric \<and> f_Decimals field = 0) in
      if text = [] then Inr (if integral then VInt 0 else VF64 0)
      else if integral then
        (case ParseInt text of
           None \<Rightarrow> Inl (Wrap ''bad numeric value'' ErrInvalidRecord)
         | Some i \<Rightarrow> Inr (VInt (word_of_int i)))
      else
        (case parseFloat text of
           None \<Rightarrow> Inl (Wrap ''bad numeric value'' ErrInvalidRecord)
         | Some v \<Rightarrow> Inr (VF64 v)))"

definition decodeDate :: "bytes \<Rightarrow> error + gotime" where
  "decodeDate raw =
     (let text = TrimSpace raw;
          y = int (dec_value (seg 0 4 text)); m = dec_value (seg 4 2 text); d = dec_value (seg 6 2 text) in
      if text = [] then Inr zero_time
      else if length text \<noteq> 8 \<or> \<not> list_all is_digit text \<or> \<not> valid_date y m d
        then Inl (Wrap ''bad date value'' ErrInvalidRecord)
      else Inr (zero_time\<lparr>t_year := y, t_month := m, t_day := d\<rparr>))"

definition decodeLogical :: "byte \<Rightarrow> error + value" where
  "decodeLogical c =
     (if c \<in> {0x54, 0x74, 0x59, 0x79} then Inr (VBool True)
      else if c \<in> {0x46, 0x66, 0x4E, 0x6E, 0x20, 0x3F} then Inr (VBool False)
      else Inl (Wrap ''bad logical byte'' ErrInvalidRecord))"

definition decodeValue :: "(bytes \<Rightarrow> u64 option) \<Rightarrow> bytes \<Rightarrow> field \<Rightarrow> error + value" where
  "decodeValue parseFloat raw field =
     (let t = f_Type field in
      if t = System then Inr (VBytes raw)
      else case decodeVFPValue raw field of
        Some r \<Rightarrow> r
      | None \<Rightarrow>
        if t \<in> {Character, Memo, Varchar, DBaseBinary, DBaseGeneral} then Inr (VStr (trimRight raw))
        else if t = Varbinary then Inr (VBytes (trimRight raw))
        else if t \<in> {Numeric, Float} then decodeNumeric parseFloat raw field
        else if t = Date then bindR (decodeDate raw) (\<lambda>d. Inr (VTime d))
        else if t = Logical then (if raw = [] then Inl (Panic ''index out of range'') else decodeLogical (raw ! 0))
        else Inl (Wrap ''field type'' ErrUnsupported))"

definition decodeVarLenExact :: "(bytes \<Rightarrow> u64 option) \<Rightarrow> bytes \<Rightarrow> field \<Rightarrow> schema \<Rightarrow> nat \<Rightarrow> bytes \<Rightarrow> error + value" where
  "decodeVarLenExact parseFloat raw field sch i nullFlagsRaw =
     (case fullBitPosition sch i of
        Inl e \<Rightarrow> decodeValue parseFloat raw field
      | Inr b \<Rightarrow>
        let actual = unat (last raw) in
        if \<not> bitSet nullFlagsRaw b \<or> raw = [] \<or> actual > length raw - 1 then decodeValue parseFloat raw field
        else if f_Type field = Varbinary then Inr (VBytes (take actual raw))
        else Inr (VStr (take actual raw)))"

section \<open>One record\<close>

definition activeMarker :: byte where "activeMarker = 0x20"

definition deletedMarker :: byte where "deletedMarker = 0x2A"

fun encodeFields :: "schema \<Rightarrow> value list \<Rightarrow> error + bytes" where
  "encodeFields [] vs = Inr []"
| "encodeFields (f # fs) [] = Inl (Panic ''index out of range'')"
| "encodeFields (f # fs) (v # vs) =
     (case encodeValue (unat (f_Length f)) f v of
        Inl e \<Rightarrow> Inl (Wrap ''field'' e)
      | Inr bs \<Rightarrow> bindR (encodeFields fs vs) (\<lambda>rest. Inr (bs @ rest)))"

text \<open>The buffer handed in is exactly \<open>RecordSize\<close> bytes, as both callers allocate it.\<close>

definition encodeRecord :: "schema \<Rightarrow> dbf_record \<Rightarrow> error + bytes" where
  "encodeRecord sch r =
     (if length (r_Values r) \<noteq> length sch then Inl (Errorf ''record does not match the schema'')
      else bindR (encodeFields sch (r_Values r)) (\<lambda>bs.
        Inr ((if r_Deleted r then deletedMarker else activeMarker) # bs)))"

text \<open>The raw bytes of the \<open>_NullFlags\<close> column, when the schema has one.\<close>

definition nullFlagsRaw :: "schema \<Rightarrow> bytes \<Rightarrow> bytes option" where
  "nullFlagsRaw sch src =
     (case nullFlagsFieldIndex sch of
        None \<Rightarrow> None
      | Some k \<Rightarrow> Some (seg (record_size (take k sch)) (unat (f_Length (sch ! k))) src))"

definition decodeField :: "(bytes \<Rightarrow> u64 option) \<Rightarrow> schema \<Rightarrow> bytes option \<Rightarrow> bytes \<Rightarrow> nat \<Rightarrow> error + value" where
  "decodeField parseFloat sch flags src i =
     (let field = sch ! i; raw = seg (record_size (take i sch)) (unat (f_Length field)) src;
          r = (case flags of
                 Some fl \<Rightarrow>
                   if f_Type field = Varchar \<or> f_Type field = Varbinary
                   then decodeVarLenExact parseFloat raw field sch i fl
                   else decodeValue parseFloat raw field
               | None \<Rightarrow> decodeValue parseFloat raw field)
      in case r of Inl e \<Rightarrow> Inl (Wrap ''field'' e) | Inr v \<Rightarrow> Inr v)"

definition decodeRecord :: "(bytes \<Rightarrow> u64 option) \<Rightarrow> schema \<Rightarrow> bytes \<Rightarrow> error + dbf_record" where
  "decodeRecord parseFloat sch src =
     (if length src \<noteq> unat (RecordSize sch) then Inl (Wrap ''record has another size'' ErrInvalidRecord)
      else if src ! 0 \<noteq> activeMarker \<and> src ! 0 \<noteq> deletedMarker
        then Inl (Wrap ''bad deletion marker'' ErrInvalidRecord)
      else bindR (mapR (decodeField parseFloat sch (nullFlagsRaw sch src) src) [0..<length sch]) (\<lambda>vs.
        Inr \<lparr>r_Deleted = (src ! 0 = deletedMarker), r_Values = vs\<rparr>))"

section \<open>Text codecs\<close>

text \<open>A character table: decoding to UTF-8 (an error passes the bytes through) and encoding from it.\<close>

record charmap =
  cm_decode :: "bytes \<Rightarrow> bytes option"
  cm_encode :: "bytes \<Rightarrow> bytes option"

text \<open>\<open>None\<close> is the identity codec.\<close>

type_synonym textcodec = "charmap option"

definition supported_codepages :: "byte list" where
  "supported_codepages = [0x01, 0x02, 0x03, 0x04, 0x64, 0x65, 0x66, 0x7C, 0x7D, 0x7E, 0xC8, 0xC9, 0xCA, 0xCB,
     0x7B, 0x7A, 0x79, 0x78, 0x96]"

definition newTextCodec :: "(byte \<Rightarrow> charmap) \<Rightarrow> byte \<Rightarrow> error + textcodec" where
  "newTextCodec tables cp =
     (if cp = 0x00 \<or> cp = 0x1B then Inr None
      else if cp \<in> set supported_codepages then Inr (Some (tables cp))
      else Inl (Errorf ''unsupported code page''))"

definition textDecode :: "textcodec \<Rightarrow> bytes \<Rightarrow> bytes" where
  "textDecode c b =
     (case c of None \<Rightarrow> b | Some cm \<Rightarrow> (case cm_decode cm b of None \<Rightarrow> b | Some s \<Rightarrow> s))"

definition textEncode :: "textcodec \<Rightarrow> bytes \<Rightarrow> error + bytes" where
  "textEncode c s =
     (case c of
        None \<Rightarrow> Inr s
      | Some cm \<Rightarrow> (case cm_encode cm s of
          None \<Rightarrow> Inl (Wrap ''cannot be represented in this code page'' (Errorf ''encoding''))
        | Some b \<Rightarrow> Inr b))"

definition is_text :: "field \<Rightarrow> bool" where
  "is_text f \<longleftrightarrow> f_Type f = Character \<or> f_Type f = Memo"

definition applyDecode :: "textcodec \<Rightarrow> schema \<Rightarrow> dbf_record \<Rightarrow> dbf_record" where
  "applyDecode c sch r =
     (if c = None then r
      else r\<lparr>r_Values := map2 (\<lambda>f v. case v of VStr s \<Rightarrow> if is_text f then VStr (textDecode c s) else v | _ \<Rightarrow> v)
             sch (r_Values r)\<rparr>)"

definition encode_text :: "textcodec \<Rightarrow> field \<times> value \<Rightarrow> error + value" where
  "encode_text c = (\<lambda>(f, v). case v of
     VStr s \<Rightarrow> if is_text f then (case textEncode c s of Inl e \<Rightarrow> Inl (Wrap ''field'' e) | Inr b \<Rightarrow> Inr (VStr b))
               else Inr v
   | _ \<Rightarrow> Inr v)"

text \<open>Values beyond the schema, or missing, are left as they are; \<open>encodeRecord\<close> refuses them next.\<close>

definition applyEncode :: "textcodec \<Rightarrow> schema \<Rightarrow> dbf_record \<Rightarrow> error + dbf_record" where
  "applyEncode c sch r =
     (if c = None then Inr r
      else bindR (mapR (encode_text c) (zip sch (r_Values r))) (\<lambda>vs.
        Inr (r\<lparr>r_Values := vs @ drop (length sch) (r_Values r)\<rparr>)))"

section \<open>Record values\<close>

definition zeroValue :: "field \<Rightarrow> value" where
  "zeroValue f =
     (let t = f_Type f in
      if t = Character then VStr []
      else if t = Numeric then (if f_Decimals f = 0 then VInt 0 else VF64 0)
      else if t = Float then VF64 0
      else if t = Logical then VBool False
      else if t = Date then VTime zero_time
      else if t \<in> {Memo, DBaseBinary, DBaseGeneral} then VStr []
      else if t = System then VBytes (replicate (unat (f_Length f)) 0)
      else VNil)"

definition NewRecord :: "schema \<Rightarrow> dbf_record" where
  "NewRecord sch = \<lparr>r_Deleted = False, r_Values = map zeroValue sch\<rparr>"

definition isVFPType :: "field_type \<Rightarrow> bool" where
  "isVFPType t \<longleftrightarrow> t \<in> {Integer, Double, Currency, General, DateTime}"

definition is_number :: "value \<Rightarrow> bool" where
  "is_number v = (case v of VInt _ \<Rightarrow> True | VUint _ \<Rightarrow> True | VF32 _ \<Rightarrow> True | VF64 _ \<Rightarrow> True | _ \<Rightarrow> False)"

definition validVFPValue :: "field_type \<Rightarrow> value \<Rightarrow> bool" where
  "validVFPValue t v =
     (if t \<in> {Integer, Double, General} then is_number v
      else if t = Currency then is_number v \<or> (case v of VCurrency _ \<Rightarrow> True | _ \<Rightarrow> False)
      else if t = DateTime then (case v of VTime _ \<Rightarrow> True | _ \<Rightarrow> False)
      else False)"

definition validValue :: "field \<Rightarrow> value \<Rightarrow> bool" where
  "validValue f v =
     (let t = f_Type f; str = (case v of VStr _ \<Rightarrow> True | _ \<Rightarrow> False); byts = (case v of VBytes _ \<Rightarrow> True | _ \<Rightarrow> False) in
      if v = VNil then True
      else if t = Character then str
      else if t \<in> {Numeric, Float} then is_number v
      else if t = Logical then (case v of VBool _ \<Rightarrow> True | _ \<Rightarrow> False)
      else if t = Date then (case v of VTime _ \<Rightarrow> True | _ \<Rightarrow> False)
      else if t \<in> {Memo, Varchar, DBaseBinary, DBaseGeneral} then str
      else if t = Varbinary then byts
      else if t = System then byts
      else isVFPType t \<and> validVFPValue t v)"

fun field_index :: "schema \<Rightarrow> bytes \<Rightarrow> nat option" where
  "field_index [] target = None"
| "field_index (f # fs) target =
     (if ToUpper (f_Name f) = target then Some 0 else map_option Suc (field_index fs target))"

definition schemaFieldIndex :: "schema \<Rightarrow> bytes \<Rightarrow> error + nat" where
  "schemaFieldIndex sch name =
     (case field_index sch (ToUpper name) of None \<Rightarrow> Inl (Errorf ''field not found'') | Some i \<Rightarrow> Inr i)"

definition GetIndex :: "dbf_record \<Rightarrow> nat \<Rightarrow> error + value" where
  "GetIndex r i = (if i \<ge> length (r_Values r) then Inl (Errorf ''field index out of range'') else Inr (r_Values r ! i))"

definition SetIndex :: "schema \<Rightarrow> nat \<Rightarrow> value \<Rightarrow> dbf_record \<Rightarrow> error + dbf_record" where
  "SetIndex sch i v r =
     (if i \<ge> length sch then Inl (Errorf ''field index out of range'')
      else if length (r_Values r) \<noteq> length sch then Inl (Errorf ''record does not match schema'')
      else if \<not> validValue (sch ! i) v then Inl (Errorf ''invalid value'')
      else Inr (r\<lparr>r_Values := (r_Values r)[i := v]\<rparr>))"

definition record_Get :: "schema \<Rightarrow> bytes \<Rightarrow> dbf_record \<Rightarrow> error + value" where
  "record_Get sch name r = bindR (schemaFieldIndex sch name) (GetIndex r)"

definition record_Set :: "schema \<Rightarrow> bytes \<Rightarrow> value \<Rightarrow> dbf_record \<Rightarrow> error + dbf_record" where
  "record_Set sch name v r = bindR (schemaFieldIndex sch name) (\<lambda>i. SetIndex sch i v r)"

definition readNullFlagsBit :: "dbf_record \<Rightarrow> schema \<Rightarrow> nat \<Rightarrow> error + bool" where
  "readNullFlagsBit r sch b =
     (case nullFlagsFieldIndex sch of
        None \<Rightarrow> Inl (Errorf ''table has no _NullFlags system field'')
      | Some k \<Rightarrow> (case r_Values r ! k of
          VBytes raw \<Rightarrow> Inr (bitSet raw b)
        | _ \<Rightarrow> Inl (Errorf ''_NullFlags field has another type'')))"

definition IsNull :: "schema \<Rightarrow> bytes \<Rightarrow> dbf_record \<Rightarrow> error + bool" where
  "IsNull sch name r =
     bindR (schemaFieldIndex sch name) (\<lambda>i. bindR (nullBitPosition sch i) (readNullFlagsBit r sch))"

definition IsFull :: "schema \<Rightarrow> bytes \<Rightarrow> dbf_record \<Rightarrow> error + bool" where
  "IsFull sch name r =
     bindR (schemaFieldIndex sch name) (\<lambda>i. bindR (fullBitPosition sch i) (\<lambda>b.
       bindR (readNullFlagsBit r sch b) (\<lambda>notFull. Inr (\<not> notFull))))"

end
