(* ===== verification/DbfCodec.thy ===== *)
theory DbfCodec
  imports DbfRecord
begin

text \<open>
  What the record codec preserves.  \<open>storable f v\<close> is the set of values a field can hold exactly; on
  those, encoding succeeds, has the width the schema gives, and decodes to the value it came from.
  Fields rendered from a \<open>float64\<close> are excluded: reading them back is \<open>strconv.ParseFloat\<close>.
\<close>

section \<open>Decimal digits\<close>

lemma unat_digit: "unat (digit d) = 48 + d mod 10"
  unfolding digit_def unat_of_nat by simp

lemma is_digit_digit [simp]: "is_digit (digit d)"
  by (simp add: is_digit_def word_le_nat_alt unat_digit)

lemma dec_value_snoc: "dec_value (ds @ [digit d]) = 10 * dec_value ds + d mod 10"
  by (simp add: dec_value_def unat_digit)

lemma dec_digits_digits: "list_all is_digit (dec_digits n)"
  by (induction n rule: dec_digits.induct) (subst dec_digits.simps, simp)

lemma dec_digits_nonempty [simp]: "dec_digits n \<noteq> []"
  by (subst dec_digits.simps) simp

lemma dec_value_digits: "dec_value (dec_digits n) = n"
proof (induction n rule: dec_digits.induct)
  case (1 n)
  show ?case
  proof (cases "n < 10")
    case True
    then show ?thesis
      by (subst dec_digits.simps) (simp add: dec_value_def unat_digit)
  next
    case False
    then show ?thesis
      using 1 by (subst dec_digits.simps) (simp add: dec_value_snoc)
  qed
qed

lemma dec_fixed_digits: "list_all is_digit (dec_fixed k n)"
  by (induction k n rule: dec_fixed.induct) simp_all

lemma length_dec_fixed [simp]: "length (dec_fixed k n) = k"
  by (induction k n rule: dec_fixed.induct) simp_all

lemma dec_value_fixed: "dec_value (dec_fixed k n) = n mod 10 ^ k"
proof (induction k n rule: dec_fixed.induct)
  case (1 n)
  then show ?case
    by (simp add: dec_value_def)
next
  case (2 k n)
  then show ?case
    by (simp add: dec_value_snoc mod_mult2_eq)
qed

lemma digit_not_space: "is_digit c \<Longrightarrow> \<not> is_space c \<and> c \<noteq> 0x2D \<and> c \<noteq> 0x2B"
  by (auto simp: is_digit_def is_space_def word_le_nat_alt)

lemma ParseInt_Format:
  assumes "- (2 ^ 63) \<le> i" "i < 2 ^ 63"
  shows "ParseInt (FormatInt i) = Some i"
proof (cases "i < 0")
  case True
  then show ?thesis
    using assms dec_digits_digits [of "nat (- i)"] by (simp add: ParseInt_def FormatInt_def dec_value_digits Let_def)
next
  case False
  obtain c cs where c: "dec_digits (nat i) = c # cs"
    using dec_digits_nonempty by (cases "dec_digits (nat i)") auto
  then have "is_digit c"
    using dec_digits_digits [of "nat i"] by simp
  then show ?thesis
    using False assms dec_digits_digits [of "nat i"] dec_value_digits [of "nat i"] digit_not_space [of c] c
    by (simp add: ParseInt_def FormatInt_def Let_def)
qed

section \<open>Padding and trimming\<close>

lemma TrimSpace_pad:
  assumes "list_all (\<lambda>c. \<not> is_space c) digs" "digs \<noteq> []"
  shows "TrimSpace (replicate n 0x20 @ digs @ replicate m 0x20) = digs"
proof -
  have "is_space 0x20"
    by (simp add: is_space_def)
  then have s: "dropWhile is_space (replicate k 0x20 @ xs) = dropWhile is_space xs" for k xs
    by (induction k) simp_all
  have a: "dropWhile is_space (digs @ xs) = digs @ xs" for xs
    using assms by (cases digs) simp_all
  have b: "dropWhile is_space (rev digs) = rev digs"
    using assms by (cases digs rule: rev_cases) simp_all
  have "dropWhile is_space (rev (digs @ replicate m 0x20)) = rev digs"
    using s [of m "rev digs"] b by simp
  then show ?thesis
    by (simp add: TrimSpace_def s a)
qed

lemma trimRight_pad:
  assumes "s \<noteq> [] \<Longrightarrow> last s \<noteq> 0x20"
  shows "trimRight (s @ replicate n 0x20) = s"
proof -
  have "dropWhile (\<lambda>c. c = 0x20) (replicate n 0x20 @ xs) = dropWhile (\<lambda>c. c = 0x20) xs" for xs :: bytes
    by (induction n) simp_all
  then show ?thesis
    using trimRight_id [OF assms] by (simp add: trimRight_def)
qed

lemma FormatInt_no_space: "list_all (\<lambda>c. \<not> is_space c) (FormatInt i)"
proof -
  have "list_all (\<lambda>c. \<not> is_space c) (dec_digits n)" for n
    using dec_digits_digits [of n] digit_not_space by (auto simp: list_all_iff)
  then show ?thesis
    by (simp add: FormatInt_def is_space_def)
qed

section \<open>What a field can hold\<close>

definition storable :: "field \<Rightarrow> value \<Rightarrow> bool" where
  "storable f v =
     (let t = f_Type f; len = unat (f_Length f) in
      if t \<in> {Character, Memo, Varchar, DBaseBinary, DBaseGeneral} then
        (case v of VStr s \<Rightarrow> length s \<le> len \<and> (s \<noteq> [] \<longrightarrow> last s \<noteq> 0x20) | _ \<Rightarrow> False)
      else if t = Varbinary then
        (case v of VBytes s \<Rightarrow> length s \<le> len \<and> (s \<noteq> [] \<longrightarrow> last s \<noteq> 0x20) | _ \<Rightarrow> False)
      else if t = System then (case v of VBytes s \<Rightarrow> length s = len | _ \<Rightarrow> False)
      else if t = Numeric \<and> f_Decimals f = 0 then
        (case v of VInt i \<Rightarrow> length (FormatInt (sint i)) \<le> len | _ \<Rightarrow> False)
      else if t = Date then
        len = 8 \<and> (case v of VTime d \<Rightarrow> d = zero_time \<or> d = date_only d \<and> 0 \<le> t_year d \<and> t_year d \<le> 9999
          \<and> valid_date (t_year d) (t_month d) (t_day d) | _ \<Rightarrow> False)
      else if t = Logical then len = 1 \<and> (case v of VBool _ \<Rightarrow> True | _ \<Rightarrow> False)
      else if t = Integer then
        len = 4 \<and> (case v of VInt i \<Rightarrow> - 2147483648 \<le> sint i \<and> sint i \<le> 2147483647 | _ \<Rightarrow> False)
      else if t = Double then len = 8 \<and> (case v of VF64 _ \<Rightarrow> True | _ \<Rightarrow> False)
      else if t = Currency then len = 8 \<and> (case v of VCurrency _ \<Rightarrow> True | _ \<Rightarrow> False)
      else if t = General \<or> t = Blob then
        len = 4 \<and> (case v of VUint n \<Rightarrow> uint n < 2 ^ 32 | _ \<Rightarrow> False)
      else False)"

definition value_codec :: "(bytes \<Rightarrow> u64 option) \<Rightarrow> field \<Rightarrow> value \<Rightarrow> bool" where
  "value_codec parseFloat f v \<longleftrightarrow> (\<exists>bs. encodeValue (unat (f_Length f)) f v = Inr bs
     \<and> length bs = unat (f_Length f) \<and> decodeValue parseFloat bs f = Inr v)"

lemma codec_text:
  assumes "f_Type f \<in> {Character, Memo, Varchar, DBaseBinary, DBaseGeneral}" "length s \<le> unat (f_Length f)"
    and "s \<noteq> [] \<Longrightarrow> last s \<noteq> 0x20"
  shows "value_codec pf f (VStr s)"
  using assms(1,2) trimRight_pad [OF assms(3)]
  by (auto simp: value_codec_def encodeValue_def decodeValue_def encodeVFPValue_def decodeVFPValue_def Let_def
      field_types encodePadded_def)

lemma codec_varbinary:
  assumes "f_Type f = Varbinary" "length s \<le> unat (f_Length f)" "s \<noteq> [] \<Longrightarrow> last s \<noteq> 0x20"
  shows "value_codec pf f (VBytes s)"
  using assms(1,2) trimRight_pad [OF assms(3)]
  by (auto simp: value_codec_def encodeValue_def decodeValue_def encodeVFPValue_def decodeVFPValue_def Let_def
      field_types encodePadded_def)

lemma codec_system:
  assumes "f_Type f = System" "length s = unat (f_Length f)"
  shows "value_codec pf f (VBytes s)"
  using assms by (simp add: value_codec_def encodeValue_def decodeValue_def Let_def)

lemma codec_integer_text:
  assumes "f_Type f = Numeric" "f_Decimals f = 0" "length (FormatInt (sint i)) \<le> unat (f_Length f)"
  shows "value_codec pf f (VInt i)"
proof -
  have t: "TrimSpace (replicate n 0x20 @ FormatInt (sint i)) = FormatInt (sint i)" for n
    using TrimSpace_pad [OF FormatInt_no_space, of "sint i" n 0] by (simp add: FormatInt_def)
  have "FormatInt (sint i) \<noteq> []"
    by (simp add: FormatInt_def)
  moreover have "ParseInt (FormatInt (sint i)) = Some (sint i)"
    using sint_greater_eq [of i] sint_less [of i] by (intro ParseInt_Format) simp_all
  ultimately show ?thesis
    using assms t
    by (simp add: value_codec_def encodeValue_def decodeValue_def encodeVFPValue_def decodeVFPValue_def Let_def
        field_types encodeNumeric_def decodeNumeric_def)
qed

lemma codec_logical:
  assumes "f_Type f = Logical" "unat (f_Length f) = 1"
  shows "value_codec pf f (VBool b)"
  using assms
  by (simp add: value_codec_def encodeValue_def decodeValue_def encodeVFPValue_def decodeVFPValue_def Let_def
      field_types decodeLogical_def fill_field_def)

lemma seg_append_left: "off + n \<le> length xs \<Longrightarrow> seg off n (xs @ ys) = seg off n xs"
  by (simp add: seg_def)

lemma codec_date:
  assumes "f_Type f = Date" "unat (f_Length f) = 8"
    and d: "d = zero_time \<or> d = date_only d \<and> 0 \<le> t_year d \<and> t_year d \<le> 9999
      \<and> valid_date (t_year d) (t_month d) (t_day d)"
  shows "value_codec pf f (VTime d)"
proof (cases "d = zero_time")
  case True
  have "TrimSpace (replicate 8 0x20) = []"
    by (simp add: TrimSpace_def is_space_def eval_nat_numeral)
  then show ?thesis
    using assms(1,2) True
    by (simp add: value_codec_def encodeValue_def decodeValue_def encodeVFPValue_def decodeVFPValue_def Let_def
        field_types encodeDate_def decodeDate_def encodePadded_def)
next
  case False
  let ?y = "nat (t_year d)" and ?m = "t_month d" and ?d = "t_day d"
  let ?t = "dec_fixed 4 ?y @ dec_fixed 2 ?m @ dec_fixed 2 ?d"
  have v: "date_only d = d" "0 \<le> t_year d" "t_year d \<le> 9999" "valid_date (t_year d) ?m ?d"
    using d False by auto
  have digits: "list_all is_digit ?t"
    by (simp add: dec_fixed_digits)
  then have "list_all (\<lambda>c. \<not> is_space c) ?t"
    using digit_not_space by (auto simp: list_all_iff)
  then have trim: "TrimSpace ?t = ?t"
    using TrimSpace_pad [of ?t 0 0] by (simp add: length_0_conv [symmetric] del: length_0_conv dec_fixed.simps)
  have "?m < 100" "?d < 100"
    using v(4) by (auto simp: valid_date_def days_in_def split: if_splits)
  then have "dec_value (seg 0 4 ?t) = ?y" "dec_value (seg 4 2 ?t) = ?m" "dec_value (seg 6 2 ?t) = ?d"
    using v(2,3) by (simp_all add: seg_def dec_value_fixed del: dec_fixed.simps)
  then have "decodeDate ?t = Inr d"
    using digits v trim
    by (simp add: decodeDate_def Let_def date_only_def length_0_conv [symmetric] del: length_0_conv dec_fixed.simps)
  then show ?thesis
    using assms(1,2) False v(2,3)
    by (simp add: value_codec_def encodeValue_def decodeValue_def encodeVFPValue_def decodeVFPValue_def Let_def
        field_types encodeDate_def del: dec_fixed.simps)
qed

lemma length_put_u64 [simp]: "length (put_u64 v) = 8"
  by (simp add: put_u64_def)

lemma get_put_u64 [codec]: "get_u64 (put_u64 v) = v"
proof (rule bit_word_eqI)
  fix n assume "n < LENGTH(64)"
  moreover have "get_u32 (seg 0 4 (put_u64 v)) = ucast v" "get_u32 (seg 4 4 (put_u64 v)) = ucast (drop_bit 32 v)"
    by (simp_all add: put_u64_def seg_def get_put_u32)
  ultimately show "bit (get_u64 (put_u64 v)) n = bit v n"
    by (cases "n < 32") (auto simp: get_u64_def bit_simps)
qed

lemma codec_u64:
  assumes "unat (f_Length f) = 8"
  shows "f_Type f = Double \<Longrightarrow> value_codec pf f (VF64 v)" "f_Type f = Currency \<Longrightarrow> value_codec pf f (VCurrency v)"
proof -
  have "seg 0 8 (put_u64 v) = put_u64 v"
    by (simp add: seg_def)
  then show "f_Type f = Double \<Longrightarrow> value_codec pf f (VF64 v)" "f_Type f = Currency \<Longrightarrow> value_codec pf f (VCurrency v)"
    using assms
    by (simp_all add: value_codec_def encodeValue_def decodeValue_def encodeVFPValue_def decodeVFPValue_def Let_def
        field_types fill_field_def toFloat64_def get_put_u64)
qed

lemma scast_ucast_32:
  assumes "- 2147483648 \<le> sint (i :: u64)" "sint i \<le> 2147483647"
  shows "scast (ucast i :: u32) = i"
proof -
  have "ucast i = (word_of_int (sint i) :: u32)"
    by (rule bit_word_eqI) (auto simp: bit_simps)
  then have "sint (ucast i :: u32) = signed_take_bit (LENGTH(32) - 1) (sint i)"
    by (simp only: sint_sbintrunc')
  also have "\<dots> = sint i"
    using assms by (intro signed_take_bit_int_eq_self) simp_all
  finally show ?thesis
    by (simp add: scast_eq)
qed

lemma codec_u32:
  assumes "unat (f_Length f) = 4"
  shows "f_Type f = Integer \<Longrightarrow> - 2147483648 \<le> sint i \<Longrightarrow> sint i \<le> 2147483647 \<Longrightarrow> value_codec pf f (VInt i)"
    and "f_Type f = General \<or> f_Type f = Blob \<Longrightarrow> uint n < 2 ^ 32 \<Longrightarrow> value_codec pf f (VUint n)"
proof -
  have s: "seg 0 4 (put_u32 v) = put_u32 v" for v
    by (simp add: seg_def)
  show "f_Type f = Integer \<Longrightarrow> - 2147483648 \<le> sint i \<Longrightarrow> sint i \<le> 2147483647 \<Longrightarrow> value_codec pf f (VInt i)"
    using assms s scast_ucast_32 [of i]
    by (simp add: value_codec_def encodeValue_def decodeValue_def encodeVFPValue_def decodeVFPValue_def Let_def
        field_types fill_field_def toInt64_def get_put_u32)
  assume t: "f_Type f = General \<or> f_Type f = Blob" and n: "uint n < 2 ^ 32"
  have "ucast (ucast n :: u32) = n"
    using n by (intro word_uint_eqI) (simp add: unsigned_ucast_eq unsigned_take_bit_eq take_bit_int_eq_self)
  then show "value_codec pf f (VUint n)"
    using assms s t
    by (auto simp: value_codec_def encodeValue_def decodeValue_def encodeVFPValue_def decodeVFPValue_def Let_def
        field_types fill_field_def toInt64_def get_put_u32)
qed

lemma storable_codec:
  assumes "storable f v"
  shows "value_codec pf f v"
proof -
  consider (chars) "f_Type f \<in> {Character, Memo, Varchar, DBaseBinary, DBaseGeneral}" | (vb) "f_Type f = Varbinary"
    | (sys) "f_Type f = System" | (num) "f_Type f = Numeric" "f_Decimals f = 0" | (date) "f_Type f = Date"
    | (log) "f_Type f = Logical" | (int) "f_Type f = Integer" | (dbl) "f_Type f = Double" | (cur) "f_Type f = Currency"
    | (ptr) "f_Type f = General \<or> f_Type f = Blob"
    using assms unfolding storable_def Let_def by metis
  then show ?thesis
  proof cases
    case chars
    then show ?thesis
      using assms codec_text [OF chars] by (cases v) (auto simp: storable_def)
  next
    case vb
    then show ?thesis
      using assms codec_varbinary [OF vb] by (cases v) (auto simp: storable_def field_types)
  next
    case sys
    then show ?thesis
      using assms codec_system [OF sys] by (cases v) (auto simp: storable_def field_types)
  next
    case num
    then show ?thesis
      using assms codec_integer_text [OF num] by (cases v) (auto simp: storable_def field_types)
  next
    case date
    then show ?thesis
      using assms codec_date [OF date] by (cases v) (auto simp: storable_def field_types)
  next
    case log
    then show ?thesis
      using assms codec_logical [OF log] by (cases v) (auto simp: storable_def field_types)
  next
    case int
    then show ?thesis
      using assms codec_u32(1) [OF _ int] by (cases v) (auto simp: storable_def field_types)
  next
    case dbl
    then show ?thesis
      using assms codec_u64(1) [OF _ dbl] by (cases v) (auto simp: storable_def field_types)
  next
    case cur
    then show ?thesis
      using assms codec_u64(2) [OF _ cur] by (cases v) (auto simp: storable_def field_types)
  next
    case ptr
    then show ?thesis
      using assms codec_u32(2) [OF _ ptr] by (cases v) (auto simp: storable_def field_types)
  qed
qed

section \<open>Records\<close>

definition record_storable :: "schema \<Rightarrow> dbf_record \<Rightarrow> bool" where
  "record_storable sch r \<longleftrightarrow> list_all2 storable sch (r_Values r)"

lemma encodeFields_storable:
  assumes "list_all2 storable fs vs"
  shows "\<exists>bs. encodeFields fs vs = Inr bs \<and> Suc (length bs) = record_size fs
    \<and> (\<forall>i < length fs. decodeValue pf (seg (record_size (take i fs)) (unat (f_Length (fs ! i))) (m # bs)) (fs ! i)
        = Inr (vs ! i))"
  using assms
proof (induction fs vs arbitrary: m rule: list_all2_induct)
  case Nil
  then show ?case
    by (simp add: record_size_def)
next
  case (Cons f fs v vs)
  obtain b where b: "encodeValue (unat (f_Length f)) f v = Inr b" "length b = unat (f_Length f)"
      "decodeValue pf b f = Inr v"
    using storable_codec [OF Cons.hyps(1), of pf] by (auto simp: value_codec_def)
  obtain bs where bs: "encodeFields fs vs = Inr bs" "Suc (length bs) = record_size fs"
      "\<forall>i < length fs. decodeValue pf (seg (record_size (take i fs)) (unat (f_Length (fs ! i))) (m # bs)) (fs ! i)
        = Inr (vs ! i)"
    using Cons.IH by blast
  have "decodeValue pf (seg (record_size (take i (f # fs))) (unat (f_Length ((f # fs) ! i))) (m # b @ bs)) ((f # fs) ! i)
      = Inr ((v # vs) ! i)" if "i < Suc (length fs)" for i
  proof (cases i)
    case 0
    have "seg 1 (unat (f_Length f)) (m # b @ bs) = b"
      using b(2) by (simp add: seg_def)
    then show ?thesis
      using b(3) 0 by (simp add: record_size_def)
  next
    case (Suc j)
    have "seg (record_size (f # take j fs)) n (m # b @ bs) = seg (record_size (take j fs)) n (m # bs)" for n
      using b(2) by (simp add: seg_def record_size_def)
    then show ?thesis
      using bs(3) that Suc by simp
  qed
  moreover have "Suc (length (b @ bs)) = record_size (f # fs)"
    using b(2) bs(2) by (simp add: record_size_def)
  ultimately show ?case
    using b(1) bs(1) by simp
qed

lemma record_codec:
  assumes st: "record_storable sch r" and sz: "record_size sch \<le> MaxRecordSize"
    and ns: "nullFlagsFieldIndex sch = None"
  shows "\<exists>bs. encodeRecord sch r = Inr bs \<and> length bs = record_size sch \<and> decodeRecord pf sch bs = Inr r"
proof -
  let ?m = "if r_Deleted r then deletedMarker else activeMarker"
  have len: "length (r_Values r) = length sch"
    using st by (simp add: record_storable_def list_all2_lengthD)
  obtain bs where bs: "encodeFields sch (r_Values r) = Inr bs" "Suc (length bs) = record_size sch"
      "\<forall>i < length sch. decodeValue pf (seg (record_size (take i sch)) (unat (f_Length (sch ! i))) (?m # bs)) (sch ! i)
        = Inr (r_Values r ! i)"
    using encodeFields_storable [of sch "r_Values r" pf ?m] st unfolding record_storable_def by blast
  have "mapR (decodeField pf sch None (?m # bs)) [0..<length sch] = Inr (map ((!) (r_Values r)) [0..<length sch])"
    using bs(3) by (intro mapR_map) (simp add: decodeField_def Let_def)
  moreover have "map ((!) (r_Values r)) [0..<length sch] = r_Values r"
    using len by (metis map_nth)
  moreover have "unat (RecordSize sch) = record_size sch"
    using sz by (simp add: RecordSize_def unat_of_nat MaxRecordSize_def)
  ultimately have "decodeRecord pf sch (?m # bs) = Inr r"
    using bs(2) ns by (simp add: decodeRecord_def nullFlagsRaw_def activeMarker_def deletedMarker_def)
  then show ?thesis
    using bs(1,2) len by (intro exI [of _ "?m # bs"]) (simp add: encodeRecord_def)
qed

end
