(* ===== verification/DbfTable.thy ===== *)
theory DbfTable
  imports DbfCodec
begin

text \<open>
  The open table (\<open>dbf/table.go\<close>, \<open>open.go\<close>, \<open>create.go\<close>, \<open>create_dbaseiv.go\<close>, \<open>cursor.go\<close>) and the
  text encoding it resolves (\<open>encoding.go\<close>, \<open>codepage.go\<close>).  The stream is the byte list \<open>t_rw\<close>;
  a read past its end is the error the source gets, other failures of the device are not modelled.
  \<open>time.Now()\<close>, \<open>strconv.ParseFloat\<close> and the character tables of \<open>golang.org/x/text\<close> are parameters.
  The second half relates the bytes to the rows they hold: \<open>rows\<close> is the abstract value of a table,
  and every operation is an operation on the list of rows that leaves the rest of the file alone.
\<close>

section \<open>Encodings\<close>

definition ascii :: "string \<Rightarrow> bytes" where
  "ascii s = map (\<lambda>c. word_of_nat (of_char c)) s"

datatype EncodingSource =
    EncodingSourceIdentity
  | EncodingSourceHeaderByte29
  | EncodingSourceCpgSidecar
  | EncodingSourceExplicitOverride

record dbf_encoding =
  enc_Source :: EncodingSource
  enc_Name :: bytes
  enc_codec :: textcodec

definition codePageNames :: "(byte \<times> string) list" where
  "codePageNames =
    [(0x00, ''none''),
     (0x1B, ''dBASE IV/5.0 language driver (encoding unknown, treated as identity)''),
     (0x01, ''CP437 (U.S. MS-DOS)''),
     (0x02, ''CP850 (International MS-DOS)''),
     (0x03, ''Windows-1252 (Western European)''),
     (0x04, ''Macintosh Roman''),
     (0x64, ''CP852 (Eastern European MS-DOS)''),
     (0x65, ''CP866 (Russian MS-DOS)''),
     (0x66, ''CP865 (Nordic MS-DOS)''),
     (0x67, ''CP861 (Icelandic MS-DOS)''),
     (0x6A, ''CP737 (Greek MS-DOS)''),
     (0x6B, ''CP857 (Turkish MS-DOS)''),
     (0x7C, ''Windows-874 (Thai)''),
     (0x7D, ''Windows-1255 (Hebrew)''),
     (0x7E, ''Windows-1256 (Arabic)''),
     (0xC8, ''Windows-1250 (Central European)''),
     (0xC9, ''Windows-1251 (Russian)''),
     (0xCA, ''Windows-1254 (Turkish)''),
     (0xCB, ''Windows-1253 (Greek)''),
     (0x69, ''CP620 (Mazovia, Polish MS-DOS)''),
     (0x68, ''CP895 (Kamenicky, Czech MS-DOS)''),
     (0x7B, ''CP932 (Japanese Windows, Shift-JIS)''),
     (0x7A, ''CP936 (Chinese Simplified Windows, GBK)''),
     (0x79, ''CP949 (Korean Windows, EUC-KR)''),
     (0x78, ''CP950 (Traditional Chinese Windows, Big5)''),
     (0x98, ''CP10006 (Greek Macintosh)''),
     (0x96, ''CP10007 (Russian Macintosh)''),
     (0x97, ''CP10029 (Macintosh EE)'')]"

definition hex_digit :: "nat \<Rightarrow> byte" where
  "hex_digit d = (if d < 10 then word_of_nat (48 + d) else word_of_nat (55 + d))"

definition CodePage_String :: "byte \<Rightarrow> bytes" where
  "CodePage_String c =
     (case map_of codePageNames c of
        Some name \<Rightarrow> ascii name
      | None \<Rightarrow> ascii ''unknown language driver 0x'' @ [hex_digit (unat c div 16), hex_digit (unat c mod 16)])"

definition CodePage_Supported :: "byte \<Rightarrow> bool" where
  "CodePage_Supported c \<longleftrightarrow> c = 0x00 \<or> c \<in> set supported_codepages"

definition cpgAliases :: "(bytes \<times> byte) list" where
  "cpgAliases =
    [(ascii ''CP1252'', 0x03), (ascii ''1252'', 0x03), (ascii ''CP850'', 0x02), (ascii ''850'', 0x02),
     (ascii ''CP437'', 0x01), (ascii ''437'', 0x01)]"

text \<open>\<open>strconv.ParseUint(s, 10, 8)\<close>.\<close>

definition ParseUint8 :: "bytes \<Rightarrow> byte option" where
  "ParseUint8 s =
     (if s \<noteq> [] \<and> list_all is_digit s \<and> dec_value s < 256 then Some (word_of_nat (dec_value s)) else None)"

definition ParseCpgEncoding :: "(byte \<Rightarrow> charmap) \<Rightarrow> charmap \<Rightarrow> bytes \<Rightarrow> error + dbf_encoding" where
  "ParseCpgEncoding tables iso8859_1 content =
     (let name = TrimSpace content;
          upper = ToUpper name;
          sidecar = (\<lambda>codec. \<lparr>enc_Source = EncodingSourceCpgSidecar, enc_Name = name, enc_codec = codec\<rparr>)
      in if upper = ascii ''UTF-8'' \<or> upper = ascii ''UTF8'' then Inr (sidecar None)
         else if upper \<in> {ascii ''ISO-8859-1'', ascii ''ISO8859-1'', ascii ''LATIN1''}
           then Inr (sidecar (Some iso8859_1))
         else case map_of cpgAliases upper of
             Some cp \<Rightarrow> (case newTextCodec tables cp of
               Inl e \<Rightarrow> Inl (Wrap ''.cpg maps to an unsupported code page'' e)
             | Inr codec \<Rightarrow> Inr (sidecar codec))
           | None \<Rightarrow> (case ParseUint8 upper of
               Some cp \<Rightarrow>
                 if CodePage_Supported cp then bindR (newTextCodec tables cp) (\<lambda>codec. Inr (sidecar codec))
                 else Inl (Errorf ''.cpg names an encoding blipper does not recognize'')
             | None \<Rightarrow> Inl (Errorf ''.cpg names an encoding blipper does not recognize'')))"

section \<open>The table\<close>

datatype MemoFormat = MemoFormatNone | MemoFormatDBT | MemoFormatFPT | MemoFormatDBaseIV

record dbf_table =
  t_rw :: bytes
  t_header :: dbf_header
  t_schema :: schema
  t_recordCount :: u32
  t_recordStart :: nat
  t_hasMemo :: bool
  t_versionByte :: byte
  t_tableFlags :: byte
  t_backlink :: bytes
  t_codec :: textcodec
  t_encoding :: dbf_encoding

definition MemoFormat_of :: "dbf_table \<Rightarrow> MemoFormat" where
  "MemoFormat_of t =
     (if t_versionByte t = dbfVersionFPT then MemoFormatFPT
      else if t_versionByte t = dbfVersionMemo then MemoFormatDBT
      else if t_versionByte t = dbfVersionDBaseIV then MemoFormatDBaseIV
      else MemoFormatNone)"

definition SetCodePage :: "(byte \<Rightarrow> charmap) \<Rightarrow> byte \<Rightarrow> (dbf_table, unit) op" where
  "SetCodePage tables cp t =
     (case newTextCodec tables cp of
        Inl e \<Rightarrow> (t, Inl e)
      | Inr codec \<Rightarrow>
          (t\<lparr>t_codec := codec,
             t_encoding := \<lparr>enc_Source = EncodingSourceExplicitOverride, enc_Name = CodePage_String cp, enc_codec = codec\<rparr>\<rparr>,
           Inr ()))"

definition SetEncoding :: "dbf_encoding \<Rightarrow> dbf_table \<Rightarrow> dbf_table" where
  "SetEncoding enc t = t\<lparr>t_codec := enc_codec enc, t_encoding := enc\<rparr>"

definition checkRecno :: "u32 \<Rightarrow> dbf_table \<Rightarrow> error + unit" where
  "checkRecno recno t =
     (if recno = 0 then Inl (Errorf ''record numbers are one-based'')
      else if recno > t_recordCount t then Inl (Wrap ''record'' ErrEOF)
      else Inr ())"

text \<open>\<open>recno - 1\<close> is a 32-bit subtraction; the product of a 32-bit and a 16-bit number fits an \<open>int64\<close>.\<close>

definition recordOffset :: "u32 \<Rightarrow> dbf_table \<Rightarrow> nat" where
  "recordOffset recno t = t_recordStart t + unat (recno - 1) * unat (RecordSize (t_schema t))"

definition recordBytes :: "dbf_table \<Rightarrow> nat" where
  "recordBytes t = unat (RecordSize (t_schema t))"

definition flushHeader :: "gotime \<Rightarrow> (dbf_table, unit) op" where
  "flushHeader now t =
     (let t = t\<lparr>t_header := (t_header t)\<lparr>h_LastUpdate := now\<rparr>\<rparr> in
      case writeHeader (t_header t) (word_of_nat (t_recordStart t)) (RecordSize (t_schema t)) (t_recordCount t)
             (t_versionByte t) (t_tableFlags t) of
        Inl e \<Rightarrow> (t, Inl e)
      | Inr raw \<Rightarrow> (t\<lparr>t_rw := writeAt (t_rw t) 0 raw\<rparr>, Inr ()))"

definition Flush :: "gotime \<Rightarrow> (dbf_table, unit) op" where
  "Flush = flushHeader"

definition table_Get :: "(bytes \<Rightarrow> u64 option) \<Rightarrow> u32 \<Rightarrow> dbf_table \<Rightarrow> error + dbf_record" where
  "table_Get parseFloat recno t =
     bindR (checkRecno recno t) (\<lambda>_.
       case readAt (t_rw t) (recordOffset recno t) (recordBytes t) of
         Inl e \<Rightarrow> Inl (Wrap ''reading record'' e)
       | Inr raw \<Rightarrow> (case decodeRecord parseFloat (t_schema t) raw of
           Inl e \<Rightarrow> Inl (Wrap ''record'' e)
         | Inr record \<Rightarrow> Inr (applyDecode (t_codec t) (t_schema t) record)))"

definition encodeFor :: "dbf_table \<Rightarrow> dbf_record \<Rightarrow> error + bytes" where
  "encodeFor t record = bindR (applyEncode (t_codec t) (t_schema t) record) (encodeRecord (t_schema t))"

definition table_Put :: "gotime \<Rightarrow> u32 \<Rightarrow> dbf_record \<Rightarrow> (dbf_table, unit) op" where
  "table_Put now recno record t =
     (case checkRecno recno t of
        Inl e \<Rightarrow> (t, Inl e)
      | Inr _ \<Rightarrow> (case encodeFor t record of
          Inl e \<Rightarrow> (t, Inl (Wrap ''record'' e))
        | Inr raw \<Rightarrow> flushHeader now (t\<lparr>t_rw := writeAt (t_rw t) (recordOffset recno t) raw\<rparr>)))"

text \<open>\<open>Append\<close> writes the record, then the end-of-file marker at the position the first write left.\<close>

definition table_Append :: "gotime \<Rightarrow> dbf_record \<Rightarrow> (dbf_table, u32) op" where
  "table_Append now record t =
     (case encodeFor t record of
        Inl e \<Rightarrow> (t, Inl e)
      | Inr raw \<Rightarrow>
          let recno = t_recordCount t + 1;
              off = recordOffset recno t;
              t = t\<lparr>t_rw := writeAt (t_rw t) off raw\<rparr>;
              t = t\<lparr>t_rw := writeAt (t_rw t) (off + length raw) [fileTerminator]\<rparr>;
              t = t\<lparr>t_recordCount := recno\<rparr>
          in bindS (flushHeader now) (\<lambda>_. returnS recno) t)"

definition setDeletionMarker :: "gotime \<Rightarrow> u32 \<Rightarrow> byte \<Rightarrow> (dbf_table, unit) op" where
  "setDeletionMarker now recno marker t =
     (case checkRecno recno t of
        Inl e \<Rightarrow> (t, Inl e)
      | Inr _ \<Rightarrow> flushHeader now (t\<lparr>t_rw := writeAt (t_rw t) (recordOffset recno t) [marker]\<rparr>))"

definition table_Delete :: "gotime \<Rightarrow> u32 \<Rightarrow> (dbf_table, unit) op" where
  "table_Delete now recno = setDeletionMarker now recno deletedMarker"

definition table_Undelete :: "gotime \<Rightarrow> u32 \<Rightarrow> (dbf_table, unit) op" where
  "table_Undelete now recno = setDeletionMarker now recno activeMarker"

definition Reload :: "(dbf_table, unit) op" where
  "Reload t =
     (case readHeader (t_rw t) of
        Inl e \<Rightarrow> (t, Inl (Wrap ''dbf: reload'' e))
      | Inr (header, info) \<Rightarrow>
          if hi_recordSize info \<noteq> RecordSize (t_schema t)
          then (t, Inl (Errorf ''dbf: reload: record size has changed''))
          else (t\<lparr>t_recordCount := hi_recordCount info,
                  t_header := (t_header t)\<lparr>h_LastUpdate := h_LastUpdate header\<rparr>\<rparr>, Inr ()))"

section \<open>Opening\<close>

definition dbfTableFlagDBC :: byte where "dbfTableFlagDBC = 0x04"
definition dbfTableFlagBlipper :: byte where "dbfTableFlagBlipper = 0x08"
definition dbfTableFlagDBCPair :: byte where "dbfTableFlagDBCPair = dbfTableFlagDBC OR dbfTableFlagBlipper"

definition trimBacklink :: "bytes \<Rightarrow> bytes" where
  "trimBacklink b = takeWhile (\<lambda>c. c \<noteq> 0) b"

text \<open>The backlink read from the position after the field terminator; empty when byte 28 does not name one.\<close>

definition readBacklink :: "bytes \<Rightarrow> nat \<Rightarrow> header_info \<Rightarrow> schema \<Rightarrow> error + bytes" where
  "readBacklink f pos info sch =
     (let tableFlags = hi_tableFlags info in
      if tableFlags AND dbfTableFlagBlipper \<noteq> 0 \<and> tableFlags AND dbfTableFlagDBC = 0
        then Inl (Errorf ''malformed header: byte 28'')
      else if tableFlags AND dbfTableFlagDBC \<noteq> 0 then
        (if int (unat (hi_headerSize info)) - int (unat (HeaderSize sch)) < int dbfBacklinkSize
           then Inl (Errorf ''DBC-owned table: header padding too small'')
         else case readAt f pos dbfBacklinkSize of
             Inl e \<Rightarrow> Inl (Wrap ''reading backlink'' e)
           | Inr pad \<Rightarrow> Inr (trimBacklink pad))
      else Inr [])"

definition headerEncoding :: "byte \<Rightarrow> textcodec \<Rightarrow> dbf_encoding" where
  "headerEncoding cp codec =
     (if cp \<noteq> 0x00
      then \<lparr>enc_Source = EncodingSourceHeaderByte29, enc_Name = CodePage_String cp, enc_codec = codec\<rparr>
      else \<lparr>enc_Source = EncodingSourceIdentity, enc_Name = ascii ''identity'', enc_codec = codec\<rparr>)"

definition checkLayout :: "header_info \<Rightarrow> schema \<Rightarrow> error + unit" where
  "checkLayout info sch =
     (case validateForOpen sch of
        Inl e \<Rightarrow> Inl (Wrap ''invalid schema'' e)
      | Inr _ \<Rightarrow>
          if hi_recordSize info \<noteq> RecordSize sch
            then Inl (Errorf ''header record size disagrees with field descriptors'')
          else if hi_headerSize info < HeaderSize sch then Inl (Errorf ''header size too small'')
          else Inr ())"

definition table_Open :: "(byte \<Rightarrow> charmap) \<Rightarrow> bytes \<Rightarrow> error + dbf_table" where
  "table_Open tables rw =
     (case readHeader rw of
        Inl e \<Rightarrow> Inl (Wrap ''reading header'' e)
      | Inr (header, info) \<Rightarrow>
          (case readFields rw fileHeaderSize (isDBaseLineage (hi_versionByte info)) of
             Inl e \<Rightarrow> Inl (Wrap ''reading field descriptors'' e)
           | Inr (sch, pos) \<Rightarrow>
               bindR (checkLayout info sch) (\<lambda>_.
               bindR (readBacklink rw pos info sch) (\<lambda>backlink.
               bindR (newTextCodec tables (h_CodePage header)) (\<lambda>codec.
                 Inr \<lparr>t_rw = rw, t_header = header, t_schema = sch, t_recordCount = hi_recordCount info,
                      t_recordStart = unat (hi_headerSize info), t_hasMemo = hi_hasMemo info,
                      t_versionByte = hi_versionByte info, t_tableFlags = hi_tableFlags info,
                      t_backlink = backlink, t_codec = codec,
                      t_encoding = headerEncoding (h_CodePage header) codec\<rparr>)))))"

section \<open>Creating\<close>

text \<open>A stream given to a constructor may hold old bytes, which the writes replace one by one.\<close>

definition zero_encoding :: dbf_encoding where
  "zero_encoding = \<lparr>enc_Source = EncodingSourceIdentity, enc_Name = [], enc_codec = None\<rparr>"

definition createAs :: "(byte \<Rightarrow> charmap) \<Rightarrow> gotime \<Rightarrow> byte \<Rightarrow> bytes \<Rightarrow> schema \<Rightarrow> error + dbf_table" where
  "createAs tables now versionByte rw sch =
     (let header = \<lparr>h_LastUpdate = now, h_CodePage = 0\<rparr> in
      case writeHeader header (HeaderSize sch) (RecordSize sch) 0 versionByte 0 of
        Inl e \<Rightarrow> Inl (Wrap ''writing header'' e)
      | Inr raw \<Rightarrow>
          let rw = writeAt rw 0 raw;
              rw = writeAt rw fileHeaderSize (fields_bytes sch);
              rw = writeAt rw (fileHeaderSize + length (fields_bytes sch)) [fileTerminator]
          in bindR (newTextCodec tables (h_CodePage header)) (\<lambda>codec.
               Inr \<lparr>t_rw = rw, t_header = header, t_schema = sch, t_recordCount = 0,
                    t_recordStart = unat (HeaderSize sch), t_hasMemo = HasMemo sch, t_versionByte = versionByte,
                    t_tableFlags = 0, t_backlink = [], t_codec = codec, t_encoding = zero_encoding\<rparr>))"

definition table_Create :: "(byte \<Rightarrow> charmap) \<Rightarrow> gotime \<Rightarrow> bytes \<Rightarrow> schema \<Rightarrow> error + dbf_table" where
  "table_Create tables now rw sch =
     (case Validate sch of
        Inl e \<Rightarrow> Inl (Wrap ''invalid schema'' e)
      | Inr _ \<Rightarrow> createAs tables now (if HasMemo sch then dbfVersionMemo else dbfVersion) rw sch)"

definition CreateDBaseIV :: "(byte \<Rightarrow> charmap) \<Rightarrow> gotime \<Rightarrow> bytes \<Rightarrow> schema \<Rightarrow> byte \<Rightarrow> error + dbf_table" where
  "CreateDBaseIV tables now rw sch kind =
     (case Validate sch of
        Inl e \<Rightarrow> Inl (Wrap ''invalid schema'' e)
      | Inr _ \<Rightarrow>
          if kind = dbfVersionDBaseIV then
            (if \<not> HasMemo sch then Inl (Errorf ''requires a Memo field'') else createAs tables now kind rw sch)
          else if kind = dbfVersionDBaseIVSQLTable \<or> kind = dbfVersionDBaseIVSQLSystem then
            (if HasMemo sch then Inl (Errorf ''refuses a schema with a Memo field'')
             else createAs tables now kind rw sch)
          else Inl (Wrap ''dbf'' (Errorf ''unrecognized DBaseIVTableKind'')))"

definition CreateWithBacklink :: "gotime \<Rightarrow> bytes \<Rightarrow> schema \<Rightarrow> bytes \<Rightarrow> error + dbf_table" where
  "CreateWithBacklink now rw sch backlinkPath =
     (case Validate sch of
        Inl e \<Rightarrow> Inl (Wrap ''invalid schema'' e)
      | Inr _ \<Rightarrow>
          if length backlinkPath \<ge> dbfBacklinkSize then Inl (Errorf ''backlink path too long'')
          else
            let header = \<lparr>h_LastUpdate = now, h_CodePage = 0\<rparr>;
                versionByte = (if HasMemo sch then dbfVersionMemo else dbfVersion);
                physHeaderSize = HeaderSize sch + word_of_nat dbfBacklinkSize
            in case writeHeader header physHeaderSize (RecordSize sch) 0 versionByte dbfTableFlagDBCPair of
                 Inl e \<Rightarrow> Inl (Wrap ''writing header'' e)
               | Inr raw \<Rightarrow>
                   let fields_end = fileHeaderSize + length (fields_bytes sch);
                       rw = writeAt rw 0 raw;
                       rw = writeAt rw fileHeaderSize (fields_bytes sch);
                       rw = writeAt rw fields_end
                              (backlinkPath @ replicate (dbfBacklinkSize - length backlinkPath) 0);
                       rw = writeAt rw (fields_end + dbfBacklinkSize) [fileTerminator]
                   in Inr \<lparr>t_rw = rw, t_header = header, t_schema = sch, t_recordCount = 0,
                           t_recordStart = unat physHeaderSize, t_hasMemo = HasMemo sch,
                           t_versionByte = versionByte, t_tableFlags = dbfTableFlagDBCPair,
                           t_backlink = backlinkPath, t_codec = None, t_encoding = zero_encoding\<rparr>)"

section \<open>Cursors\<close>

record table_cursor =
  tc_recno :: u32
  tc_current :: dbf_record
  tc_err :: "error option"

definition table_Cursor :: table_cursor where
  "table_Cursor = \<lparr>tc_recno = 0, tc_current = \<lparr>r_Deleted = False, r_Values = []\<rparr>, tc_err = None\<rparr>"

definition cursor_Next :: "(bytes \<Rightarrow> u64 option) \<Rightarrow> dbf_table \<Rightarrow> table_cursor \<Rightarrow> table_cursor \<times> bool" where
  "cursor_Next parseFloat t c =
     (if tc_err c \<noteq> None then (c, False)
      else if tc_recno c \<ge> t_recordCount t then (c, False)
      else
        let c = c\<lparr>tc_recno := tc_recno c + 1\<rparr> in
        case table_Get parseFloat (tc_recno c) t of
          Inl e \<Rightarrow> (c\<lparr>tc_err := Some e\<rparr>, False)
        | Inr record \<Rightarrow> (c\<lparr>tc_current := record\<rparr>, True))"

end
