(* ===== verification/DbfRows.thy ===== *)
theory DbfRows
  imports DbfTable
begin

text \<open>
  The rows of a table: \<open>rows t\<close> lists the raw bytes of the records in record-number order, and each
  operation of \<open>dbf.Table\<close> is shown to be one list operation on it.  \<open>kept t t'\<close> is the part of the
  table that no operation touches, with the bytes between the file header and the first record.
\<close>

definition row_size :: "dbf_table \<Rightarrow> nat" where
  "row_size t = record_size (t_schema t)"

definition row_count :: "dbf_table \<Rightarrow> nat" where
  "row_count t = unat (t_recordCount t)"

definition rows :: "dbf_table \<Rightarrow> bytes list" where
  "rows t = slots (t_recordStart t) (row_size t) (row_count t) (t_rw t)"

definition wf_table :: "dbf_table \<Rightarrow> bool" where
  "wf_table t \<longleftrightarrow> row_size t \<le> MaxRecordSize \<and> 32 \<le> t_recordStart t \<and> t_recordStart t < 2 ^ 16
     \<and> t_recordStart t + row_count t * row_size t \<le> length (t_rw t)"

definition preamble :: "dbf_table \<Rightarrow> bytes" where
  "preamble t = seg 32 (t_recordStart t - 32) (t_rw t)"

definition kept :: "dbf_table \<Rightarrow> dbf_table \<Rightarrow> bool" where
  "kept t t' \<longleftrightarrow> t_schema t' = t_schema t \<and> t_recordStart t' = t_recordStart t \<and> t_hasMemo t' = t_hasMemo t
     \<and> t_versionByte t' = t_versionByte t \<and> t_tableFlags t' = t_tableFlags t \<and> t_backlink t' = t_backlink t
     \<and> t_codec t' = t_codec t \<and> t_encoding t' = t_encoding t
     \<and> h_CodePage (t_header t') = h_CodePage (t_header t) \<and> preamble t' = preamble t"

text \<open>The header on the disk says what the table in memory says.\<close>

definition header_stored :: "dbf_table \<Rightarrow> bool" where
  "header_stored t \<longleftrightarrow> (\<exists>date.
     encodeHeaderDate (h_LastUpdate (t_header t)) = Inr date \<and>
     seg 0 32 (t_rw t) = dbf_header_bytes date (h_CodePage (t_header t)) (word_of_nat (t_recordStart t))
       (RecordSize (t_schema t)) (t_recordCount t) (t_versionByte t) (t_tableFlags t))"

lemma length_rows [simp]: "length (rows t) = row_count t"
  by (simp add: rows_def)

lemma row_size_pos [simp]: "0 < row_size t"
  by (simp add: row_size_def record_size_def)

lemma kept_refl [simp]: "kept t t"
  by (simp add: kept_def)

lemma kept_trans: "kept t u \<Longrightarrow> kept u v \<Longrightarrow> kept t v"
  by (simp add: kept_def)

lemma recordBytes_row_size: "wf_table t \<Longrightarrow> recordBytes t = row_size t"
  by (simp add: wf_table_def recordBytes_def row_size_def RecordSize_def unat_of_nat MaxRecordSize_def)

lemma recno_pos: "recno \<noteq> 0 \<Longrightarrow> unat (recno - 1) = unat recno - 1" for recno :: u32
  by (simp add: unat_minus_one)

lemma recordOffset_slot:
  "wf_table t \<Longrightarrow> recno \<noteq> 0 \<Longrightarrow> recordOffset recno t = t_recordStart t + (unat recno - 1) * row_size t"
  using recordBytes_row_size [of t] by (simp add: recordOffset_def recordBytes_def recno_pos)

lemma checkRecno_ok: "checkRecno recno t = Inr () \<longleftrightarrow> recno \<noteq> 0 \<and> unat recno \<le> row_count t"
  by (simp add: checkRecno_def row_count_def word_less_nat_alt not_less)

lemma recno_cases:
  assumes "wf_table t"
  obtains (bad) e where "checkRecno recno t = Inl e" "recno = 0 \<or> row_count t < unat recno"
  | (good) i where "checkRecno recno t = Inr ()" "i < row_count t" "unat recno = Suc i"
      "recordOffset recno t = t_recordStart t + i * row_size t"
proof (cases "checkRecno recno t")
  case (Inl e)
  then have "\<not> (recno \<noteq> 0 \<and> unat recno \<le> row_count t)"
    using checkRecno_ok [of recno t] by simp
  then show ?thesis
    using Inl bad by force
next
  case (Inr u)
  then have "recno \<noteq> 0" "unat recno \<le> row_count t"
    using checkRecno_ok [of recno t] by simp_all
  moreover then have "0 < unat recno"
    by (simp add: unat_gt_0)
  ultimately show ?thesis
    using Inr good [of "unat recno - 1"] recordOffset_slot [OF assms] by simp
qed

lemma recno_of: "i < row_count t \<Longrightarrow> unat (word_of_nat (Suc i) :: u32) = Suc i"
proof -
  assume "i < row_count t"
  moreover have "row_count t < 2 ^ 32"
    using unsigned_less [of "t_recordCount t"] by (simp add: row_count_def)
  ultimately show ?thesis
    by (simp add: unat_of_nat del: of_nat_Suc)
qed

section \<open>Reading a row\<close>

text \<open>The record the bytes of one row decode to.\<close>

definition record_of :: "(bytes \<Rightarrow> u64 option) \<Rightarrow> dbf_table \<Rightarrow> bytes \<Rightarrow> error + dbf_record" where
  "record_of parseFloat t raw =
     (case decodeRecord parseFloat (t_schema t) raw of
        Inl e \<Rightarrow> Inl (Wrap ''record'' e)
      | Inr record \<Rightarrow> Inr (applyDecode (t_codec t) (t_schema t) record))"

lemma readAt_row:
  assumes "wf_table t" "i < row_count t"
  shows "readAt (t_rw t) (t_recordStart t + i * row_size t) (row_size t) = Inr (rows t ! i)"
  using assms slot_bound [OF assms(2), of "row_size t"] by (simp add: readAt_def wf_table_def rows_def)

lemma table_Get_rows:
  assumes "wf_table t"
  shows "table_Get pf recno t =
    (if recno \<noteq> 0 \<and> unat recno \<le> row_count t then record_of pf t (rows t ! (unat recno - 1))
     else table_Get pf recno t)"
    and "recno = 0 \<or> row_count t < unat recno \<Longrightarrow> \<exists>e. table_Get pf recno t = Inl e"
proof -
  show "table_Get pf recno t =
    (if recno \<noteq> 0 \<and> unat recno \<le> row_count t then record_of pf t (rows t ! (unat recno - 1))
     else table_Get pf recno t)"
    using assms readAt_row [OF assms]
    by (cases rule: recno_cases [OF assms, of recno])
       (auto simp: table_Get_def record_of_def recordBytes_row_size)
  show "\<exists>e. table_Get pf recno t = Inl e" if "recno = 0 \<or> row_count t < unat recno"
    using that by (cases rule: recno_cases [OF assms, of recno]) (auto simp: table_Get_def)
qed

lemma table_Get_row:
  assumes "wf_table t" "i < row_count t"
  shows "table_Get pf (word_of_nat (Suc i)) t = record_of pf t (rows t ! i)"
proof -
  have "unat (word_of_nat (Suc i) :: u32) = Suc i"
    by (rule recno_of [OF assms(2)])
  moreover then have "(word_of_nat (Suc i) :: u32) \<noteq> 0"
    by (metis nat.distinct(1) unat_0)
  ultimately show ?thesis
    using table_Get_rows(1) [OF assms(1), of pf "word_of_nat (Suc i)"] assms(2) by (simp del: of_nat_Suc)
qed

section \<open>The header\<close>

lemma flushHeader_ok:
  assumes wf: "wf_table t" and now: "1900 \<le> t_year now"
  shows "\<exists>t'. flushHeader now t = (t', Inr ()) \<and> wf_table t' \<and> kept t t' \<and> t_recordCount t' = t_recordCount t
    \<and> rows t' = rows t \<and> header_stored t' \<and> h_LastUpdate (t_header t') = now
    \<and> drop 32 (t_rw t') = drop 32 (t_rw t)"
proof -
  let ?date = "[word_of_int (t_year now mod 100), word_of_nat (t_month now), word_of_nat (t_day now)]"
  have d: "encodeHeaderDate now = Inr ?date"
    using now by (auto simp: encodeHeaderDate_def zero_time_def)
  define raw where "raw = dbf_header_bytes ?date (h_CodePage (t_header t)) (word_of_nat (t_recordStart t))
    (RecordSize (t_schema t)) (t_recordCount t) (t_versionByte t) (t_tableFlags t)"
  define t' where "t' = t\<lparr>t_header := (t_header t)\<lparr>h_LastUpdate := now\<rparr>, t_rw := writeAt (t_rw t) 0 raw\<rparr>"
  have len: "length raw = 32"
    by (simp add: raw_def)
  have bounds: "32 \<le> t_recordStart t" "t_recordStart t + row_count t * row_size t \<le> length (t_rw t)"
    using wf by (simp_all add: wf_table_def)
  have same: "row_size t' = row_size t" "row_count t' = row_count t"
    by (simp_all add: t'_def row_size_def row_count_def)
  have "flushHeader now t = (t', Inr ())"
    by (simp add: flushHeader_def writeHeader_def d Let_def t'_def raw_def)
  moreover have "wf_table t'"
    using wf by (simp add: wf_table_def same) (auto simp: t'_def length_writeAt)
  moreover have "rows t' = rows t"
    using bounds len unfolding rows_def same by (simp add: t'_def slots_write_outside)
  moreover have "preamble t' = preamble t"
    using bounds len by (simp add: preamble_def t'_def seg_writeAt_other)
  moreover have "seg 0 32 (t_rw t') = raw"
    using len by (simp add: t'_def seg_writeAt_same)
  then have "header_stored t'"
    using d by (simp add: header_stored_def t'_def raw_def)
  moreover have "drop 32 (t_rw t') = drop 32 (t_rw t)"
    using bounds len by (intro nth_equalityI) (auto simp: t'_def length_writeAt nth_writeAt)
  ultimately show ?thesis
    by (intro exI [of _ t']) (simp add: kept_def t'_def)
qed

definition clock_ok :: "gotime \<Rightarrow> bool" where
  "clock_ok now \<longleftrightarrow> 1900 \<le> t_year now"

lemma flush_after:
  assumes t: "wf_table t" and u: "wf_table u" "kept t u" and now: "clock_ok now"
  shows "\<exists>t'. flushHeader now u = (t', Inr ()) \<and> wf_table t' \<and> kept t t' \<and> header_stored t'
    \<and> t_recordCount t' = t_recordCount u \<and> rows t' = rows u"
  using flushHeader_ok [OF u(1)] now kept_trans [OF u(2)] unfolding clock_ok_def by blast

section \<open>Encoded records fill their row\<close>

lemma length_fill_field [simp]: "length bs \<le> n \<Longrightarrow> length (fill_field n bs) = n"
  by (simp add: fill_field_def)

lemma length_encodePadded [simp]: "length (encodePadded n s) = n"
  by (simp add: encodePadded_def)

lemma encodeNumeric_length: "encodeNumeric n f v = Inr bs \<Longrightarrow> length bs = n"
  by (auto simp: encodeNumeric_def FormatNumeric_def Let_def split: if_splits option.splits)

lemma encodeDate_length: "encodeDate n t = Inr bs \<Longrightarrow> length bs = n"
  by (auto simp: encodeDate_def split: if_splits)

lemma encodeVFPValue_length: "encodeVFPValue n f v = Some (Inr bs) \<Longrightarrow> length bs = n"
  by (cases v) (auto simp: encodeVFPValue_def Let_def bindR_Inr_iff split: if_splits prod.splits sum.splits)

lemma encodeValue_length: "encodeValue n f v = Inr bs \<Longrightarrow> length bs = n"
proof (cases "encodeVFPValue n f v")
  case (Some r)
  then show "encodeValue n f v = Inr bs \<Longrightarrow> length bs = n"
    by (cases v) (auto simp: encodeValue_def Let_def intro: encodeVFPValue_length split: if_splits)
next
  case None
  then show "encodeValue n f v = Inr bs \<Longrightarrow> length bs = n"
    by (cases v) (auto simp: encodeValue_def Let_def intro: encodeNumeric_length encodeDate_length
        split: if_splits)
qed

lemma encodeFields_length: "encodeFields fs vs = Inr bs \<Longrightarrow> Suc (length bs) = record_size fs"
proof (induction fs vs arbitrary: bs rule: encodeFields.induct)
  case (3 f fs v vs)
  then obtain b rest where "encodeValue (unat (f_Length f)) f v = Inr b" "encodeFields fs vs = Inr rest" "bs = b @ rest"
    by (auto simp: bindR_Inr_iff split: sum.splits)
  then show ?case
    using "3.IH" [of b rest] encodeValue_length [of "unat (f_Length f)" f v b] by (simp add: record_size_def)
qed (auto simp: record_size_def)

lemma encodeFor_length: "encodeFor t r = Inr raw \<Longrightarrow> length raw = row_size t"
  by (auto simp: encodeFor_def encodeRecord_def row_size_def bindR_Inr_iff split: if_splits dest!: encodeFields_length)

lemma encodeRecord_cons:
  "encodeRecord sch r = Inr raw \<longleftrightarrow> length (r_Values r) = length sch \<and> (\<exists>bs. encodeFields sch (r_Values r) = Inr bs
     \<and> raw = (if r_Deleted r then deletedMarker else activeMarker) # bs)"
  by (auto simp: encodeRecord_def bindR_Inr_iff)

section \<open>Writing rows\<close>

lemma at_row:
  assumes wf: "wf_table t" and i: "i < row_count t"
  shows "checkRecno (word_of_nat (Suc i)) t = Inr ()"
    "recordOffset (word_of_nat (Suc i)) t = t_recordStart t + i * row_size t"
proof -
  have n: "unat (word_of_nat (Suc i) :: u32) = Suc i"
    by (rule recno_of [OF i])
  then have z: "(word_of_nat (Suc i) :: u32) \<noteq> 0"
    by (metis nat.distinct(1) unat_0)
  then show "checkRecno (word_of_nat (Suc i)) t = Inr ()"
    using n i by (simp add: checkRecno_ok del: of_nat_Suc)
  show "recordOffset (word_of_nat (Suc i)) t = t_recordStart t + i * row_size t"
    using n recordOffset_slot [OF wf z] by (simp del: of_nat_Suc)
qed

lemma table_Put_rows:
  assumes wf: "wf_table t" and now: "clock_ok now" and i: "i < row_count t"
    and enc1: "encodeFor t r = Inr raw"
  shows "\<exists>t'. table_Put now (word_of_nat (Suc i)) r t = (t', Inr ()) \<and> wf_table t' \<and> kept t t' \<and> header_stored t'
    \<and> t_recordCount t' = t_recordCount t \<and> rows t' = (rows t)[i := raw]"
proof -
  note enc = enc1 encodeFor_length [OF enc1]
  let ?u = "t\<lparr>t_rw := writeAt (t_rw t) (t_recordStart t + i * row_size t) raw\<rparr>"
  have u: "wf_table ?u \<and> kept t ?u \<and> rows ?u = (rows t)[i := raw]"
    using slots_write [OF i, of raw "row_size t"] wf enc(2)
    by (auto simp: wf_table_def kept_def preamble_def rows_def row_size_def row_count_def length_writeAt seg_writeAt_other)
  have "table_Put now (word_of_nat (Suc i)) r t = flushHeader now ?u"
    using at_row [OF wf i] enc(1) by (simp add: table_Put_def del: of_nat_Suc)
  then show ?thesis
    using flush_after [OF wf, of ?u, OF _ _ now] u by auto
qed

lemma setDeletionMarker_rows:
  assumes wf: "wf_table t" and now: "clock_ok now" and i: "i < row_count t"
  shows "\<exists>t'. setDeletionMarker now (word_of_nat (Suc i)) m t = (t', Inr ()) \<and> wf_table t' \<and> kept t t'
    \<and> header_stored t' \<and> t_recordCount t' = t_recordCount t \<and> rows t' = (rows t)[i := m # tl (rows t ! i)]"
proof -
  let ?u = "t\<lparr>t_rw := writeAt (t_rw t) (t_recordStart t + i * row_size t) [m]\<rparr>"
  have u: "wf_table ?u \<and> kept t ?u \<and> rows ?u = (rows t)[i := m # tl (rows t ! i)]"
    using slots_write_head [OF i row_size_pos, of "t_recordStart t" t "t_rw t" m] wf
    by (auto simp: wf_table_def kept_def preamble_def rows_def row_size_def row_count_def length_writeAt seg_writeAt_other)
  have "setDeletionMarker now (word_of_nat (Suc i)) m t = flushHeader now ?u"
    using at_row [OF wf i] by (simp add: setDeletionMarker_def del: of_nat_Suc)
  then show ?thesis
    using flush_after [OF wf, of ?u, OF _ _ now] u by auto
qed

lemma table_Append_rows:
  assumes wf: "wf_table t" and now: "clock_ok now" and room: "t_recordCount t \<noteq> - 1"
    and enc1: "encodeFor t r = Inr raw"
  shows "\<exists>t'. table_Append now r t = (t', Inr (t_recordCount t + 1)) \<and> wf_table t' \<and> kept t t' \<and> header_stored t'
    \<and> row_count t' = Suc (row_count t) \<and> rows t' = rows t @ [raw]"
proof -
  note enc = enc1 encodeFor_length [OF enc1]
  let ?n = "row_count t" and ?s = "t_recordStart t" and ?w = "row_size t"
  let ?rw = "writeAt (writeAt (t_rw t) (?s + ?n * ?w) raw) (?s + ?n * ?w + ?w) [fileTerminator]"
  let ?u = "t\<lparr>t_rw := ?rw, t_recordCount := t_recordCount t + 1\<rparr>"
  have b: "32 \<le> ?s" "?s + ?n * ?w \<le> length (t_rw t)"
    using wf by (simp_all add: wf_table_def)
  have n: "unat (t_recordCount t + 1) = Suc ?n"
    using room unatSuc [of "t_recordCount t"] by (metis add.commute eq_neg_iff_add_eq_0 row_count_def)
  then have ru: "row_count ?u = Suc ?n" "row_size ?u = ?w"
    by (simp_all add: row_count_def row_size_def)
  have "slots ?s ?w (Suc ?n) ?rw = rows t @ [raw]"
    using b enc(2) by (simp add: slots_write_outside length_writeAt slots_write_next rows_def)
  then have u: "wf_table ?u \<and> kept t ?u \<and> rows ?u = rows t @ [raw]"
    using wf b enc(2) unfolding wf_table_def kept_def preamble_def rows_def ru
    by (simp add: length_writeAt seg_writeAt_other)
  have "t_recordCount t + 1 \<noteq> 0"
    using n by (metis nat.distinct(1) unat_0)
  then have "recordOffset (t_recordCount t + 1) t = ?s + ?n * ?w"
    using recordOffset_slot [OF wf] n by simp
  then have "table_Append now r t = bindS (flushHeader now) (\<lambda>_. returnS (t_recordCount t + 1)) ?u"
    using enc by (simp add: table_Append_def Let_def)
  moreover obtain t' where "flushHeader now ?u = (t', Inr ())" "wf_table t' \<and> kept t t' \<and> header_stored t'
      \<and> t_recordCount t' = t_recordCount ?u \<and> rows t' = rows ?u"
    using flush_after [OF wf, of ?u, OF _ _ now] u by auto
  ultimately show ?thesis
    using u ru by (intro exI [of _ t']) (simp add: steps row_count_def)
qed

end
