(* ===== verification/DbfPack.thy ===== *)
theory DbfPack
  imports DbfRows
begin

text \<open>
  Packing a table (\<open>dbf/pack.go\<close>): \<open>Pack\<close> drops the rows that carry the deletion marker and returns
  the mapping from old record numbers to new ones.  The two passes are the two recursions
  \<open>packScan\<close> and \<open>packMove\<close>; the lemmas show that on the rows of a table they are \<open>filter\<close>.
\<close>

section \<open>The record mapping\<close>

record record_mapping =
  rm_oldToNew :: "u32 list"
  rm_Removed :: u32
  rm_Kept :: u32

definition Lookup :: "u32 \<Rightarrow> record_mapping \<Rightarrow> u32 \<times> bool" where
  "Lookup old m =
     (if old = 0 \<or> unat old > length (rm_oldToNew m) then (0, False)
      else let n = rm_oldToNew m ! unat (old - 1) in (n, n \<noteq> 0))"

definition OldCount :: "record_mapping \<Rightarrow> u32" where
  "OldCount m = word_of_nat (length (rm_oldToNew m))"

definition mapping_Identity :: "record_mapping \<Rightarrow> bool" where
  "mapping_Identity m \<longleftrightarrow> rm_Removed m = 0"

section \<open>Pack\<close>

definition isDeleted :: "dbf_table \<Rightarrow> u32 \<Rightarrow> error + bool" where
  "isDeleted t recno =
     bindR (checkRecno recno t) (\<lambda>_.
     bindR (readAt (t_rw t) (recordOffset recno t) 1) (\<lambda>marker.
       Inr (marker ! 0 = deletedMarker)))"

lemma isDeleted_zero: "isDeleted t 0 = Inl (Errorf ''record numbers are one-based'')"
  by (simp add: isDeleted_def checkRecno_def)

text \<open>The first pass.  When the count is the largest 32-bit number the loop variable wraps to 0, and the
  check of record 0 ends the pass with an error.\<close>

function packScan :: "dbf_table \<Rightarrow> u32 \<Rightarrow> u32 list \<Rightarrow> record_mapping \<Rightarrow> error + u32 list \<times> record_mapping" where
  "packScan t old survivors m =
     (if old \<le> t_recordCount t then
        (case isDeleted t old of
           Inl e \<Rightarrow> Inl (Wrap ''pack: reading deletion flag'' e)
         | Inr deleted \<Rightarrow>
             if deleted then packScan t (old + 1) survivors (m\<lparr>rm_Removed := rm_Removed m + 1\<rparr>)
             else
               let kept = rm_Kept m + 1 in
               packScan t (old + 1) (survivors @ [old])
                 (m\<lparr>rm_Kept := kept, rm_oldToNew := (rm_oldToNew m)[unat (old - 1) := kept]\<rparr>))
      else Inr (survivors, m))"
  by pat_completeness auto

lemma scan_decreases:
  assumes "isDeleted t old = Inr d"
  shows "(if old + 1 = 0 then 0 else 2 ^ 32 - unat (old + 1)) < (if old = 0 then 0 else 2 ^ 32 - unat old)"
proof -
  have "old \<noteq> 0"
    using assms by (auto simp: isDeleted_zero)
  moreover have "unat old < 2 ^ 32"
    using unsigned_less [of old] by simp
  moreover have "unat (old + 1) = Suc (unat old)" if "old + 1 \<noteq> 0"
    using that unatSuc [of old] by (simp add: add.commute)
  ultimately show ?thesis
    by auto
qed

termination packScan
  by (relation "measure (\<lambda>(t, old, s, m). if old = 0 then 0 else 2 ^ 32 - unat old)")
     (use scan_decreases in \<open>auto split: if_splits\<close>)

declare packScan.simps [simp del]

text \<open>The second pass over the survivors from index \<open>k\<close> on.\<close>

fun packMove :: "u32 list \<Rightarrow> nat \<Rightarrow> (dbf_table, unit) op" where
  "packMove [] k t = (t, Inr ())"
| "packMove (old # olds) k t =
     (let newNo = word_of_nat (k + 1) in
      if old = newNo then packMove olds (k + 1) t
      else case readAt (t_rw t) (recordOffset old t) (recordBytes t) of
        Inl e \<Rightarrow> (t, Inl (Wrap ''pack: read old record'' e))
      | Inr buf \<Rightarrow> packMove olds (k + 1) (t\<lparr>t_rw := writeAt (t_rw t) (recordOffset newNo t) buf\<rparr>))"

text \<open>\<open>truncates\<close> says whether the stream can be truncated.\<close>

definition Truncate :: "nat \<Rightarrow> bytes \<Rightarrow> bytes" where
  "Truncate n f = take n f @ replicate (n - length f) 0"

definition Pack :: "bool \<Rightarrow> gotime \<Rightarrow> (dbf_table, record_mapping) op" where
  "Pack truncates now t =
     (case packScan t 1 [] \<lparr>rm_oldToNew = replicate (unat (t_recordCount t)) 0, rm_Removed = 0, rm_Kept = 0\<rparr> of
        Inl e \<Rightarrow> (t, Inl e)
      | Inr (survivors, m) \<Rightarrow>
          if mapping_Identity m then (t, Inr m)
          else bindS (packMove survivors 0) (\<lambda>_ t.
            let t = t\<lparr>t_recordCount := rm_Kept m\<rparr>;
                endOffset = recordOffset (rm_Kept m + 1) t;
                t = t\<lparr>t_rw := writeAt (t_rw t) endOffset [fileTerminator]\<rparr>;
                t = (if truncates then t\<lparr>t_rw := Truncate (endOffset + 1) (t_rw t)\<rparr> else t)
            in case flushHeader now t of
                 (t, Inl e) \<Rightarrow> (t, Inl (Wrap ''pack: rewrite header'' e))
               | (t, Inr _) \<Rightarrow> (t, Inr m)) t)"

section \<open>The first pass on rows\<close>

text \<open>The rows that survive, and the numbers they had.\<close>

definition alive :: "bytes \<Rightarrow> bool" where
  "alive row \<longleftrightarrow> row ! 0 \<noteq> deletedMarker"

definition alive_upto :: "bytes list \<Rightarrow> nat \<Rightarrow> nat list" where
  "alive_upto rs k = filter (\<lambda>i. alive (rs ! i)) [0..<k]"

text \<open>What the mapping says after the first \<open>k\<close> rows.\<close>

definition scanned :: "bytes list \<Rightarrow> nat \<Rightarrow> u32 list \<times> record_mapping \<Rightarrow> bool" where
  "scanned rs k = (\<lambda>(survivors, m).
     survivors = map (\<lambda>i. word_of_nat (Suc i)) (alive_upto rs k)
     \<and> rm_Kept m = word_of_nat (length (alive_upto rs k))
     \<and> rm_Removed m = word_of_nat (k - length (alive_upto rs k))
     \<and> length (rm_oldToNew m) = length rs
     \<and> (\<forall>i < length rs. rm_oldToNew m ! i =
          (if i < k \<and> alive (rs ! i) then word_of_nat (Suc (length (alive_upto rs i))) else 0)))"

lemma alive_upto_Suc: "alive_upto rs (Suc k) = alive_upto rs k @ (if alive (rs ! k) then [k] else [])"
  by (simp add: alive_upto_def)

lemma length_alive_upto: "length (alive_upto rs k) \<le> k"
  using length_filter_le [of "\<lambda>i. alive (rs ! i)" "[0..<k]"] by (simp add: alive_upto_def)

lemma alive_upto_rows: "map ((!) rs) (alive_upto rs (length rs)) = filter alive rs"
proof -
  have "filter alive rs = filter alive (map ((!) rs) [0..<length rs])"
    by (simp add: map_nth)
  then show ?thesis
    by (simp add: alive_upto_def filter_map comp_def)
qed

lemma isDeleted_row:
  assumes wf: "wf_table t" and i: "i < row_count t"
  shows "isDeleted t (word_of_nat (Suc i)) = Inr (\<not> alive (rows t ! i))"
proof -
  have "readAt (t_rw t) (t_recordStart t + i * row_size t) 1 = Inr (take 1 (rows t ! i))"
    using readAt_prefix [OF readAt_row [OF wf i], of 1] row_size_pos [of t] by simp
  then show ?thesis
    using at_row [OF wf i] by (simp add: isDeleted_def alive_def del: of_nat_Suc)
qed

lemma scanned_alive:
  assumes "scanned rs k (survivors, m)" "alive (rs ! k)" "k < length rs"
  shows "scanned rs (Suc k) (survivors @ [word_of_nat (Suc k)],
    m\<lparr>rm_Kept := rm_Kept m + 1, rm_oldToNew := (rm_oldToNew m)[k := rm_Kept m + 1]\<rparr>)"
  unfolding scanned_def prod.case
proof (intro conjI allI impI)
  fix i assume "i < length rs"
  then show "rm_oldToNew (m\<lparr>rm_Kept := rm_Kept m + 1, rm_oldToNew := (rm_oldToNew m)[k := rm_Kept m + 1]\<rparr>) ! i
      = (if i < Suc k \<and> alive (rs ! i) then word_of_nat (Suc (length (alive_upto rs i))) else 0)"
    using assms by (cases "i = k") (auto simp: scanned_def add.commute less_Suc_eq)
qed (use assms in \<open>simp_all add: scanned_def alive_upto_Suc add.commute\<close>)

lemma scanned_dead:
  assumes "scanned rs k (survivors, m)" "\<not> alive (rs ! k)" "k < length rs"
  shows "scanned rs (Suc k) (survivors, m\<lparr>rm_Removed := rm_Removed m + 1\<rparr>)"
  using assms length_alive_upto [of rs k]
  by (simp add: scanned_def alive_upto_Suc Suc_diff_le add.commute less_Suc_eq)

lemma packScan_rows:
  assumes wf: "wf_table t" and room: "t_recordCount t \<noteq> - 1" and k: "k \<le> row_count t"
    and sc: "scanned (rows t) k (survivors, m)"
  shows "\<exists>r. packScan t (word_of_nat (Suc k)) survivors m = Inr r \<and> scanned (rows t) (row_count t) r"
  using k sc
proof (induction "row_count t - k" arbitrary: k survivors m)
  case 0
  have "unat (- 1 :: u32) = 2 ^ 32 - 1"
    by (simp add: unsigned_minus_1_eq_mask mask_eq_exp_minus_1)
  moreover have "unat (t_recordCount t) < 2 ^ 32"
    using unsigned_less [of "t_recordCount t"] by simp
  ultimately have "unat (t_recordCount t) < 2 ^ 32 - 1"
    using room word_unat_eq_iff [of "t_recordCount t" "- 1"] by simp
  then have "unat (word_of_nat (Suc k) :: u32) = Suc (unat (t_recordCount t))"
    using 0 by (simp add: row_count_def unat_of_nat del: of_nat_Suc)
  then have "\<not> word_of_nat (Suc k) \<le> t_recordCount t"
    by (simp add: word_le_nat_alt del: of_nat_Suc)
  then show ?case
    using 0 by (subst packScan.simps) (simp del: of_nat_Suc)
next
  case (Suc d)
  then have k: "k < row_count t" by simp
  have n: "unat (word_of_nat (Suc k) :: u32) = Suc k"
    by (rule recno_of [OF k])
  then have le: "word_of_nat (Suc k) \<le> t_recordCount t"
    using k by (simp add: word_le_nat_alt row_count_def del: of_nat_Suc)
  have "(word_of_nat (Suc k) :: u32) \<noteq> 0"
    using n by (metis nat.distinct(1) unat_0)
  then have pred: "unat (word_of_nat (Suc k) - 1 :: u32) = k"
    using n by (simp add: recno_pos del: of_nat_Suc)
  have nxt: "(word_of_nat (Suc k) :: u32) + 1 = word_of_nat (Suc (Suc k))"
    by simp
  note step = packScan.simps [of t "word_of_nat (Suc k)" survivors m] and del = isDeleted_row [OF wf k]
  have len: "k < length (rows t)" and d: "d = row_count t - Suc k" and k': "Suc k \<le> row_count t"
    using k Suc.hyps(2) by simp_all
  show ?case
  proof (cases "alive (rows t ! k)")
    case True
    let ?m = "m\<lparr>rm_Kept := rm_Kept m + 1, rm_oldToNew := (rm_oldToNew m)[k := rm_Kept m + 1]\<rparr>"
    have "packScan t (word_of_nat (Suc k)) survivors m
        = packScan t (word_of_nat (Suc (Suc k))) (survivors @ [word_of_nat (Suc k)]) ?m"
      unfolding step nxt using le del True pred by (simp add: Let_def del: of_nat_Suc)
    then show ?thesis
      using Suc.hyps(1) [OF d k' scanned_alive [OF Suc.prems(2) True len]] by (simp del: of_nat_Suc)
  next
    case False
    have "packScan t (word_of_nat (Suc k)) survivors m
        = packScan t (word_of_nat (Suc (Suc k))) survivors (m\<lparr>rm_Removed := rm_Removed m + 1\<rparr>)"
      unfolding step nxt using le del False by (simp del: of_nat_Suc)
    then show ?thesis
      using Suc.hyps(1) [OF d k' scanned_dead [OF Suc.prems(2) False len]] by (simp del: of_nat_Suc)
  qed
qed

section \<open>The second pass on rows\<close>

lemma kept_rw: "seg 32 (t_recordStart t - 32) f = preamble t \<Longrightarrow> kept t (t\<lparr>t_rw := f\<rparr>)"
  by (simp add: kept_def preamble_def)

lemma write_row:
  assumes wf: "wf_table t" and k: "k < row_count t" and len: "length raw = row_size t"
    and u: "u = t\<lparr>t_rw := writeAt (t_rw t) (t_recordStart t + k * row_size t) raw\<rparr>"
  shows "wf_table u" "kept t u" "rows u = (rows t)[k := raw]" "t_recordCount u = t_recordCount t"
    "row_count u = row_count t" "row_size u = row_size t"
  using slots_write [OF k len] wf
  by (auto simp: u wf_table_def kept_def preamble_def rows_def row_size_def row_count_def length_writeAt seg_writeAt_other)

definition moved :: "bytes list \<Rightarrow> nat \<Rightarrow> nat list \<Rightarrow> dbf_table \<Rightarrow> dbf_table \<Rightarrow> bool" where
  "moved rs k js t t' \<longleftrightarrow> wf_table t' \<and> kept t t' \<and> t_recordCount t' = t_recordCount t
     \<and> take (k + length js) (rows t') = take k rs @ map ((!) rs) js"

lemma packMove_rows:
  assumes "wf_table t" "sorted_wrt (<) js" "\<forall>j \<in> set js. k \<le> j \<and> j < row_count t"
  shows "\<exists>t'. packMove (map (\<lambda>j. word_of_nat (Suc j)) js) k t = (t', Inr ()) \<and> moved (rows t) k js t t'"
  using assms
proof (induction js arbitrary: k t)
  case Nil
  then show ?case by (simp add: moved_def)
next
  case (Cons j js)
  let ?ops = "map (\<lambda>j. word_of_nat (Suc j)) js"
  have j: "k \<le> j" "j < row_count t" and k: "k < row_count t" and rest: "\<forall>i \<in> set js. j < i"
    using Cons.prems by auto
  have eq: "(word_of_nat (Suc j) :: u32) = word_of_nat (Suc k) \<longleftrightarrow> j = k"
    using recno_of [OF j(2)] recno_of [OF k] by (metis Suc_inject)
  have row: "take (Suc k) xs = take k xs @ [xs ! k]" if "length xs = row_count t" for xs :: "bytes list"
    using k that by (simp add: take_Suc_conv_app_nth)
  show ?case
  proof (cases "j = k")
    case True
    obtain t' where "packMove ?ops (Suc k) t = (t', Inr ())" "moved (rows t) (Suc k) js t t'"
      using Cons.IH [of t "Suc k"] Cons.prems rest True by fastforce
    then show ?thesis
      using True row [of "rows t"] by (intro exI [of _ t']) (simp add: moved_def del: of_nat_Suc)
  next
    case False
    define u where "u = t\<lparr>t_rw := writeAt (t_rw t) (t_recordStart t + k * row_size t) (rows t ! j)\<rparr>"
    have "length (rows t ! j) = row_size t"
      using readAt_length [OF readAt_row [OF Cons.prems(1) j(2)]] .
    note u = write_row [OF Cons.prems(1) k this u_def]
    obtain t' where t': "packMove ?ops (Suc k) u = (t', Inr ())" "moved (rows u) (Suc k) js u t'"
      using Cons.IH [of u "Suc k"] Cons.prems rest u j by fastforce
    have "packMove (word_of_nat (Suc j) # ?ops) k t = packMove ?ops (Suc k) u"
      using eq False at_row [OF Cons.prems(1) j(2)] at_row [OF Cons.prems(1) k] readAt_row [OF Cons.prems(1) j(2)]
      by (simp add: recordBytes_row_size [OF Cons.prems(1)] u_def del: of_nat_Suc)
    moreover have "map ((!) (rows u)) js = map ((!) (rows t)) js"
      using rest j u(3) by auto
    then have "moved (rows t) k (j # js) t t'"
      using t'(2) u k kept_trans [OF u(2)] row [of "rows u"] by (simp add: moved_def)
    ultimately show ?thesis
      using t'(1) by (intro exI [of _ t']) (simp del: of_nat_Suc)
  qed
qed

section \<open>Packing is filtering\<close>

lemma alive_upto_sorted: "sorted_wrt (<) (alive_upto rs k)" "\<forall>j \<in> set (alive_upto rs k). j < k"
  by (auto simp: alive_upto_def intro: sorted_wrt_filter)

lemma filter_alive_nth:
  assumes "i < length rs" "alive (rs ! i)"
  shows "length (alive_upto rs i) < length (filter alive rs)" "filter alive rs ! length (alive_upto rs i) = rs ! i"
proof -
  have "[0..<length rs] = [0..<i] @ i # [Suc i..<length rs]"
    using assms(1) upt_add_eq_append [of 0 i "length rs - i"] upt_conv_Cons [of i "length rs"] by simp
  then have "alive_upto rs (length rs) = alive_upto rs i @ i # filter (\<lambda>i. alive (rs ! i)) [Suc i..<length rs]"
    using assms(2) by (simp add: alive_upto_def)
  then have "filter alive rs = map ((!) rs) (alive_upto rs i) @ rs ! i # map ((!) rs) (filter (\<lambda>i. alive (rs ! i)) [Suc i..<length rs])"
    using alive_upto_rows [of rs] by simp
  then show "length (alive_upto rs i) < length (filter alive rs)" "filter alive rs ! length (alive_upto rs i) = rs ! i"
    by (simp_all add: nth_append)
qed

lemma scanned_start: "scanned rs 0 ([], \<lparr>rm_oldToNew = replicate (length rs) 0, rm_Removed = 0, rm_Kept = 0\<rparr>)"
  by (simp add: scanned_def alive_upto_def)

lemma packScan_all:
  assumes "wf_table t" "t_recordCount t \<noteq> - 1"
  shows "\<exists>survivors m. packScan t 1 [] \<lparr>rm_oldToNew = replicate (unat (t_recordCount t)) 0, rm_Removed = 0, rm_Kept = 0\<rparr>
      = Inr (survivors, m) \<and> scanned (rows t) (row_count t) (survivors, m)"
  using packScan_rows [OF assms le0 scanned_start [of "rows t", unfolded length_rows]] by (simp add: row_count_def)

lemma count_bound: "row_count t < 2 ^ 32"
  using unsigned_less [of "t_recordCount t"] by (simp add: row_count_def)

lemma unat_count: "n \<le> row_count t \<Longrightarrow> unat (word_of_nat n :: u32) = n"
  using count_bound [of t] by (simp add: unat_of_nat)

text \<open>Shrinking a table to its first \<open>n\<close> rows, with the end-of-file marker after them.\<close>

lemma cut_table:
  assumes wf: "wf_table t" and n: "n < row_count t" and cnt: "unat c = n"
    and u: "u = t\<lparr>t_recordCount := c\<rparr>"
    and f: "f = writeAt (t_rw t) (t_recordStart t + n * row_size t) [fileTerminator]"
    and g: "g = (if trunc then Truncate (t_recordStart t + n * row_size t + 1) f else f)"
  shows "wf_table (u\<lparr>t_rw := g\<rparr>) \<and> kept t (u\<lparr>t_rw := g\<rparr>) \<and> rows (u\<lparr>t_rw := g\<rparr>) = take n (rows t)"
proof -
  let ?s = "t_recordStart t" and ?w = "row_size t"
  have b: "?s + n * ?w + 1 \<le> length (t_rw t)" "32 \<le> ?s"
    using wf slot_bound [OF n, of ?w] row_size_pos [of t] unfolding wf_table_def by linarith+
  have lf: "length f = length (t_rw t)"
    using b by (simp add: f length_writeAt)
  have lg: "?s + n * ?w + 1 \<le> length g"
    using b lf by (simp add: g Truncate_def)
  have cut: "seg i m g = seg i m (t_rw t)" if "i + m \<le> ?s + n * ?w" for i m
  proof -
    have "seg i m g = seg i m f"
      using that lf b by (auto simp: g Truncate_def seg_def drop_take min_def)
    also have "\<dots> = seg i m (t_rw t)"
      using that b by (simp add: f seg_writeAt_other)
    finally show ?thesis .
  qed
  have "slots ?s ?w n g = slots ?s ?w n (t_rw t)"
    using slot_bound [of _ n ?w] by (intro nth_equalityI) (simp_all add: cut)
  then have "rows (u\<lparr>t_rw := g\<rparr>) = take n (rows t)"
    using n cnt by (simp add: rows_def u row_size_def row_count_def take_slots)
  moreover have "wf_table (u\<lparr>t_rw := g\<rparr>)"
    using wf lg cnt by (simp add: wf_table_def u row_size_def row_count_def)
  moreover have "preamble (u\<lparr>t_rw := g\<rparr>) = preamble t"
    using b by (simp add: preamble_def u cut)
  ultimately show ?thesis
    by (simp add: kept_def u)
qed

lemma Pack_rows:
  assumes wf: "wf_table t" and room: "t_recordCount t \<noteq> - 1" and now: "clock_ok now"
  shows "\<exists>t' m. Pack trunc now t = (t', Inr m) \<and> wf_table t' \<and> kept t t' \<and> rows t' = filter alive (rows t)
    \<and> (\<exists>survivors. scanned (rows t) (row_count t) (survivors, m)) \<and> (t' = t \<or> header_stored t')"
proof -
  obtain sv m where scan: "packScan t 1 [] \<lparr>rm_oldToNew = replicate (unat (t_recordCount t)) 0, rm_Removed = 0,
      rm_Kept = 0\<rparr> = Inr (sv, m)" and sc: "scanned (rows t) (row_count t) (sv, m)"
    using packScan_all [OF wf room] by blast
  define js where "js = alive_upto (rows t) (row_count t)"
  have js: "map ((!) (rows t)) js = filter alive (rows t)"
    using alive_upto_rows [of "rows t"] by (simp add: js_def)
  have le: "length js \<le> row_count t"
    using length_alive_upto by (simp add: js_def)
  have m: "sv = map (\<lambda>i. word_of_nat (Suc i)) js" "rm_Kept m = word_of_nat (length js)"
      "rm_Removed m = word_of_nat (row_count t - length js)"
    using sc by (simp_all add: scanned_def js_def)
  show ?thesis
  proof (cases "mapping_Identity m")
    case True
    then have "row_count t - length js = 0"
      using m(3) unat_count [of "row_count t - length js" t] by (simp add: mapping_Identity_def)
    then have "length (filter alive (rows t)) = length (rows t)"
      using js le by (metis diff_is_0_eq' length_map length_rows le_antisym diff_is_0_eq)
    then have "filter alive (rows t) = rows t"
      using length_filter_less by (metis filter_id_conv less_irrefl)
    then show ?thesis
      using scan True wf sc by (intro exI [of _ t] exI [of _ m]) (auto simp: Pack_def)
  next
    case False
    then have lt: "length js < row_count t"
      using m(3) le by (cases "length js = row_count t") (auto simp: mapping_Identity_def)
    obtain t1 where t1: "packMove sv 0 t = (t1, Inr ())" "wf_table t1" "kept t t1"
        "t_recordCount t1 = t_recordCount t" "take (length js) (rows t1) = filter alive (rows t)"
      using packMove_rows [OF wf, of js 0] alive_upto_sorted [of "rows t" "row_count t"] js m(1)
      by (auto simp: js_def moved_def)
    have n: "unat (rm_Kept m) = length js" "length js < row_count t1"
      using m(2) unat_count [OF le] lt t1(4) by (simp_all add: row_count_def)
    define u where "u = t1\<lparr>t_recordCount := rm_Kept m\<rparr>"
    define f where "f = writeAt (t_rw t1) (t_recordStart t1 + length js * row_size t1) [fileTerminator]"
    define g where "g = (if trunc then Truncate (t_recordStart t1 + length js * row_size t1 + 1) f else f)"
    note cut = cut_table [OF t1(2) n(2,1) u_def f_def g_def]
    have "unat (rm_Kept m + 1) = Suc (length js)"
      using n count_bound [of t1] unatSuc [of "rm_Kept m"] by (metis add.commute lt n(1) recno_of Suc_leI le_less_trans m(2) of_nat_Suc)
    then have "recordOffset (rm_Kept m + 1) u = t_recordStart t1 + length js * row_size t1"
      using recordOffset_slot [OF t1(2), of "rm_Kept m + 1"]
      by (simp add: recordOffset_def u_def) (metis nat.distinct(1) unat_0 diff_Suc_1)
    moreover obtain t' where "flushHeader now (u\<lparr>t_rw := g\<rparr>) = (t', Inr ())" "wf_table t' \<and> kept t t' \<and> header_stored t'
        \<and> rows t' = rows (u\<lparr>t_rw := g\<rparr>)"
      using flush_after [OF wf, of "u\<lparr>t_rw := g\<rparr>", OF _ _ now] cut kept_trans [OF t1(3)] by blast
    ultimately have "Pack trunc now t = (t', Inr m)"
      using scan False t1(1) by (cases trunc) (simp_all add: Pack_def bindS_apply Let_def u_def f_def g_def)
    then show ?thesis
      using t1(5) cut sc \<open>wf_table t' \<and> kept t t' \<and> header_stored t' \<and> rows t' = rows (u\<lparr>t_rw := g\<rparr>)\<close>
      by auto
  qed
qed

end
