(* ===== verification/DbfSpec.thy ===== *)
theory DbfSpec
  imports DbfPack
begin

text \<open>
  What \<open>dbf.Table\<close> promises.  \<open>persisted\<close> says that the bytes of a table reopen to the same table:
  the operations keep it, so the file is never out of step with the open handle.  The properties
  state each operation by its effect on what \<open>Get\<close> returns.
\<close>

section \<open>Reopening\<close>

definition same_file :: "dbf_table \<Rightarrow> dbf_table \<Rightarrow> bool" where
  "same_file t u \<longleftrightarrow> t_rw u = t_rw t \<and> t_schema u = t_schema t \<and> t_recordCount u = t_recordCount t
     \<and> t_recordStart u = t_recordStart t \<and> t_versionByte u = t_versionByte t \<and> t_tableFlags u = t_tableFlags t
     \<and> t_backlink u = t_backlink t \<and> h_CodePage (t_header u) = h_CodePage (t_header t)"

definition persisted :: "(byte \<Rightarrow> charmap) \<Rightarrow> dbf_table \<Rightarrow> bool" where
  "persisted tables t \<longleftrightarrow> (\<exists>u. table_Open tables (t_rw t) = Inr u \<and> same_file t u)"

lemma readFieldsLoop_stop:
  "readFieldsLoop fuel f off lin = Inr (fs, stop) \<Longrightarrow> stop = off + 32 * length fs + 1"
proof (induction fuel arbitrary: off fs)
  case (Suc fuel)
  then show ?case
    by (fastforce simp: bindR_Inr_iff fieldDescriptorSize_def split: option.splits)
qed simp

text \<open>Two files that agree on the descriptors give the same fields.\<close>

definition agree :: "nat \<Rightarrow> nat \<Rightarrow> bytes \<Rightarrow> bytes \<Rightarrow> bool" where
  "agree a b f g \<longleftrightarrow> (\<forall>off n. a \<le> off \<longrightarrow> off + n \<le> b \<longrightarrow> 0 < n \<longrightarrow> readAt g off n = readAt f off n)"

lemma readField_agree:
  assumes "agree a b f g" "a \<le> off" "readField f off lin = Inr r" "off + (if r = None then 1 else 32) \<le> b"
  shows "readField g off lin = Inr r"
proof -
  have one: "readAt g off 1 = readAt f off 1"
    using assms by (auto simp: agree_def split: if_splits)
  obtain c where c: "readAt f off 1 = Inr c"
    using assms(3) by (auto simp: readField_def bindR_Inr_iff)
  show ?thesis
  proof (cases "c ! 0 = headerTerminator")
    case True
    then show ?thesis
      using assms(3) c one by (simp add: readField_def)
  next
    case False
    then have "r \<noteq> None"
      using assms(3) c by (auto simp: readField_def bindR_Inr_iff Let_def split: if_splits)
    then have "readAt g (off + 1) 31 = readAt f (off + 1) 31"
      using assms by (auto simp: agree_def)
    then show ?thesis
      using assms(3) c one False by (simp add: readField_def fieldDescriptorSize_def)
  qed
qed

lemma readFieldsLoop_agree:
  assumes "agree a b f g" "a \<le> off" "readFieldsLoop fuel f off lin = Inr (fs, stop)" "stop \<le> b" "length fs < fuel'"
  shows "readFieldsLoop fuel' g off lin = Inr (fs, stop)"
  using assms(2-5)
proof (induction fuel arbitrary: off fs fuel')
  case (Suc fuel)
  obtain n where n: "fuel' = Suc n"
    using Suc.prems(4) by (cases fuel') auto
  obtain r where r: "readField f off lin = Inr r"
    using Suc.prems(2) by (auto simp: bindR_Inr_iff)
  have stop: "stop = off + 32 * length fs + 1"
    by (rule readFieldsLoop_stop [OF Suc.prems(2)])
  show ?case
  proof (cases r)
    case None
    then have "readField g off lin = Inr None"
      using readField_agree [OF assms(1) Suc.prems(1) r] Suc.prems(3) stop by simp
    then show ?thesis
      using n r None Suc.prems(2) by simp
  next
    case (Some fd)
    obtain fs' where fs: "readFieldsLoop fuel f (off + 32) lin = Inr (fs', stop)" "fs = fd # fs'"
      using Suc.prems(2) r Some by (auto simp: bindR_Inr_iff fieldDescriptorSize_def)
    have "readField g off lin = Inr (Some fd)"
      using readField_agree [OF assms(1) Suc.prems(1) r] Suc.prems(3) stop fs Some by simp
    moreover have "readFieldsLoop n g (off + 32) lin = Inr (fs', stop)"
      using Suc.IH [OF _ fs(1) Suc.prems(3), of n] Suc.prems fs(2) n by simp
    ultimately show ?thesis
      using n fs by (simp add: fieldDescriptorSize_def)
  qed
qed simp

lemma agree_preamble:
  assumes "wf_table t" "wf_table t'" "kept t t'"
  shows "agree 32 (t_recordStart t) (t_rw t) (t_rw t')"
proof -
  have "seg off n (t_rw t') = seg off n (t_rw t)" if "32 \<le> off" "off + n \<le> t_recordStart t" for off n
  proof -
    have "seg off n f = seg (off - 32) n (seg 32 (t_recordStart t - 32) f)" for f :: bytes
      using that by (simp add: seg_seg)
    then show ?thesis
      using assms(3) unfolding kept_def preamble_def by metis
  qed
  then show ?thesis
    using assms by (auto simp: agree_def readAt_def wf_table_def kept_def)
qed

lemma readHeader_stored:
  assumes "header_stored t" "wf_table t" "t_versionByte t \<in> set known_versions"
  shows "\<exists>upd. readHeader (t_rw t) = Inr (\<lparr>h_LastUpdate = upd, h_CodePage = h_CodePage (t_header t)\<rparr>,
    \<lparr>hi_recordCount = t_recordCount t, hi_headerSize = word_of_nat (t_recordStart t),
     hi_recordSize = RecordSize (t_schema t), hi_versionByte = t_versionByte t,
     hi_hasMemo = (t_versionByte t AND 0x80 \<noteq> 0), hi_tableFlags = t_tableFlags t\<rparr>)"
proof -
  obtain date where d: "encodeHeaderDate (h_LastUpdate (t_header t)) = Inr date"
    "seg 0 32 (t_rw t) = dbf_header_bytes date (h_CodePage (t_header t)) (word_of_nat (t_recordStart t))
       (RecordSize (t_schema t)) (t_recordCount t) (t_versionByte t) (t_tableFlags t)"
    using assms(1) by (auto simp: header_stored_def)
  have "length date = 3"
    using d(1) by (auto simp: encodeHeaderDate_def split: if_splits)
  moreover have "t_rw t = seg 0 32 (t_rw t) @ drop 32 (t_rw t)"
    by (simp add: seg_def)
  ultimately show ?thesis
    using readHeader_bytes [OF _ assms(3)] d(2) by metis
qed

lemma table_Open_Inr:
  assumes "table_Open tables f = Inr u"
  shows "\<exists>header info pos. readHeader f = Inr (header, info)
    \<and> readFields f 32 (isDBaseLineage (hi_versionByte info)) = Inr (t_schema u, pos)
    \<and> checkLayout info (t_schema u) = Inr () \<and> readBacklink f pos info (t_schema u) = Inr (t_backlink u)
    \<and> newTextCodec tables (h_CodePage header) = Inr (t_codec u)
    \<and> u = \<lparr>t_rw = f, t_header = header, t_schema = t_schema u, t_recordCount = hi_recordCount info,
         t_recordStart = unat (hi_headerSize info), t_hasMemo = hi_hasMemo info,
         t_versionByte = hi_versionByte info, t_tableFlags = hi_tableFlags info,
         t_backlink = t_backlink u, t_codec = t_codec u,
         t_encoding = headerEncoding (h_CodePage header) (t_codec u)\<rparr>"
  using assms
  by (auto simp: table_Open_def fileHeaderSize_def bindR_Inr_iff split: sum.splits)

lemma readHeader_version: "readHeader f = Inr (h, i) \<Longrightarrow> hi_versionByte i \<in> set known_versions"
  by (auto simp: readHeader_def bindR_Inr_iff split: if_splits)

lemma checkLayout_ok:
  assumes "checkLayout info sch = Inr ()"
  shows "hi_recordSize info = RecordSize sch" "32 * length sch + 33 \<le> unat (hi_headerSize info)"
    "unat (HeaderSize sch) = 32 * length sch + 33" "record_size sch \<le> MaxRecordSize"
proof -
  have v: "validateForOpen sch = Inr ()" and r: "hi_recordSize info = RecordSize sch" and h: "HeaderSize sch \<le> hi_headerSize info"
    using assms by (auto simp: checkLayout_def not_less split: sum.splits if_splits)
  then show "hi_recordSize info = RecordSize sch"
    by simp
  have n: "length sch \<le> 2046" and s: "record_size sch \<le> MaxRecordSize"
    using v by (auto simp: validateForOpen_def schema_validate_def MaxFields_def split: if_splits)
  show "unat (HeaderSize sch) = 32 * length sch + 33"
    unfolding HeaderSize_def unat_of_nat using n by simp
  then show "32 * length sch + 33 \<le> unat (hi_headerSize info)"
    using h by (simp add: word_le_nat_alt)
  show "record_size sch \<le> MaxRecordSize"
    by (rule s)
qed

lemma persisted_version: "persisted tables t \<Longrightarrow> t_versionByte t \<in> set known_versions"
  unfolding persisted_def
proof (elim exE conjE)
  fix u assume u: "table_Open tables (t_rw t) = Inr u" "same_file t u"
  obtain header info where "readHeader (t_rw t) = Inr (header, info)" "t_versionByte u = hi_versionByte info"
    using table_Open_Inr [OF u(1)] by (metis dbf_table.select_convs(7))
  then show ?thesis
    using u(2) readHeader_version unfolding same_file_def by metis
qed

lemma persisted_kept:
  assumes wf: "wf_table t" "wf_table t'" and k: "kept t t'" and h: "header_stored t'" and p: "persisted tables t"
  shows "persisted tables t'"
proof -
  obtain u where u: "table_Open tables (t_rw t) = Inr u" "same_file t u"
    using p by (auto simp: persisted_def)
  obtain header info pos where o: "readHeader (t_rw t) = Inr (header, info)"
    "readFields (t_rw t) 32 (isDBaseLineage (hi_versionByte info)) = Inr (t_schema u, pos)"
    "checkLayout info (t_schema u) = Inr ()" "readBacklink (t_rw t) pos info (t_schema u) = Inr (t_backlink u)"
    "newTextCodec tables (h_CodePage header) = Inr (t_codec u)"
    and ueq: "t_header u = header" "t_recordStart u = unat (hi_headerSize info)"
    "t_versionByte u = hi_versionByte info" "t_tableFlags u = hi_tableFlags info"
    using table_Open_Inr [OF u(1)] by (metis dbf_table.select_convs(2,5,7,8))
  have eq: "t_schema t' = t_schema u" "t_recordStart t' = unat (hi_headerSize info)" "t_versionByte t' = hi_versionByte info"
    "t_tableFlags t' = hi_tableFlags info" "t_backlink t' = t_backlink u" "h_CodePage (t_header t') = h_CodePage header"
    "t_recordStart t = unat (hi_headerSize info)"
    using u(2) k ueq by (simp_all add: same_file_def kept_def)
  note lay = checkLayout_ok [OF o(3)]
  have pos: "pos = 32 * length (t_schema u) + 33"
    using readFieldsLoop_stop [OF o(2) [unfolded readFields_def]] by simp
  note ag = agree_preamble [OF wf k]
  have "length (t_schema u) < Suc (length (t_rw t'))"
    using lay(2) wf(2) eq(2) by (simp add: wf_table_def)
  then have flds: "readFields (t_rw t') 32 (isDBaseLineage (hi_versionByte info)) = Inr (t_schema u, pos)"
    using readFieldsLoop_agree [OF ag order_refl o(2) [unfolded readFields_def]] pos lay(2) eq(7)
    by (simp add: readFields_def del: readFieldsLoop.simps)
  obtain upd where hdr: "readHeader (t_rw t') = Inr (\<lparr>h_LastUpdate = upd, h_CodePage = h_CodePage header\<rparr>,
    \<lparr>hi_recordCount = t_recordCount t', hi_headerSize = hi_headerSize info,
     hi_recordSize = RecordSize (t_schema u), hi_versionByte = hi_versionByte info,
     hi_hasMemo = (hi_versionByte info AND 0x80 \<noteq> 0), hi_tableFlags = hi_tableFlags info\<rparr>)"
    using readHeader_stored [OF h wf(2)] readHeader_version [OF o(1)] eq by auto
  let ?info = "\<lparr>hi_recordCount = t_recordCount t', hi_headerSize = hi_headerSize info,
     hi_recordSize = RecordSize (t_schema u), hi_versionByte = hi_versionByte info,
     hi_hasMemo = (hi_versionByte info AND 0x80 \<noteq> 0), hi_tableFlags = hi_tableFlags info\<rparr>"
  have "checkLayout ?info (t_schema u) = Inr ()"
    using o(3) lay(1) by (auto simp: checkLayout_def split: sum.splits if_splits)
  moreover have "readAt (t_rw t') pos dbfBacklinkSize = readAt (t_rw t) pos dbfBacklinkSize"
    if "int dbfBacklinkSize \<le> int (unat (hi_headerSize info)) - int (unat (HeaderSize (t_schema u)))"
  proof -
    have "pos + dbfBacklinkSize \<le> t_recordStart t"
      using that pos lay(3) eq(7) by linarith
    then show ?thesis
      using ag pos by (simp add: agree_def dbfBacklinkSize_def)
  qed
  then have "readBacklink (t_rw t') pos ?info (t_schema u) = Inr (t_backlink u)"
    using o(4) by (simp add: readBacklink_def Let_def split: if_splits)
  ultimately have "\<exists>u'. table_Open tables (t_rw t') = Inr u' \<and> same_file t' u'"
    using hdr flds o(5) eq by (simp add: table_Open_def fileHeaderSize_def same_file_def)
  then show ?thesis
    by (simp add: persisted_def)
qed

section \<open>Creating\<close>

lemma writeAt_split: "off \<le> length f \<Longrightarrow> writeAt f off bs = take off f @ bs @ drop (off + length bs) f"
  by (intro nth_equalityI) (auto simp: length_writeAt nth_writeAt nth_append)

lemma writeAt_prefix: "off = length p \<Longrightarrow> writeAt (p @ r) off bs = (p @ bs) @ drop (length bs) r"
  by (simp add: writeAt_split)

lemma header_date_bytes:
  assumes "clock_ok now"
  shows "\<exists>date. encodeHeaderDate now = Inr date \<and> length date = 3"
  using assms by (auto simp: encodeHeaderDate_def clock_ok_def zero_time_def)

lemma validate_bounds:
  assumes "schema_validate strict sch = Inr ()"
  shows "length sch \<le> 2046" "record_size sch \<le> MaxRecordSize" "unat (HeaderSize sch) = 32 * length sch + 33"
proof -
  show n: "length sch \<le> 2046" and "record_size sch \<le> MaxRecordSize"
    using assms by (auto simp: schema_validate_def MaxFields_def split: if_splits)
  show "unat (HeaderSize sch) = 32 * length sch + 33"
    unfolding HeaderSize_def unat_of_nat using n by simp
qed

lemma validate_lenient:
  assumes "validate_fields True names sch = Inr ()"
  shows "validate_fields False names' sch = Inr ()"
  using assms
proof (induction sch arbitrary: names names')
  case (Cons f fs)
  then show ?case
    by (auto simp: Let_def bindR_Inr_iff split: if_splits)
qed simp

lemma Validate_lenient: "Validate sch = Inr () \<Longrightarrow> validateForOpen sch = Inr ()"
  using validate_lenient by (auto simp: Validate_def validateForOpen_def schema_validate_def split: if_splits)

lemma length_fields_bytes [simp]: "length (fields_bytes sch) = 32 * length sch + 1"
  by (induction sch) (auto simp: fields_bytes_def)

text \<open>The bytes a constructor writes, and the handle it returns.\<close>

definition created :: "gotime \<Rightarrow> byte \<Rightarrow> byte \<Rightarrow> u16 \<Rightarrow> schema \<Rightarrow> bytes \<Rightarrow> bytes \<Rightarrow> dbf_table \<Rightarrow> bool" where
  "created now vb flags hs sch pad backlink t \<longleftrightarrow> (\<exists>date rest.
     encodeHeaderDate now = Inr date \<and> length date = 3 \<and>
     t = \<lparr>t_rw = dbf_header_bytes date 0 hs (RecordSize sch) 0 vb flags @ fields_bytes sch @ pad @ [fileTerminator] @ rest,
          t_header = \<lparr>h_LastUpdate = now, h_CodePage = 0\<rparr>, t_schema = sch, t_recordCount = 0,
          t_recordStart = unat hs, t_hasMemo = HasMemo sch, t_versionByte = vb, t_tableFlags = flags,
          t_backlink = backlink, t_codec = None, t_encoding = zero_encoding\<rparr>)"

lemma createAs_created:
  assumes "clock_ok now"
  shows "\<exists>t. createAs tables now vb rw sch = Inr t \<and> created now vb 0 (HeaderSize sch) sch [] [] t"
proof -
  obtain date where d: "encodeHeaderDate now = Inr date" "length date = 3"
    using header_date_bytes [OF assms] by blast
  define raw where "raw = dbf_header_bytes date 0 (HeaderSize sch) (RecordSize sch) 0 vb 0"
  define rest where "rest = drop 1 (drop (length (fields_bytes sch)) (drop 32 rw))"
  have len: "length raw = 32"
    by (simp add: raw_def)
  have "writeAt (writeAt (writeAt rw 0 raw) 32 (fields_bytes sch)) (32 + length (fields_bytes sch)) [fileTerminator]
      = raw @ fields_bytes sch @ [fileTerminator] @ rest"
    using writeAt_prefix [of 0 "[]" rw raw] writeAt_prefix [of 32 raw "drop 32 rw" "fields_bytes sch"]
      writeAt_prefix [of "32 + length (fields_bytes sch)" "raw @ fields_bytes sch"] len
    by (simp add: rest_def del: length_fields_bytes drop_drop)
  then show ?thesis
    using d by (simp add: createAs_def created_def writeHeader_def raw_def fileHeaderSize_def Let_def newTextCodec_def
        del: length_fields_bytes)
qed

lemma CreateWithBacklink_created:
  assumes "Validate sch = Inr ()" "clock_ok now" "length path < dbfBacklinkSize"
  shows "\<exists>t. CreateWithBacklink now rw sch path = Inr t \<and> created now (if HasMemo sch then dbfVersionMemo else dbfVersion)
    dbfTableFlagDBCPair (HeaderSize sch + word_of_nat dbfBacklinkSize) sch
    (path @ replicate (dbfBacklinkSize - length path) 0) path t"
proof -
  obtain date where d: "encodeHeaderDate now = Inr date" "length date = 3"
    using header_date_bytes [OF assms(2)] by blast
  define hs where "hs = HeaderSize sch + word_of_nat dbfBacklinkSize"
  define vb where "vb = (if HasMemo sch then dbfVersionMemo else dbfVersion)"
  define raw where "raw = dbf_header_bytes date 0 hs (RecordSize sch) 0 vb dbfTableFlagDBCPair"
  define pad where "pad = path @ replicate (dbfBacklinkSize - length path) 0"
  define flds where "flds = fields_bytes sch"
  have len: "length raw = 32" "length pad = dbfBacklinkSize"
    using assms(3) by (simp_all add: raw_def pad_def)
  have "writeAt (writeAt (writeAt (writeAt rw 0 raw) 32 flds) (32 + length flds) pad)
      (32 + length flds + dbfBacklinkSize) [fileTerminator]
      = raw @ flds @ pad @ [fileTerminator] @ drop 1 (drop (length pad) (drop (length flds) (drop 32 rw)))"
    using writeAt_prefix [of 0 "[]" rw raw] writeAt_prefix [of 32 raw "drop 32 rw" flds]
      writeAt_prefix [of "32 + length flds" "raw @ flds" "drop (length flds) (drop 32 rw)" pad]
      writeAt_prefix [of "32 + length flds + dbfBacklinkSize" "raw @ flds @ pad"
        "drop (length pad) (drop (length flds) (drop 32 rw))" "[fileTerminator]"] len
    by (simp del: drop_drop)
  then show ?thesis
    unfolding created_def hs_def [symmetric] vb_def [symmetric] pad_def [symmetric] flds_def [symmetric]
    using d assms(1,3) unfolding raw_def
    by (simp add: CreateWithBacklink_def writeHeader_def fileHeaderSize_def Let_def hs_def [symmetric] vb_def [symmetric]
        pad_def [symmetric] flds_def [symmetric])
qed

lemma created_header:
  assumes "created now vb flags hs sch pad bl t" "vb \<in> set known_versions"
  shows "header_stored t" "\<exists>upd. readHeader (t_rw t) = Inr (\<lparr>h_LastUpdate = upd, h_CodePage = 0\<rparr>,
        \<lparr>hi_recordCount = 0, hi_headerSize = hs, hi_recordSize = RecordSize sch, hi_versionByte = vb,
         hi_hasMemo = (vb AND 0x80 \<noteq> 0), hi_tableFlags = flags\<rparr>)"
    "list_all (field_storable lin) flds \<Longrightarrow> fields_bytes flds = fields_bytes sch \<Longrightarrow> length flds = length sch \<Longrightarrow>
      readFields (t_rw t) 32 lin = Inr (flds, 32 * length sch + 33)"
    "length pad = n \<Longrightarrow> n > 0 \<Longrightarrow> readAt (t_rw t) (32 * length sch + 33) n = Inr pad"
proof -
  obtain date rest where d: "encodeHeaderDate now = Inr date" "length date = 3"
    and t: "t = \<lparr>t_rw = dbf_header_bytes date 0 hs (RecordSize sch) 0 vb flags @ fields_bytes sch @ pad @ [fileTerminator] @ rest,
          t_header = \<lparr>h_LastUpdate = now, h_CodePage = 0\<rparr>, t_schema = sch, t_recordCount = 0,
          t_recordStart = unat hs, t_hasMemo = HasMemo sch, t_versionByte = vb, t_tableFlags = flags,
          t_backlink = bl, t_codec = None, t_encoding = zero_encoding\<rparr>"
    using assms(1) by (auto simp: created_def)
  show "header_stored t"
    using d by (simp add: header_stored_def t seg_def)
  show "\<exists>upd. readHeader (t_rw t) = Inr (\<lparr>h_LastUpdate = upd, h_CodePage = 0\<rparr>,
        \<lparr>hi_recordCount = 0, hi_headerSize = hs, hi_recordSize = RecordSize sch, hi_versionByte = vb,
         hi_hasMemo = (vb AND 0x80 \<noteq> 0), hi_tableFlags = flags\<rparr>)"
    using readHeader_bytes [OF d(2) assms(2)] by (auto simp: t)
  show "readFields (t_rw t) 32 lin = Inr (flds, 32 * length sch + 33)"
    if "list_all (field_storable lin) flds" "fields_bytes flds = fields_bytes sch" "length flds = length sch"
    using readFields_stored [OF that(1), of "dbf_header_bytes date 0 hs (RecordSize sch) 0 vb flags" "pad @ [fileTerminator] @ rest"] that
    by (simp add: t)
  show "readAt (t_rw t) (32 * length sch + 33) n = Inr pad" if "length pad = n" "n > 0"
    using that by (simp add: t readAt_def seg_def)
qed

lemma createAs_ok:
  assumes v: "Validate sch = Inr ()" and st: "list_all (field_storable (isDBaseLineage vb)) sch"
    and vb: "vb \<in> set known_versions" and now: "clock_ok now"
  shows "\<exists>t. createAs tables now vb rw sch = Inr t \<and> wf_table t \<and> persisted tables t \<and> header_stored t
    \<and> t_schema t = sch \<and> t_recordCount t = 0 \<and> t_codec t = None \<and> t_versionByte t = vb
    \<and> t_recordStart t = 32 * length sch + 33"
proof -
  obtain t where t: "createAs tables now vb rw sch = Inr t" "created now vb 0 (HeaderSize sch) sch [] [] t"
    using createAs_created [OF now] by blast
  note b = validate_bounds [OF v [unfolded Validate_def]] and h = created_header [OF t(2) vb]
  have sel: "t_schema t = sch" "t_recordCount t = 0" "t_codec t = None" "t_versionByte t = vb" "t_tableFlags t = 0"
    "t_recordStart t = 32 * length sch + 33" "t_backlink t = []" "h_CodePage (t_header t) = 0"
    "32 * length sch + 33 \<le> length (t_rw t)"
    using t(2) b by (auto simp: created_def)
  have wf: "wf_table t"
    using b by (simp add: wf_table_def sel row_size_def row_count_def)
  have "persisted tables t"
    using h(2) h(3) [OF st] Validate_lenient [OF v] sel b
    by (auto simp: persisted_def table_Open_def fileHeaderSize_def checkLayout_def readBacklink_def Let_def
        newTextCodec_def same_file_def)
  then show ?thesis
    using t(1) wf h(1) sel by (intro exI [of _ t]) simp
qed

lemma DBCPair_flags: "dbfTableFlagDBCPair AND dbfTableFlagBlipper \<noteq> 0" "dbfTableFlagDBCPair AND dbfTableFlagDBC \<noteq> 0"
  by (simp_all add: dbfTableFlagDBCPair_def dbfTableFlagDBC_def dbfTableFlagBlipper_def)

lemma backlink_ok:
  assumes v: "Validate sch = Inr ()" and st: "list_all (field_storable True) sch" and now: "clock_ok now"
    and path: "length path < dbfBacklinkSize" "list_all (\<lambda>c. c \<noteq> 0) path" and n: "length sch \<le> 2038"
  shows "\<exists>t. CreateWithBacklink now rw sch path = Inr t \<and> wf_table t \<and> persisted tables t \<and> t_backlink t = path
    \<and> t_recordStart t = 32 * length sch + 33 + 263"
proof -
  let ?vb = "if HasMemo sch then dbfVersionMemo else dbfVersion"
  let ?hs = "HeaderSize sch + word_of_nat dbfBacklinkSize"
  let ?pad = "path @ replicate (dbfBacklinkSize - length path) 0"
  obtain t where t: "CreateWithBacklink now rw sch path = Inr t" "created now ?vb dbfTableFlagDBCPair ?hs sch ?pad path t"
    using CreateWithBacklink_created [OF v now path(1)] by blast
  have vb: "?vb \<in> set known_versions" "isDBaseLineage ?vb"
    by (simp_all add: known_versions_def isDBaseLineage_def dbf_versions)
  note b = validate_bounds [OF v [unfolded Validate_def]] and h = created_header [OF t(2) vb(1)]
  have hs: "unat ?hs = 32 * length sch + 33 + 263"
    unfolding unat_plus_if' using n b by (simp add: dbfBacklinkSize_def)
  have sel: "t_schema t = sch" "t_recordCount t = 0" "t_versionByte t = ?vb" "t_tableFlags t = dbfTableFlagDBCPair"
    "t_recordStart t = 32 * length sch + 33 + 263" "t_backlink t = path" "h_CodePage (t_header t) = 0"
    "32 * length sch + 33 + 263 \<le> length (t_rw t)"
    using t(2) hs path(1) by (auto simp: created_def dbfBacklinkSize_def)
  have wf: "wf_table t"
    using b n sel(8) by (simp add: wf_table_def sel(1-7) row_size_def row_count_def)
  have "trimBacklink ?pad = path"
    using path by (cases "dbfBacklinkSize - length path") (auto simp: trimBacklink_def takeWhile_append list_all_iff)
  then have "readBacklink (t_rw t) (32 * length sch + 33)
      \<lparr>hi_recordCount = 0, hi_headerSize = ?hs, hi_recordSize = RecordSize sch, hi_versionByte = ?vb,
         hi_hasMemo = (?vb AND 0x80 \<noteq> 0), hi_tableFlags = dbfTableFlagDBCPair\<rparr> sch = Inr path"
    using h(4) [of dbfBacklinkSize] path(1) DBCPair_flags hs b(3)
    by (simp add: readBacklink_def Let_def dbfBacklinkSize_def)
  moreover have "\<not> ?hs < HeaderSize sch"
    using hs b(3) by (simp add: word_less_nat_alt)
  ultimately have "persisted tables t"
    using h(2) h(3) [OF st] Validate_lenient [OF v] sel vb(2) hs
    by (auto simp: persisted_def table_Open_def fileHeaderSize_def checkLayout_def newTextCodec_def same_file_def)
  then show ?thesis
    using t(1) wf sel by (intro exI [of _ t]) simp
qed

section \<open>Reading by record number\<close>

lemma Get_rows:
  assumes "wf_table t"
  shows "table_Get pf recno t =
    (if recno = 0 then Inl (Errorf ''record numbers are one-based'')
     else if row_count t < unat recno then Inl (Wrap ''record'' ErrEOF)
     else record_of pf t (rows t ! (unat recno - 1)))"
proof (cases "recno = 0 \<or> row_count t < unat recno")
  case True
  then show ?thesis
    by (auto simp: table_Get_def checkRecno_def row_count_def word_less_nat_alt)
next
  case False
  then show ?thesis
    using table_Get_rows(1) [OF assms, of pf recno] by (simp add: not_less)
qed

lemma record_of_kept: "kept t t' \<Longrightarrow> record_of pf t' = record_of pf t"
  by (intro ext) (simp add: record_of_def kept_def split: sum.split)

lemma encodeFor_record:
  assumes wf: "wf_table t" and enc: "applyEncode (t_codec t) (t_schema t) r = Inr e"
    and st: "record_storable (t_schema t) e" and ns: "nullFlagsFieldIndex (t_schema t) = None"
  shows "\<exists>raw. encodeFor t r = Inr raw \<and> record_of pf t raw = Inr (applyDecode (t_codec t) (t_schema t) e)"
proof -
  have "record_size (t_schema t) \<le> MaxRecordSize"
    using wf by (simp add: wf_table_def row_size_def)
  then show ?thesis
    using record_codec [OF st _ ns, of pf] enc by (auto simp: encodeFor_def record_of_def)
qed

text \<open>A row with another marker decodes to the same values.\<close>

lemma seg_Cons_tl: "0 < off \<Longrightarrow> raw \<noteq> [] \<Longrightarrow> seg off n (m # tl raw) = seg off n raw"
  by (cases raw; cases off) (simp_all add: seg_def)

lemma record_size_pos [simp]: "0 < record_size sch"
  by (simp add: record_size_def)

lemma decodeRecord_marker:
  assumes "decodeRecord pf sch raw = Inr r" "m = activeMarker \<or> m = deletedMarker" "raw \<noteq> []"
  shows "decodeRecord pf sch (m # tl raw) = Inr (r\<lparr>r_Deleted := (m = deletedMarker)\<rparr>)"
proof -
  have "nullFlagsRaw sch (m # tl raw) = nullFlagsRaw sch raw"
    using assms(3) by (simp add: nullFlagsRaw_def seg_Cons_tl split: option.splits)
  moreover have "decodeField pf sch fl (m # tl raw) = decodeField pf sch fl raw" for fl
    using assms(3) by (intro ext) (simp add: decodeField_def seg_Cons_tl)
  moreover have "length (m # tl raw) = length raw"
    using assms(3) by (cases raw) simp_all
  ultimately show ?thesis
    using assms by (auto simp: decodeRecord_def bindR_Inr_iff split: if_splits)
qed

lemma record_of_marker:
  assumes "record_of pf t raw = Inr r" "m = activeMarker \<or> m = deletedMarker" "raw \<noteq> []"
  shows "record_of pf t (m # tl raw) = Inr (r\<lparr>r_Deleted := (m = deletedMarker)\<rparr>)"
proof -
  obtain r0 where r0: "decodeRecord pf (t_schema t) raw = Inr r0" "r = applyDecode (t_codec t) (t_schema t) r0"
    using assms(1) by (auto simp: record_of_def split: sum.splits)
  have "applyDecode c sch (r0\<lparr>r_Deleted := b\<rparr>) = (applyDecode c sch r0)\<lparr>r_Deleted := b\<rparr>" for c sch b
    by (simp add: applyDecode_def)
  then show ?thesis
    using decodeRecord_marker [OF r0(1) assms(2,3)] r0(2) by (simp add: record_of_def)
qed

lemma row_nonempty: "wf_table t \<Longrightarrow> i < row_count t \<Longrightarrow> rows t ! i \<noteq> []"
  using readAt_length [OF readAt_row, of t i] row_size_pos [of t] by (metis less_irrefl list.size(3))

lemma setDeletionMarker_Get:
  assumes wf: "wf_table t" and now: "clock_ok now" and p: "persisted tables t" and m: "m = activeMarker \<or> m = deletedMarker"
    and get: "table_Get pf n t = Inr r"
  shows "\<exists>t'. setDeletionMarker now n m t = (t', Inr ()) \<and> wf_table t' \<and> persisted tables t'
    \<and> t_recordCount t' = t_recordCount t
    \<and> table_Get pf n t' = Inr (r\<lparr>r_Deleted := (m = deletedMarker)\<rparr>)
    \<and> (\<forall>k. k \<noteq> n \<longrightarrow> table_Get pf k t' = table_Get pf k t)"
proof -
  have "n \<noteq> 0" "unat n \<le> row_count t" and g: "record_of pf t (rows t ! (unat n - 1)) = Inr r"
    using get Get_rows [OF wf, of pf n] by (auto simp: not_less split: if_splits)
  moreover then have "0 < unat n"
    by (simp add: unat_gt_0)
  ultimately obtain i where i: "i < row_count t" "unat n = Suc i" "n = word_of_nat (Suc i)" "unat n - 1 = i"
    by (metis Suc_le_lessD Suc_pred' diff_Suc_1 of_nat_unat ucast_id)
  obtain t' where t': "setDeletionMarker now n m t = (t', Inr ())" "wf_table t'" "kept t t'" "header_stored t'"
      "t_recordCount t' = t_recordCount t" "rows t' = (rows t)[i := m # tl (rows t ! i)]"
    using setDeletionMarker_rows [OF wf now i(1), of m] i(3) by auto
  have "table_Get pf k t' = table_Get pf k t" if "k \<noteq> n" for k
  proof (cases "k = 0")
    case False
    then have "unat k - 1 \<noteq> i"
      using that i(2) by (metis Suc_pred' unat_gt_0 word_unat_eq_iff)
    then show ?thesis
      using t' by (simp add: Get_rows [OF wf] Get_rows [OF t'(2)] row_count_def record_of_kept)
  qed (simp add: Get_rows [OF wf] Get_rows [OF t'(2)])
  moreover have "table_Get pf n t' = Inr (r\<lparr>r_Deleted := (m = deletedMarker)\<rparr>)"
    using t' i \<open>n \<noteq> 0\<close> g record_of_marker [OF _ m row_nonempty [OF wf i(1)]]
    by (simp add: Get_rows [OF t'(2)] row_count_def record_of_kept)
  ultimately show ?thesis
    using t' persisted_kept [OF wf t'(2,3,4) p] by blast
qed

text \<open>What is stored when a record is written: the record encoded with the table's text codec.\<close>

definition writes :: "dbf_table \<Rightarrow> dbf_record \<Rightarrow> dbf_record \<Rightarrow> bool" where
  "writes t r e \<longleftrightarrow> applyEncode (t_codec t) (t_schema t) r = Inr e \<and> record_storable (t_schema t) e
     \<and> nullFlagsFieldIndex (t_schema t) = None"

lemma unat_Suc_count: "t_recordCount t \<noteq> - 1 \<Longrightarrow> unat (t_recordCount t + 1) = Suc (row_count t)"
  using unatSuc [of "t_recordCount t"] by (metis add.commute eq_neg_iff_add_eq_0 row_count_def)

lemma Append_Get:
  assumes wf: "wf_table t" and p: "persisted tables t" and room: "t_recordCount t \<noteq> - 1" and now: "clock_ok now"
    and w: "writes t r e"
  shows "\<exists>t'. table_Append now r t = (t', Inr (t_recordCount t + 1)) \<and> wf_table t' \<and> persisted tables t'
    \<and> kept t t' \<and> t_recordCount t' = t_recordCount t + 1
    \<and> table_Get pf (t_recordCount t + 1) t' = Inr (applyDecode (t_codec t) (t_schema t) e)
    \<and> (\<forall>k. k \<noteq> t_recordCount t + 1 \<longrightarrow> table_Get pf k t' = table_Get pf k t)"
proof -
  obtain raw where raw: "encodeFor t r = Inr raw" "record_of pf t raw = Inr (applyDecode (t_codec t) (t_schema t) e)"
    using encodeFor_record [OF wf, of r e pf] w by (auto simp: writes_def)
  obtain t' where t': "table_Append now r t = (t', Inr (t_recordCount t + 1))" "wf_table t'" "kept t t'"
      "header_stored t'" "row_count t' = Suc (row_count t)" "rows t' = rows t @ [raw]"
    using table_Append_rows [OF wf now room raw(1)] by blast
  note n = unat_Suc_count [OF room]
  have c: "t_recordCount t' = t_recordCount t + 1"
    using t'(5) n by (simp add: row_count_def word_unat_eq_iff)
  have "t_recordCount t + 1 \<noteq> 0"
    using n by (metis nat.distinct(1) unat_0)
  then have "table_Get pf (t_recordCount t + 1) t' = Inr (applyDecode (t_codec t) (t_schema t) e)"
    using n t' raw(2) by (simp add: Get_rows [OF t'(2)] record_of_kept nth_append)
  moreover have "table_Get pf k t' = table_Get pf k t" if "k \<noteq> t_recordCount t + 1" for k
  proof -
    have "unat k \<noteq> Suc (row_count t)"
      using that n by (metis word_unat_eq_iff)
    then consider "k = 0" | "row_count t < unat k" "Suc (row_count t) < unat k"
      | "k \<noteq> 0" "unat k \<le> row_count t" "unat k - 1 < row_count t"
      using unat_gt_0 [of k] by linarith
    then show ?thesis
      by cases (simp_all add: Get_rows [OF t'(2)] Get_rows [OF wf] t'(5,6) record_of_kept [OF t'(3)] nth_append)
  qed
  then have "\<forall>k. k \<noteq> t_recordCount t + 1 \<longrightarrow> table_Get pf k t' = table_Get pf k t"
    by blast
  ultimately show ?thesis
    using t'(1-3) c persisted_kept [OF wf t'(2,3,4) p] by (intro exI [of _ t'] conjI) assumption+
qed

lemma Put_Get:
  assumes wf: "wf_table t" and p: "persisted tables t" and now: "clock_ok now" and w: "writes t r e"
    and n: "n \<noteq> 0" "n \<le> t_recordCount t"
  shows "\<exists>t'. table_Put now n r t = (t', Inr ()) \<and> wf_table t' \<and> persisted tables t' \<and> kept t t'
    \<and> t_recordCount t' = t_recordCount t
    \<and> table_Get pf n t' = Inr (applyDecode (t_codec t) (t_schema t) e)
    \<and> (\<forall>k. k \<noteq> n \<longrightarrow> table_Get pf k t' = table_Get pf k t)"
proof -
  obtain raw where raw: "encodeFor t r = Inr raw" "record_of pf t raw = Inr (applyDecode (t_codec t) (t_schema t) e)"
    using encodeFor_record [OF wf, of r e pf] w by (auto simp: writes_def)
  have "0 < unat n" "unat n \<le> row_count t"
    using n by (simp_all add: unat_gt_0 row_count_def word_le_nat_alt)
  then obtain i where i: "i < row_count t" "unat n = Suc i" "n = word_of_nat (Suc i)"
    by (metis Suc_le_lessD Suc_pred' of_nat_unat ucast_id)
  obtain t' where t': "table_Put now n r t = (t', Inr ())" "wf_table t'" "kept t t'" "header_stored t'"
      "t_recordCount t' = t_recordCount t" "rows t' = (rows t)[i := raw]"
    using table_Put_rows [OF wf now i(1) raw(1)] i(3) by auto
  have "\<forall>k. k \<noteq> n \<longrightarrow> table_Get pf k t' = table_Get pf k t"
  proof (intro allI impI)
    fix k assume that: "k \<noteq> n"
    show "table_Get pf k t' = table_Get pf k t"
  proof (cases "k = 0")
    case False
    then have "unat k - 1 \<noteq> i"
      using that i(2) by (metis Suc_pred' unat_gt_0 word_unat_eq_iff)
    then show ?thesis
      using t' by (simp add: Get_rows [OF wf] Get_rows [OF t'(2)] row_count_def record_of_kept)
  qed (simp add: Get_rows [OF wf] Get_rows [OF t'(2)])
  qed
  moreover have "table_Get pf n t' = Inr (applyDecode (t_codec t) (t_schema t) e)"
    using t' i n(1) raw(2) by (simp add: Get_rows [OF t'(2)] row_count_def record_of_kept)
  ultimately show ?thesis
    using t'(1-3,5) persisted_kept [OF wf t'(2,3,4) p] by (intro exI [of _ t'] conjI) assumption+
qed

section \<open>Packing by record number\<close>

lemma Lookup_scanned:
  assumes "scanned rs (length rs) (sv, m)" "length rs < 2 ^ 32"
  shows "Lookup n m = (if n \<noteq> 0 \<and> unat n \<le> length rs \<and> alive (rs ! (unat n - 1))
    then (word_of_nat (Suc (length (alive_upto rs (unat n - 1)))), True) else (0, False))"
proof (cases "n \<noteq> 0 \<and> unat n \<le> length rs")
  case True
  then have i: "unat (n - 1) = unat n - 1" "unat n - 1 < length rs"
    using recno_pos [of n] unat_gt_0 [of n] by auto
  have "Suc (length (alive_upto rs (unat n - 1))) < 2 ^ 32"
    using length_alive_upto [of rs "unat n - 1"] i(2) assms(2) by simp
  then have "unat (word_of_nat (Suc (length (alive_upto rs (unat n - 1)))) :: u32) \<noteq> 0"
    unfolding unat_of_nat by simp
  then have "(word_of_nat (Suc (length (alive_upto rs (unat n - 1)))) :: u32) \<noteq> 0"
    by (metis unat_0)
  then show ?thesis
    using True i assms(1) by (auto simp: Lookup_def scanned_def Let_def simp del: of_nat_Suc)
qed (use assms in \<open>auto simp: Lookup_def scanned_def\<close>)

lemma alive_upto_mono: "i < j \<Longrightarrow> alive (rs ! i) \<Longrightarrow> length (alive_upto rs i) < length (alive_upto rs j)"
proof (induction j)
  case (Suc j)
  then show ?case
    by (cases "i = j") (auto simp: alive_upto_Suc)
qed simp

lemma Pack_Get:
  assumes wf: "wf_table t" and p: "persisted tables t" and room: "t_recordCount t \<noteq> - 1" and now: "clock_ok now"
  shows "\<exists>t' m. Pack trunc now t = (t', Inr m) \<and> wf_table t' \<and> persisted tables t'
    \<and> rows t' = filter alive (rows t) \<and> OldCount m = t_recordCount t
    \<and> (\<forall>n. snd (Lookup n m) \<longleftrightarrow> n \<noteq> 0 \<and> unat n \<le> row_count t \<and> alive (rows t ! (unat n - 1)))
    \<and> (\<forall>n n'. Lookup n m = (n', True) \<longrightarrow> table_Get pf n' t' = table_Get pf n t)
    \<and> (\<forall>a b a' b'. Lookup a m = (a', True) \<longrightarrow> Lookup b m = (b', True) \<longrightarrow> a < b \<longrightarrow> a' < b')"
proof -
  obtain t' m sv where t': "Pack trunc now t = (t', Inr m)" "wf_table t'" "kept t t'" "rows t' = filter alive (rows t)"
      "scanned (rows t) (length (rows t)) (sv, m)" "t' = t \<or> header_stored t'"
    using Pack_rows [OF wf room now, of trunc] by auto
  have lt: "length (rows t) < 2 ^ 32"
    using count_bound by simp
  note L = Lookup_scanned [OF t'(5) lt]
  have idx: "unat (word_of_nat (Suc (length (alive_upto (rows t) i))) :: u32) = Suc (length (alive_upto (rows t) i))"
    if "i < row_count t" for i
    using recno_of [of "length (alive_upto (rows t) i)" t] length_alive_upto [of "rows t" i] that by simp
  have get: "table_Get pf n' t' = table_Get pf n t" if "Lookup n m = (n', True)" for n n'
  proof -
    have n: "n \<noteq> 0" "unat n \<le> row_count t" "alive (rows t ! (unat n - 1))"
        "n' = word_of_nat (Suc (length (alive_upto (rows t) (unat n - 1))))"
      using that L by (auto split: if_splits)
    then have i: "unat n - 1 < row_count t"
      using unat_gt_0 [of n] by linarith
    note f = filter_alive_nth [of "unat n - 1" "rows t"]
    have u: "unat n' = Suc (length (alive_upto (rows t) (unat n - 1)))"
      using idx [OF i] n(4) by simp
    then have "n' \<noteq> 0"
      by (metis nat.distinct(1) unat_0)
    moreover have "row_count t' = length (filter alive (rows t))"
      using t'(4) by (metis length_rows)
    ultimately show ?thesis
      using u f i n t' by (simp add: Get_rows [OF wf] Get_rows [OF t'(2)] record_of_kept not_less)
  qed
  have mono: "a' < b'" if "Lookup a m = (a', True)" "Lookup b m = (b', True)" "a < b" for a b a' b'
  proof -
    have a: "unat a - 1 < row_count t" "unat b - 1 < row_count t" "alive (rows t ! (unat a - 1))" "a \<noteq> 0"
        "a' = word_of_nat (Suc (length (alive_upto (rows t) (unat a - 1))))"
        "b' = word_of_nat (Suc (length (alive_upto (rows t) (unat b - 1))))"
      using that L unat_gt_0 [of a] unat_gt_0 [of b] by (auto split: if_splits)
    moreover have "unat a - 1 < unat b - 1"
      using that(3) a(4) unat_gt_0 [of a] by (simp add: word_less_nat_alt)
    ultimately show ?thesis
      using alive_upto_mono [of "unat a - 1" "unat b - 1" "rows t"] idx [OF a(1)] idx [OF a(2)]
      unfolding word_less_nat_alt by (simp del: of_nat_Suc)
  qed
  have "persisted tables t'"
    using t'(6) p persisted_kept [OF wf t'(2,3) _ p] by blast
  moreover have "snd (Lookup n m) \<longleftrightarrow> n \<noteq> 0 \<and> unat n \<le> row_count t \<and> alive (rows t ! (unat n - 1))" for n
    using L by simp
  moreover have "OldCount m = t_recordCount t"
  proof -
    have "length (rm_oldToNew m) = row_count t"
      using t'(5) by (simp add: scanned_def)
    then show ?thesis
      unfolding OldCount_def row_count_def by (metis of_nat_unat ucast_id)
  qed
  ultimately show ?thesis
    using t'(1,2,4) get mono by (intro exI [of _ t'] exI [of _ m] conjI; blast)
qed

section \<open>Types that do not survive\<close>

text \<open>The field a descriptor of a dBASE-lineage file reads back as.\<close>

definition readback :: "field \<Rightarrow> field" where
  "readback f = f\<lparr>f_Type := remapDBaseLineageType (unmapDBaseLineageType (f_Type f)) True\<rparr>"

lemma field_bytes_readback: "field_bytes (readback f) = field_bytes f"
  by (simp add: field_bytes_def readback_def unmapDBaseLineageType_def remapDBaseLineageType_def
      DBaseBinary_def DBaseGeneral_def)

lemma fields_bytes_readback: "fields_bytes (map readback sch) = fields_bytes sch"
  by (simp add: fields_bytes_def field_bytes_readback comp_def)

lemma validate_fields_types:
  "validate_fields strict names fs = Inr () \<Longrightarrow> f \<in> set fs \<Longrightarrow> validate_type f = Inr ()"
  by (induction fs arbitrary: names) (auto simp: Let_def bindR_Inr_iff split: if_splits)

lemma readback_invalid:
  assumes "Validate sch = Inr ()" "f \<in> set sch" "f_Type f = Double \<or> f_Type f = General"
  shows "validateForOpen (map readback sch) \<noteq> Inr ()"
proof
  assume "validateForOpen (map readback sch) = Inr ()"
  then have "validate_type (readback f) = Inr ()"
    using assms(2) validate_fields_types [of False "[]" "map readback sch" "readback f"]
    by (auto simp: validateForOpen_def schema_validate_def split: if_splits)
  moreover have "validate_type f = Inr ()"
    using assms(1,2) validate_fields_types [of True "[]" sch f]
    by (auto simp: Validate_def schema_validate_def split: if_splits)
  ultimately show False
    using assms(3)
    by (auto simp: readback_def validate_type_def Let_def field_types remapDBaseLineageType_def unmapDBaseLineageType_def
        vfpFieldWidth_def split: if_splits)
qed

lemma Create_then_Open_fails:
  assumes v: "Validate sch = Inr ()" and now: "clock_ok now" and st: "list_all (field_storable True) (map readback sch)"
    and f: "f \<in> set sch" "f_Type f = Double \<or> f_Type f = General"
  shows "\<exists>t e. table_Create tables now rw sch = Inr t \<and> table_Open tables (t_rw t) = Inl e"
proof -
  let ?vb = "if HasMemo sch then dbfVersionMemo else dbfVersion"
  obtain t where t: "createAs tables now ?vb rw sch = Inr t" "created now ?vb 0 (HeaderSize sch) sch [] [] t"
    using createAs_created [OF now] by blast
  have vb: "?vb \<in> set known_versions" "isDBaseLineage ?vb"
    by (simp_all add: known_versions_def isDBaseLineage_def dbf_versions)
  have "\<exists>e. validateForOpen (map readback sch) = Inl e"
    using readback_invalid [OF v f] by (cases "validateForOpen (map readback sch)") auto
  then have "\<exists>e. table_Open tables (t_rw t) = Inl e"
    using created_header(2) [OF t(2) vb(1)] created_header(3) [OF t(2) vb(1) st fields_bytes_readback] vb(2)
    by (auto simp: table_Open_def fileHeaderSize_def checkLayout_def)
  then show ?thesis
    using t(1) v by (auto simp: table_Create_def)
qed

section \<open>Decoded values and the type check\<close>

lemma valid_text: "t \<in> {Character, Memo, Varchar, DBaseBinary, DBaseGeneral} \<Longrightarrow> f_Type f = t \<Longrightarrow> validValue f (VStr s)"
  and valid_bytes: "t \<in> {Varbinary, System} \<Longrightarrow> f_Type f = t \<Longrightarrow> validValue f (VBytes b)"
  and valid_number: "t \<in> {Numeric, Float, Integer, Double, Currency, General} \<Longrightarrow> f_Type f = t \<Longrightarrow>
    v \<in> range VInt \<union> range VUint \<union> range VF64 \<Longrightarrow> validValue f v"
  by (auto simp: validValue_def validVFPValue_def isVFPType_def is_number_def Let_def field_types)

lemma valid_other:
  "f_Type f = Currency \<Longrightarrow> validValue f (VCurrency c)" "f_Type f = Date \<or> f_Type f = DateTime \<Longrightarrow> validValue f (VTime d)"
  "f_Type f = Logical \<Longrightarrow> validValue f (VBool b)" "f_Type f = Blob \<Longrightarrow> \<not> validValue f (VUint n)"
  by (auto simp: validValue_def validVFPValue_def isVFPType_def is_number_def Let_def field_types)

lemma decodeValue_typed:
  assumes "decodeValue pf raw f = Inr v"
  shows "validValue f v \<longleftrightarrow> f_Type f \<noteq> Blob"
proof -
  have blob: "Blob \<notin> {Character, Memo, Varchar, DBaseBinary, DBaseGeneral, Varbinary, System, Numeric, Float, Integer, Double,
      Currency, General, Date, DateTime, Logical}"
    by (simp add: field_types)
  have num: "v \<in> range VInt \<union> range VUint \<union> range VF64" if "decodeNumeric pf raw f = Inr v"
    using that by (auto simp: decodeNumeric_def Let_def split: if_splits option.splits)
  have log: "\<exists>b. v = VBool b" if "decodeLogical (raw ! 0) = Inr v"
    using that by (auto simp: decodeLogical_def split: if_splits)
  consider (vfp) "decodeVFPValue raw f = Some (Inr v)" "f_Type f \<noteq> System"
    | (sys) "f_Type f = System" "v = VBytes raw"
    | (str) "f_Type f \<in> {Character, Memo, Varchar, DBaseBinary, DBaseGeneral}" "v = VStr (trimRight raw)"
    | (byt) "f_Type f = Varbinary" "v = VBytes (trimRight raw)"
    | (num) "f_Type f \<in> {Numeric, Float}" "decodeNumeric pf raw f = Inr v"
    | (date) d where "f_Type f = Date" "v = VTime d"
    | (log) "f_Type f = Logical" "decodeLogical (raw ! 0) = Inr v"
    using assms by (auto simp: decodeValue_def Let_def bindR_Inr_iff split: if_splits option.splits)
  then show ?thesis
  proof cases
    case vfp
    then consider "f_Type f = Integer" "v \<in> range VInt" | "f_Type f = Double" "v \<in> range VF64"
      | c where "f_Type f = Currency" "v = VCurrency c" | "f_Type f = General" "v \<in> range VUint"
      | n where "f_Type f = Blob" "v = VUint n" | d where "f_Type f = DateTime" "v = VTime d"
      by (auto simp: decodeVFPValue_def Let_def split: if_splits)
    then show ?thesis
      using valid_number [OF _ refl, of f v] valid_other blob by cases auto
  qed (use blob valid_text [OF _ refl, of f] valid_bytes [OF _ refl, of f] valid_number [OF _ refl, of f v] valid_other num log in auto)
qed

lemma decodeField_typed:
  assumes "decodeField pf sch fl src i = Inr v"
  shows "validValue (sch ! i) v \<longleftrightarrow> f_Type (sch ! i) \<noteq> Blob"
proof -
  have exact: "validValue f v \<longleftrightarrow> f_Type f \<noteq> Blob"
    if d: "decodeVarLenExact pf raw f sch j flags = Inr v" and t: "f_Type f = Varchar \<or> f_Type f = Varbinary" for raw f j flags
  proof -
    have "decodeValue pf raw f = Inr v \<or> f_Type f = Varbinary \<and> (\<exists>b. v = VBytes b) \<or> f_Type f = Varchar \<and> (\<exists>b. v = VStr b)"
      using d t by (auto simp: decodeVarLenExact_def Let_def split: sum.splits if_splits)
    moreover have "Varchar \<noteq> Blob" "Varbinary \<noteq> Blob"
      by (simp_all add: field_types)
    ultimately show ?thesis
      using decodeValue_typed valid_text [OF _ refl, of f] valid_bytes [OF _ refl, of f] by auto
  qed
  show ?thesis
    using assms decodeValue_typed exact
    by (auto simp: decodeField_def Let_def split: option.splits sum.splits if_splits)
qed

lemma applyDecode_typed:
  assumes "length (r_Values r) = length sch" "i < length sch"
  shows "validValue (sch ! i) (r_Values (applyDecode c sch r) ! i) = validValue (sch ! i) (r_Values r ! i)"
    and "length (r_Values (applyDecode c sch r)) = length sch"
proof -
  have "validValue f (VStr s) = validValue f (VStr s')" for f s s'
    by (simp add: validValue_def validVFPValue_def Let_def is_number_def)
  then have "validValue f (case v of VStr s \<Rightarrow> if is_text f then VStr (g s) else v | _ \<Rightarrow> v) = validValue f v" for f v g
    by (cases v) auto
  then show "validValue (sch ! i) (r_Values (applyDecode c sch r) ! i) = validValue (sch ! i) (r_Values r ! i)"
    using assms by (simp add: applyDecode_def)
  show "length (r_Values (applyDecode c sch r)) = length sch"
    using assms(1) by (simp add: applyDecode_def)
qed

section \<open>A cursor over the whole table\<close>

fun cursor_all :: "nat \<Rightarrow> (bytes \<Rightarrow> u64 option) \<Rightarrow> dbf_table \<Rightarrow> table_cursor \<Rightarrow> (u32 \<times> dbf_record) list \<times> table_cursor option" where
  "cursor_all 0 pf t c = ([], None)"
| "cursor_all (Suc fuel) pf t c =
     (case cursor_Next pf t c of
        (c, False) \<Rightarrow> ([], Some c)
      | (c, True) \<Rightarrow> (let (xs, r) = cursor_all fuel pf t c in ((tc_recno c, tc_current c) # xs, r)))"

definition recnos :: "nat \<Rightarrow> nat \<Rightarrow> u32 list" where
  "recnos k n = map (\<lambda>i. word_of_nat (Suc i)) [k..<n]"

lemma cursor_Next_row:
  assumes "tc_err c = None" "unat (tc_recno c) = k" "k < row_count t" "table_Get pf (word_of_nat (Suc k)) t = Inr r"
  shows "cursor_Next pf t c = (c\<lparr>tc_recno := word_of_nat (Suc k), tc_current := r\<rparr>, True)"
proof -
  have "tc_recno c + 1 = word_of_nat (Suc k)"
    using assms(2) by (metis add.commute of_nat_Suc of_nat_unat ucast_id)
  moreover have "\<not> t_recordCount t \<le> tc_recno c"
    using assms(2,3) by (simp add: row_count_def word_le_nat_alt)
  ultimately show ?thesis
    using assms(1,4) by (simp add: cursor_Next_def Let_def del: of_nat_Suc)
qed

lemma cursor_all_rows:
  assumes "tc_err c = None" "unat (tc_recno c) = k" "k \<le> row_count t" "row_count t - k < fuel"
    and "\<And>i. i < row_count t \<Longrightarrow> table_Get pf (word_of_nat (Suc i)) t = Inr (rec (word_of_nat (Suc i)))"
  shows "\<exists>c'. cursor_all fuel pf t c = (map (\<lambda>n. (n, rec n)) (recnos k (row_count t)), Some c') \<and> tc_err c' = None"
  using assms(1-4)
proof (induction fuel arbitrary: c k)
  case (Suc fuel)
  show ?case
  proof (cases "k < row_count t")
    case True
    let ?c = "c\<lparr>tc_recno := word_of_nat (Suc k), tc_current := rec (word_of_nat (Suc k))\<rparr>"
    have n: "cursor_Next pf t c = (?c, True)"
      using cursor_Next_row [OF Suc.prems(1,2) True assms(5) [OF True]] .
    obtain c' where "cursor_all fuel pf t ?c = (map (\<lambda>n. (n, rec n)) (recnos (Suc k) (row_count t)), Some c')" "tc_err c' = None"
    proof -
      have "row_count t - Suc k < fuel"
        using Suc.prems(4) True by linarith
      then show thesis
        using Suc.IH [of ?c "Suc k"] Suc.prems(1) True recno_of [OF True] that by (auto simp del: of_nat_Suc)
    qed
    then show ?thesis
      using n True by (auto simp: recnos_def upt_conv_Cons simp del: of_nat_Suc)
  next
    case False
    then have "t_recordCount t \<le> tc_recno c"
      using Suc.prems by (simp add: row_count_def word_le_nat_alt)
    then show ?thesis
      using Suc.prems(1) False by (simp add: cursor_Next_def recnos_def)
  qed
qed simp

section \<open>A sample table\<close>

definition sample_now :: gotime where
  "sample_now = zero_time\<lparr>t_year := 2026, t_month := 7, t_day := 23\<rparr>"

definition sample_tables :: "byte \<Rightarrow> charmap" where
  "sample_tables = (\<lambda>_. \<lparr>cm_decode = Some, cm_encode = Some\<rparr>)"

definition sample_field :: "byte \<Rightarrow> field_type \<Rightarrow> byte \<Rightarrow> field" where
  "sample_field name t len = \<lparr>f_Name = [name], f_Type = t, f_Length = len, f_Decimals = 0, f_SystemColumn = False,
     f_Nullable = False, f_Binary = False\<rparr>"

definition sample_schema :: schema where
  "sample_schema = [sample_field 0x41 Character 2, sample_field 0x42 Logical 1]"

definition sample_record :: "byte \<Rightarrow> dbf_record" where
  "sample_record c = \<lparr>r_Deleted = False, r_Values = [VStr [c], VBool True]\<rparr>"

lemma sample_clock: "clock_ok sample_now"
  by (simp add: clock_ok_def sample_now_def)

lemma sample_valid: "Validate sample_schema = Inr ()" "list_all (field_storable True) sample_schema"
  by (simp_all add: sample_schema_def sample_field_def Validate_def schema_validate_def MaxFields_def MaxRecordSize_def
      record_size_def TrimSpace_def is_space_def ToUpper_def upper_def MaxFieldNameLength_def validate_type_def
      field_types Let_def field_storable_def headerTerminator_def isSupportedType_def remapDBaseLineageType_def
      unmapDBaseLineageType_def)

lemma sample_storable: "c \<noteq> 0x20 \<Longrightarrow> record_storable sample_schema (sample_record c)"
  by (simp add: record_storable_def sample_schema_def sample_record_def storable_def sample_field_def field_types Let_def)

definition sample_table :: "dbf_table \<Rightarrow> bool" where
  "sample_table t \<longleftrightarrow> wf_table t \<and> persisted sample_tables t \<and> t_schema t = sample_schema \<and> t_codec t = None"

lemma sample_created: "\<exists>t. sample_table t \<and> t_recordCount t = 0"
  using createAs_ok [OF sample_valid(1), of dbfVersion sample_now sample_tables "[]"] sample_valid(2) sample_clock
  by (auto simp: sample_table_def isDBaseLineage_def known_versions_def dbf_versions)

lemma sample_writes: "sample_table t \<Longrightarrow> c \<noteq> 0x20 \<Longrightarrow> writes t (sample_record c) (sample_record c)"
  using sample_storable [of c]
  by (simp add: writes_def sample_table_def applyEncode_def sample_schema_def sample_field_def)

lemma sample_append:
  assumes "sample_table t" "t_recordCount t \<noteq> - 1" "c \<noteq> 0x20"
  shows "\<exists>t'. sample_table t' \<and> t_recordCount t' = t_recordCount t + 1 \<and> table_Get (\<lambda>_. None) (t_recordCount t + 1) t' = Inr (sample_record c)"
  using Append_Get [of t sample_tables sample_now "sample_record c" "sample_record c" "\<lambda>_. None"] assms sample_writes [OF assms(1,3)] sample_clock
  by (auto simp: sample_table_def kept_def applyDecode_def)

lemma sample_one: "\<exists>t. sample_table t \<and> t_recordCount t = 1 \<and> table_Get (\<lambda>_. None) 1 t = Inr (sample_record 0x58)"
  using sample_created sample_append [of _ "0x58"] by fastforce

section \<open>The properties\<close>



text \<open>C24: \<open>Create\<close> on a valid schema whose names and types fit the descriptors writes a file that
  \<open>Open\<close> reads back as the same empty table, whatever bytes the stream held before.\<close>

theorem Create_reopens:
  assumes "Validate sch = Inr ()" "list_all (field_storable True) sch" "clock_ok now"
  shows "\<exists>t. table_Create tables now rw sch = Inr t \<and> wf_table t \<and> persisted tables t \<and> t_schema t = sch
    \<and> t_recordCount t = 0 \<and> t_recordStart t = 32 * length sch + 33"
  using createAs_ok [OF assms(1), of dbfVersion now tables rw] createAs_ok [OF assms(1), of dbfVersionMemo now tables rw] assms
  by (auto simp: table_Create_def isDBaseLineage_def known_versions_def dbf_versions)

theorem Create_reopens_witness:
  "\<exists>t. table_Create sample_tables sample_now [1, 2, 3] sample_schema = Inr t \<and> wf_table t \<and> persisted sample_tables t
    \<and> t_recordStart t = 97"
  using Create_reopens [OF sample_valid sample_clock, of sample_tables "[1, 2, 3]"] by (auto simp: sample_schema_def)

text \<open>\<open>Append\<close> gives the record the next number, \<open>Get\<close> returns what was written there, every other
  record number reads as before, and the file reopens to the grown table.\<close>

theorem Append_reads:
  assumes "wf_table t" "persisted tables t" "t_recordCount t \<noteq> - 1" "clock_ok now" "writes t r e"
  shows "\<exists>t'. table_Append now r t = (t', Inr (t_recordCount t + 1)) \<and> wf_table t' \<and> persisted tables t'
    \<and> kept t t' \<and> t_recordCount t' = t_recordCount t + 1
    \<and> table_Get pf (t_recordCount t + 1) t' = Inr (applyDecode (t_codec t) (t_schema t) e)
    \<and> (\<forall>k. k \<noteq> t_recordCount t + 1 \<longrightarrow> table_Get pf k t' = table_Get pf k t)"
  by (rule Append_Get [OF assms])

theorem Append_reads_witness:
  "\<exists>t t'. sample_table t \<and> t_recordCount t = 1 \<and> table_Append sample_now (sample_record 0x59) t = (t', Inr 2)
    \<and> table_Get (\<lambda>_. None) 2 t' = Inr (sample_record 0x59) \<and> table_Get (\<lambda>_. None) 1 t' = Inr (sample_record 0x58)"
proof -
  obtain t where t: "sample_table t" "t_recordCount t = 1" "table_Get (\<lambda>_. None) 1 t = Inr (sample_record 0x58)"
    using sample_one by blast
  then show ?thesis
    using Append_reads [of t sample_tables sample_now "sample_record 0x59" "sample_record 0x59" "\<lambda>_. None"]
      sample_writes [OF t(1), of "0x59"] sample_clock
    by - (rule exI [of _ t], auto simp: sample_table_def applyDecode_def)
qed

text \<open>\<open>Put\<close> replaces one record: \<open>Get\<close> returns the new one under its number, the other records and
  the count are unchanged, and the file reopens to the table.\<close>

theorem Put_reads:
  assumes "wf_table t" "persisted tables t" "clock_ok now" "writes t r e" "n \<noteq> 0" "n \<le> t_recordCount t"
  shows "\<exists>t'. table_Put now n r t = (t', Inr ()) \<and> wf_table t' \<and> persisted tables t' \<and> kept t t'
    \<and> t_recordCount t' = t_recordCount t
    \<and> table_Get pf n t' = Inr (applyDecode (t_codec t) (t_schema t) e)
    \<and> (\<forall>k. k \<noteq> n \<longrightarrow> table_Get pf k t' = table_Get pf k t)"
  by (rule Put_Get [OF assms])

theorem Put_reads_witness:
  "\<exists>t t'. sample_table t \<and> t_recordCount t = 1 \<and> table_Put sample_now 1 (sample_record 0x59) t = (t', Inr ())
    \<and> table_Get (\<lambda>_. None) 1 t' = Inr (sample_record 0x59)"
proof -
  obtain t where t: "sample_table t" "t_recordCount t = 1"
    using sample_one by blast
  then show ?thesis
    using Put_reads [of t sample_tables sample_now "sample_record 0x59" "sample_record 0x59" 1 "\<lambda>_. None"]
      sample_writes [OF t(1), of "0x59"] sample_clock
    by - (rule exI [of _ t], auto simp: sample_table_def applyDecode_def)
qed

text \<open>deleting is logical: \<open>Delete\<close> sets the flag of one record and \<open>Undelete\<close> clears it, the
  values stay, no other record changes, and the file reopens to the table after each.\<close>

theorem Delete_Undelete_marks:
  assumes "wf_table t" "persisted tables t" "clock_ok now" "table_Get pf n t = Inr r"
  shows "\<exists>t1 t2. table_Delete now n t = (t1, Inr ()) \<and> table_Get pf n t1 = Inr (r\<lparr>r_Deleted := True\<rparr>)
    \<and> persisted tables t1 \<and> (\<forall>k. k \<noteq> n \<longrightarrow> table_Get pf k t1 = table_Get pf k t)
    \<and> table_Undelete now n t1 = (t2, Inr ()) \<and> table_Get pf n t2 = Inr (r\<lparr>r_Deleted := False\<rparr>)
    \<and> persisted tables t2 \<and> (\<forall>k. k \<noteq> n \<longrightarrow> table_Get pf k t2 = table_Get pf k t)"
proof -
  obtain t1 where t1: "setDeletionMarker now n deletedMarker t = (t1, Inr ())" "wf_table t1" "persisted tables t1"
      "table_Get pf n t1 = Inr (r\<lparr>r_Deleted := True\<rparr>)" "\<forall>k. k \<noteq> n \<longrightarrow> table_Get pf k t1 = table_Get pf k t"
    using setDeletionMarker_Get [OF assms(1,3,2) disjI2 [OF refl] assms(4)] by auto
  obtain t2 where "setDeletionMarker now n activeMarker t1 = (t2, Inr ())" "persisted tables t2"
      "table_Get pf n t2 = Inr (r\<lparr>r_Deleted := (activeMarker = deletedMarker)\<rparr>)"
      "\<forall>k. k \<noteq> n \<longrightarrow> table_Get pf k t2 = table_Get pf k t1"
    using setDeletionMarker_Get [OF t1(2) assms(3) t1(3) disjI1 [OF refl] t1(4)] by auto
  then show ?thesis
    using t1 by (intro exI [of _ t1] exI [of _ t2])
      (simp add: table_Delete_def table_Undelete_def activeMarker_def deletedMarker_def)
qed

theorem Delete_Undelete_marks_witness:
  "\<exists>t t1 t2. sample_table t \<and> table_Delete sample_now 1 t = (t1, Inr ())
    \<and> table_Get (\<lambda>_. None) 1 t1 = Inr ((sample_record 0x58)\<lparr>r_Deleted := True\<rparr>)
    \<and> table_Undelete sample_now 1 t1 = (t2, Inr ()) \<and> table_Get (\<lambda>_. None) 1 t2 = Inr (sample_record 0x58)"
proof -
  obtain t where t: "sample_table t" "table_Get (\<lambda>_. None) 1 t = Inr (sample_record 0x58)"
    using sample_one by blast
  then show ?thesis
    using Delete_Undelete_marks [OF _ _ sample_clock t(2), of sample_tables]
    by (auto simp: sample_table_def sample_record_def)
qed

text \<open>C25: \<open>Pack\<close> keeps exactly the records without the deletion marker, in order; the mapping it returns
  finds exactly the survivors, each under the number it now has, and is strictly monotone; the
  packed file reopens to the packed table, whether or not the stream can be truncated.\<close>

theorem Pack_renumbers:
  assumes "wf_table t" "persisted tables t" "t_recordCount t \<noteq> - 1" "clock_ok now"
  shows "\<exists>t' m. Pack trunc now t = (t', Inr m) \<and> wf_table t' \<and> persisted tables t'
    \<and> rows t' = filter alive (rows t) \<and> OldCount m = t_recordCount t
    \<and> (\<forall>n. snd (Lookup n m) \<longleftrightarrow> n \<noteq> 0 \<and> unat n \<le> row_count t \<and> alive (rows t ! (unat n - 1)))
    \<and> (\<forall>n n'. Lookup n m = (n', True) \<longrightarrow> table_Get pf n' t' = table_Get pf n t)
    \<and> (\<forall>a b a' b'. Lookup a m = (a', True) \<longrightarrow> Lookup b m = (b', True) \<longrightarrow> a < b \<longrightarrow> a' < b')"
  by (rule Pack_Get [OF assms])

theorem Pack_renumbers_witness:
  "\<exists>t t' m. sample_table t \<and> t_recordCount t = 1 \<and> Pack True sample_now t = (t', Inr m) \<and> rows t' = filter alive (rows t)
    \<and> persisted sample_tables t'"
proof -
  obtain t where t: "sample_table t" "t_recordCount t = 1"
    using sample_one by blast
  then show ?thesis
    using Pack_renumbers [of t sample_tables sample_now True "\<lambda>_. None"] sample_clock
    by (auto simp: sample_table_def)
qed

text \<open>C26: a cursor from \<open>Table.Cursor\<close> visits every record number from 1 to the count once, in order,
  with the record \<open>Get\<close> returns, and then reports the end without an error.\<close>

theorem Cursor_scans_all:
  assumes "\<And>i. i < row_count t \<Longrightarrow> table_Get pf (word_of_nat (Suc i)) t = Inr (rec (word_of_nat (Suc i)))"
  shows "\<exists>c. cursor_all (Suc (row_count t)) pf t table_Cursor = (map (\<lambda>n. (n, rec n)) (recnos 0 (row_count t)), Some c)
    \<and> tc_err c = None"
  using assms by (intro cursor_all_rows) (simp_all add: table_Cursor_def)

theorem Cursor_scans_all_witness:
  "\<exists>t c. sample_table t \<and> t_recordCount t = 1
    \<and> cursor_all 2 (\<lambda>_. None) t table_Cursor = ([(1, sample_record 0x58)], Some c) \<and> tc_err c = None"
proof -
  obtain t where t: "sample_table t" "t_recordCount t = 1" "table_Get (\<lambda>_. None) 1 t = Inr (sample_record 0x58)"
    using sample_one by blast
  then have "row_count t = 1"
    by (simp add: row_count_def)
  then show ?thesis
    using Cursor_scans_all [of t "\<lambda>_. None" "\<lambda>_. sample_record 0x58"] t by (auto simp: recnos_def numeral_2_eq_2)
qed

text \<open>C27: a second handle on the same bytes does not see an append made through the first (the new
  record number is past its end) until it calls \<open>Reload\<close>; then it reads the new record.\<close>

theorem Reload_sees_append:
  assumes "wf_table t" "persisted tables t" "t_recordCount t \<noteq> - 1" "clock_ok now" "writes t r e"
    and "table_Append now r t = (t', Inr n)"
  shows "table_Get pf n (t\<lparr>t_rw := t_rw t'\<rparr>) = Inl (Wrap ''record'' ErrEOF)
    \<and> (\<exists>fresh. Reload (t\<lparr>t_rw := t_rw t'\<rparr>) = (fresh, Inr ()) \<and> t_recordCount fresh = n
      \<and> table_Get pf n fresh = Inr (applyDecode (t_codec t) (t_schema t) e))"
proof -
  let ?stale = "t\<lparr>t_rw := t_rw t'\<rparr>"
  obtain raw where raw: "encodeFor t r = Inr raw"
    using encodeFor_record [OF assms(1), of r e pf] assms(5) by (auto simp: writes_def)
  have t': "wf_table t'" "kept t t'" "header_stored t'" "n = t_recordCount t + 1"
    using table_Append_rows [OF assms(1,4,3) raw] assms(6) by auto
  have c: "t_recordCount t' = n" and g: "table_Get pf n t' = Inr (applyDecode (t_codec t) (t_schema t) e)"
    using Append_Get [OF assms(1-5), of pf] assms(6) by auto
  note un = unat_Suc_count [OF assms(3), folded t'(4)]
  then have "n \<noteq> 0" "t_recordCount t < n"
    by (metis nat.distinct(1) unat_0, simp add: word_less_nat_alt row_count_def)
  then have behind: "table_Get pf n ?stale = Inl (Wrap ''record'' ErrEOF)"
    by (simp add: table_Get_def checkRecno_def)
  have "t_versionByte t' \<in> set known_versions"
    by (rule persisted_version [OF persisted_kept [OF assms(1) t'(1,2,3) assms(2)]])
  then obtain upd where h: "readHeader (t_rw t') = Inr (\<lparr>h_LastUpdate = upd, h_CodePage = h_CodePage (t_header t')\<rparr>,
    \<lparr>hi_recordCount = t_recordCount t', hi_headerSize = word_of_nat (t_recordStart t'),
     hi_recordSize = RecordSize (t_schema t'), hi_versionByte = t_versionByte t',
     hi_hasMemo = (t_versionByte t' AND 0x80 \<noteq> 0), hi_tableFlags = t_tableFlags t'\<rparr>)"
    using readHeader_stored [OF t'(3,1)] by blast
  let ?fresh = "?stale\<lparr>t_recordCount := n, t_header := (t_header t)\<lparr>h_LastUpdate := upd\<rparr>\<rparr>"
  have "Reload ?stale = (?fresh, Inr ())"
    using h c t'(2) by (simp add: Reload_def kept_def)
  moreover have "table_Get pf n ?fresh = table_Get pf n t'"
    using c t'(2) by (simp add: table_Get_def checkRecno_def recordOffset_def recordBytes_def kept_def split: sum.split)
  ultimately have "Reload ?stale = (?fresh, Inr ()) \<and> t_recordCount ?fresh = n
      \<and> table_Get pf n ?fresh = Inr (applyDecode (t_codec t) (t_schema t) e)"
    using g by simp
  then show ?thesis
    using behind by blast
qed

theorem Reload_sees_append_witness:
  "\<exists>t t' fresh. sample_table t \<and> table_Append sample_now (sample_record 0x59) t = (t', Inr 2)
    \<and> table_Get (\<lambda>_. None) 2 (t\<lparr>t_rw := t_rw t'\<rparr>) = Inl (Wrap ''record'' ErrEOF)
    \<and> Reload (t\<lparr>t_rw := t_rw t'\<rparr>) = (fresh, Inr ()) \<and> table_Get (\<lambda>_. None) 2 fresh = Inr (sample_record 0x59)"
proof -
  obtain t where t: "sample_table t" "t_recordCount t = 1"
    using sample_one by blast
  note w = sample_writes [OF t(1), of "0x59"]
  obtain t' where t': "table_Append sample_now (sample_record 0x59) t = (t', Inr 2)"
    using Append_Get [of t sample_tables sample_now "sample_record 0x59" "sample_record 0x59" "\<lambda>_. None"]
      w t sample_clock by (auto simp: sample_table_def)
  show ?thesis
    using Reload_sees_append [of t sample_tables sample_now "sample_record 0x59" "sample_record 0x59" t' 2 "\<lambda>_. None"]
      w t t' sample_clock by (auto simp: sample_table_def applyDecode_def)
qed

text \<open>C28: a table created with a Double or a General field cannot be opened again: the constructor
  writes the type letter B or G under a dBASE version byte, and \<open>Open\<close> reads it as the ten-byte
  dBASE pointer type and refuses its width.\<close>

theorem Create_Double_unopenable:
  assumes "Validate sch = Inr ()" "clock_ok now" "list_all (field_storable True) (map readback sch)"
    and "f \<in> set sch" "f_Type f = Double \<or> f_Type f = General"
  shows "\<exists>t e. table_Create tables now rw sch = Inr t \<and> table_Open tables (t_rw t) = Inl e"
  by (rule Create_then_Open_fails [OF assms])

theorem Create_Double_unopenable_witness:
  "\<exists>t e. table_Create sample_tables sample_now [] [sample_field 0x44 Double 8] = Inr t
    \<and> table_Open sample_tables (t_rw t) = Inl e"
  by (rule Create_Double_unopenable [of "[sample_field 0x44 Double 8]", OF _ sample_clock _ list.set_intros(1)])
    (simp_all add: sample_field_def Validate_def schema_validate_def MaxFields_def MaxRecordSize_def readback_def
      record_size_def TrimSpace_def is_space_def ToUpper_def upper_def MaxFieldNameLength_def validate_type_def
      field_types Let_def field_storable_def headerTerminator_def isSupportedType_def remapDBaseLineageType_def
      unmapDBaseLineageType_def vfpFieldWidth_def)

text \<open>C29: \<open>CreateWithBacklink\<close> reopens with its backlink while the schema has at most 2038 fields; beyond
  that the 16-bit header size wraps and the records would start inside the field descriptors.\<close>

theorem CreateWithBacklink_header:
  assumes "Validate sch = Inr ()" "list_all (field_storable True) sch" "clock_ok now"
    and "length path < dbfBacklinkSize" "list_all (\<lambda>c. c \<noteq> 0) path"
  shows "\<exists>t. CreateWithBacklink now rw sch path = Inr t
    \<and> (if length sch \<le> 2038 then persisted tables t \<and> t_backlink t = path \<and> t_recordStart t = 32 * length sch + 296
       else t_recordStart t < 32 + 32 * length sch)"
proof (cases "length sch \<le> 2038")
  case True
  then show ?thesis
    using backlink_ok [OF assms True, of rw tables] by auto
next
  case False
  obtain t where t: "CreateWithBacklink now rw sch path = Inr t"
      "t_recordStart t = unat (HeaderSize sch + word_of_nat dbfBacklinkSize)"
    using CreateWithBacklink_created [OF assms(1,3,4), of rw] by (auto simp: created_def)
  have b: "unat (HeaderSize sch) = 32 * length sch + 33" "length sch \<le> 2046"
    using validate_bounds [OF assms(1) [unfolded Validate_def]] by simp_all
  then have "t_recordStart t < 32 + 32 * length sch"
    unfolding t(2) unat_plus_if' using False by (simp add: dbfBacklinkSize_def)
  then show ?thesis
    using t(1) False by auto
qed

theorem CreateWithBacklink_header_witness:
  "\<exists>t. CreateWithBacklink sample_now [] sample_schema [0x41] = Inr t \<and> persisted sample_tables t
    \<and> t_backlink t = [0x41] \<and> t_recordStart t = 360"
  using CreateWithBacklink_header [OF sample_valid sample_clock, of "[0x41]" "[]" sample_tables]
  by (auto simp: sample_schema_def dbfBacklinkSize_def)

text \<open>C23: the records that \<open>Get\<close> returns are well typed: they have one value per field, and \<open>Set\<close> accepts
  back each value it finds there, whatever the bytes of the file are, except in a Blob column, whose
  own values it refuses.\<close>

theorem Get_well_typed:
  assumes "table_Get pf n t = Inr r"
  shows "length (r_Values r) = length (t_schema t)
    \<and> (\<forall>i < length (t_schema t). SetIndex (t_schema t) i (r_Values r ! i) r
         = (if f_Type (t_schema t ! i) = Blob then Inl (Errorf ''invalid value'') else Inr r))"
proof -
  obtain raw r0 where r0: "decodeRecord pf (t_schema t) raw = Inr r0" "r = applyDecode (t_codec t) (t_schema t) r0"
    using assms by (auto simp: table_Get_def bindR_Inr_iff split: sum.splits)
  then have vs: "mapR (decodeField pf (t_schema t) (nullFlagsRaw (t_schema t) raw) raw) [0..<length (t_schema t)] = Inr (r_Values r0)"
    by (auto simp: decodeRecord_def bindR_Inr_iff split: if_splits)
  then have len: "length (r_Values r0) = length (t_schema t)"
    using mapR_length by fastforce
  have "validValue (t_schema t ! i) (r_Values r0 ! i) \<longleftrightarrow> f_Type (t_schema t ! i) \<noteq> Blob" if "i < length (t_schema t)" for i
    using mapR_nth [OF vs, of i] decodeField_typed that by simp
  then have "length (r_Values r) = length (t_schema t)"
      "\<And>i. i < length (t_schema t) \<Longrightarrow> validValue (t_schema t ! i) (r_Values r ! i) \<longleftrightarrow> f_Type (t_schema t ! i) \<noteq> Blob"
    using applyDecode_typed [OF len] r0(2) len by (auto simp: applyDecode_def)
  then show ?thesis
    by (simp add: SetIndex_def)
qed

theorem Get_well_typed_witness:
  "\<exists>t r. table_Get (\<lambda>_. None) 1 t = Inr r \<and> SetIndex (t_schema t) 0 (r_Values r ! 0) r = Inr r"
proof -
  obtain t where t: "sample_table t" "table_Get (\<lambda>_. None) 1 t = Inr (sample_record 0x58)"
    using sample_one by blast
  then have "0 < length (t_schema t)" "f_Type (t_schema t ! 0) \<noteq> Blob"
    by (simp_all add: sample_table_def sample_schema_def sample_field_def field_types)
  then show ?thesis
    using Get_well_typed [OF t(2)] t(2) by metis
qed

end
