(* ===== verification/NtxBuild.thy ===== *)
theory NtxBuild
  imports NtxDeleteSpec DbfSpec
begin

text \<open>
  The rest of \<open>ntx/keys.go\<close>: \<open>DateKey\<close>, and \<open>Build\<close>, which fills an index from a table.  The key
  function is a function of the record; a nil function is \<open>None\<close>, and calling it panics.
\<close>

section \<open>DateKey\<close>

text \<open>\<open>%0nd\<close> of \<open>fmt.Sprintf\<close>: the sign counts in the width.\<close>

definition sprintf_0d :: "nat \<Rightarrow> int \<Rightarrow> bytes" where
  "sprintf_0d n i =
     (let ds = dec_digits (nat \<bar>i\<bar>); sign = (if i < 0 then [0x2D] else []) in
      sign @ replicate (n - length sign - length ds) 0x30 @ ds)"

definition DateKey :: "gotime \<Rightarrow> bytes" where
  "DateKey t =
     (if t = zero_time then replicate 8 0x20
      else sprintf_0d 4 (t_year t) @ sprintf_0d 2 (int (t_month t)) @ sprintf_0d 2 (int (t_day t)))"

section \<open>Build\<close>

type_synonym key_func = "(dbf_record \<Rightarrow> bytes) option"

definition callKey :: "key_func \<Rightarrow> dbf_record \<Rightarrow> error + bytes" where
  "callKey fn r = (case fn of None \<Rightarrow> Inl (Panic ''nil function'') | Some f \<Rightarrow> Inr (f r))"

lemma cursor_Next_advances:
  assumes "cursor_Next pf t c = (c', True)"
  shows "unat (t_recordCount t) - unat (tc_recno c') < unat (t_recordCount t) - unat (tc_recno c)"
proof -
  have lt: "tc_recno c < t_recordCount t" and c': "tc_recno c' = tc_recno c + 1"
    using assms by (auto simp: cursor_Next_def Let_def not_le split: if_splits sum.splits)
  have "tc_recno c \<noteq> - 1"
    using lt by (metis not_less word_order.extremum)
  then have "unat (tc_recno c') = Suc (unat (tc_recno c))"
    using unatSuc [of "tc_recno c"] c' by (metis add.commute eq_neg_iff_add_eq_0)
  then show ?thesis
    using lt by (simp add: word_less_nat_alt)
qed

function buildLoop :: "(bytes \<Rightarrow> u64 option) \<Rightarrow> dbf_table \<Rightarrow> key_func \<Rightarrow> table_cursor \<Rightarrow> (ntx_index, unit) op" where
  "buildLoop pf t fn c ix =
     (case cursor_Next pf t c of
        (c, False) \<Rightarrow> (ix, case tc_err c of None \<Rightarrow> Inr () | Some e \<Rightarrow> Inl e)
      | (c, True) \<Rightarrow>
          (case callKey fn (tc_current c) of
             Inl e \<Rightarrow> (ix, Inl e)
           | Inr key \<Rightarrow>
               (case Insert key (tc_recno c) ix of
                  (ix, Inl e) \<Rightarrow> (ix, Inl (Wrap ''indexing record'' e))
                | (ix, Inr _) \<Rightarrow> buildLoop pf t fn c ix)))"
  by pat_completeness auto
termination
  by (relation "measure (\<lambda>(pf, t, fn, c, ix). unat (t_recordCount t) - unat (tc_recno c))")
    (use cursor_Next_advances in \<open>auto split: if_splits\<close>)

declare buildLoop.simps [simp del]

definition Build :: "(bytes \<Rightarrow> u64 option) \<Rightarrow> dbf_table \<Rightarrow> key_func \<Rightarrow> (ntx_index, unit) op" where
  "Build pf t fn = buildLoop pf t fn table_Cursor"

end
