(* ===== verification/Area.thy ===== *)
theory Area
  imports NtxBuild Lock
begin

text \<open>
  Work areas (\<open>blipperdb/area.go\<close>): a table, its attached indexes with their key functions, the
  controlling order and the record pointer with its two end flags.  \<open>area\<close> extends the fields the
  locks use.  An index knows what closing its source returns; the memo, \<open>.CDX\<close> and \<open>.DBC\<close>
  attachments of an area are not part of this model.  \<open>now\<close> is the clock of the header flush and
  \<open>pf\<close> is \<open>strconv.ParseFloat\<close>.
\<close>

record attached_index =
  ai_index :: ntx_index
  ai_keyFn :: key_func
  ai_src_close :: "error option"

record area = lock_area +
  a_alias :: bytes
  a_table :: dbf_table
  a_src_close :: "error option"
  a_indexes :: "attached_index list"
  a_order :: nat
  a_atEOF :: bool
  a_atBOF :: bool

section \<open>Indexes and orders\<close>

definition attach :: "ntx_index \<Rightarrow> key_func \<Rightarrow> error option \<Rightarrow> area \<Rightarrow> area" where
  "attach ix fn src a =
     (let a = a\<lparr>a_indexes := a_indexes a @ [\<lparr>ai_index = ix, ai_keyFn = fn, ai_src_close = src\<rparr>]\<rparr> in
      if length (a_indexes a) = 1 then a\<lparr>a_order := 1\<rparr> else a)"

definition area_SetIndex :: "bytes \<Rightarrow> error option \<Rightarrow> key_func \<Rightarrow> (area, unit) op" where
  "area_SetIndex rw src fn a =
     (case ntx_Open rw of Inl e \<Rightarrow> (a, Inl e) | Inr ix \<Rightarrow> (attach ix fn src a, Inr ()))"

definition CreateIndex :: "(bytes \<Rightarrow> u64 option) \<Rightarrow> bytes \<Rightarrow> error option \<Rightarrow> ntx_options \<Rightarrow> key_func \<Rightarrow> (area, unit) op" where
  "CreateIndex pf rw src opts fn a =
     (case ntx_Create rw opts of
        Inl e \<Rightarrow> (a, Inl e)
      | Inr ix \<Rightarrow> (case Build pf (a_table a) fn ix of
          (ix, Inl e) \<Rightarrow> (a, Inl e)
        | (ix, Inr _) \<Rightarrow> (attach ix fn src a, Inr ())))"

definition SetOrder :: "int \<Rightarrow> (area, unit) op" where
  "SetOrder order a =
     (if order < 0 \<or> order > int (length (a_indexes a)) then (a, Inl (Errorf ''order out of range''))
      else (a\<lparr>a_order := nat order\<rparr>, Inr ()))"

definition controlling :: "area \<Rightarrow> error + attached_index option" where
  "controlling a =
     (if a_order a = 0 then Inr None
      else if a_order a > length (a_indexes a) then Inl (Panic ''index out of range'')
      else Inr (Some (a_indexes a ! (a_order a - 1))))"

section \<open>The record pointer\<close>

definition area_Record :: "(bytes \<Rightarrow> u64 option) \<Rightarrow> area \<Rightarrow> error + dbf_record" where
  "area_Record pf a =
     (if a_atEOF a \<or> a_recno a = 0 then Inl (Errorf ''at end of file'') else table_Get pf (a_recno a) (a_table a))"

definition currentKey :: "(bytes \<Rightarrow> u64 option) \<Rightarrow> area \<Rightarrow> attached_index \<Rightarrow> error + bytes" where
  "currentKey pf a att = bindR (table_Get pf (a_recno a) (a_table a)) (callKey (ai_keyFn att))"

definition setEmpty :: "(area, unit) op" where
  "setEmpty a = (a\<lparr>a_recno := 0, a_atEOF := True\<rparr>, Inr ())"

definition goEnd :: "(ntx_index \<Rightarrow> error + entry option) \<Rightarrow> u32 \<Rightarrow> (area, unit) op" where
  "goEnd pick natural a =
     (let a = a\<lparr>a_atBOF := False\<rparr> in
      case controlling a of
        Inl e \<Rightarrow> (a, Inl e)
      | Inr (Some ctl) \<Rightarrow>
          (case pick (ai_index ctl) of
             Inl e \<Rightarrow> (a, Inl e)
           | Inr None \<Rightarrow> setEmpty a
           | Inr (Some entry) \<Rightarrow> (a\<lparr>a_recno := ent_recno entry, a_atEOF := False\<rparr>, Inr ()))
      | Inr None \<Rightarrow>
          if t_recordCount (a_table a) = 0 then setEmpty a
          else (a\<lparr>a_recno := natural, a_atEOF := False\<rparr>, Inr ()))"

definition GoTop :: "(area, unit) op" where
  "GoTop a = goEnd Min 1 a"

definition GoBottom :: "(area, unit) op" where
  "GoBottom a = goEnd Max (t_recordCount (a_table a)) a"

definition GoTo :: "u32 \<Rightarrow> (area, unit) op" where
  "GoTo recno a =
     (if recno = 0 \<or> recno > t_recordCount (a_table a) then (a, Inl (Errorf ''record out of range''))
      else (a\<lparr>a_recno := recno, a_atEOF := False, a_atBOF := False\<rparr>, Inr ()))"

definition skipForward :: "(bytes \<Rightarrow> u64 option) \<Rightarrow> (area, unit) op" where
  "skipForward pf a =
     (if a_recno a = 0 then (a\<lparr>a_atEOF := True\<rparr>, Inr ())
      else
        let a = a\<lparr>a_atBOF := False\<rparr> in
        case controlling a of
          Inl e \<Rightarrow> (a, Inl e)
        | Inr (Some ctl) \<Rightarrow>
            (case bindR (currentKey pf a ctl) (\<lambda>key. Successor (ai_index ctl) key (a_recno a)) of
               Inl e \<Rightarrow> (a, Inl e)
             | Inr None \<Rightarrow> (a\<lparr>a_atEOF := True\<rparr>, Inr ())
             | Inr (Some entry) \<Rightarrow> (a\<lparr>a_recno := ent_recno entry\<rparr>, Inr ()))
        | Inr None \<Rightarrow>
            if a_recno a \<ge> t_recordCount (a_table a) then (a\<lparr>a_atEOF := True\<rparr>, Inr ())
            else (a\<lparr>a_recno := a_recno a + 1\<rparr>, Inr ()))"

definition skipBackward :: "(bytes \<Rightarrow> u64 option) \<Rightarrow> (area, unit) op" where
  "skipBackward pf a =
     (if a_recno a = 0 then (a\<lparr>a_atBOF := True\<rparr>, Inr ())
      else
        let a = a\<lparr>a_atEOF := False\<rparr> in
        case controlling a of
          Inl e \<Rightarrow> (a, Inl e)
        | Inr (Some ctl) \<Rightarrow>
            (case bindR (currentKey pf a ctl) (\<lambda>key. Predecessor (ai_index ctl) key (a_recno a)) of
               Inl e \<Rightarrow> (a, Inl e)
             | Inr None \<Rightarrow> (a\<lparr>a_atBOF := True\<rparr>, Inr ())
             | Inr (Some entry) \<Rightarrow> (a\<lparr>a_recno := ent_recno entry\<rparr>, Inr ()))
        | Inr None \<Rightarrow>
            if a_recno a \<le> 1 then (a\<lparr>a_atBOF := True\<rparr>, Inr ())
            else (a\<lparr>a_recno := a_recno a - 1\<rparr>, Inr ()))"

text \<open>One of the two loops of \<open>Skip\<close>: at most \<open>n\<close> steps, ending early at the end of the file.\<close>

fun skipLoop :: "(area, unit) op \<Rightarrow> (area \<Rightarrow> bool) \<Rightarrow> nat \<Rightarrow> (area, unit) op" where
  "skipLoop step stop 0 a = (a, Inr ())"
| "skipLoop step stop (Suc n) a =
     (case step a of
        (a, Inl e) \<Rightarrow> (a, Inl e)
      | (a, Inr _) \<Rightarrow> if stop a then (a, Inr ()) else skipLoop step stop n a)"

definition Skip :: "(bytes \<Rightarrow> u64 option) \<Rightarrow> int \<Rightarrow> (area, unit) op" where
  "Skip pf n a =
     (if n > 0 then skipLoop (skipForward pf) a_atEOF (nat n) a
      else skipLoop (skipBackward pf) a_atBOF (nat (- n)) a)"

definition area_Seek :: "bytes \<Rightarrow> (area, bool) op" where
  "area_Seek key a =
     (case controlling a of
        Inl e \<Rightarrow> (a, Inl e)
      | Inr None \<Rightarrow> (a, Inl (Errorf ''SEEK requires a controlling index''))
      | Inr (Some ctl) \<Rightarrow>
          (case FirstGE (ai_index ctl) key of
             Inl e \<Rightarrow> (a, Inl e)
           | Inr None \<Rightarrow> (a\<lparr>a_atEOF := True\<rparr>, Inr False)
           | Inr (Some entry) \<Rightarrow>
               (a\<lparr>a_recno := ent_recno entry, a_atEOF := False, a_atBOF := False\<rparr>,
                Inr (length key \<le> length (ent_key entry) \<and> take (length key) (ent_key entry) = key))))"

section \<open>Writing\<close>

text \<open>The index loop of \<open>Append\<close>; the indexes after the failing one are left as they were.\<close>

fun insertAll :: "u32 \<Rightarrow> dbf_record \<Rightarrow> (attached_index list, unit) op" where
  "insertAll recno r [] = ([], Inr ())"
| "insertAll recno r (att # atts) =
     (case callKey (ai_keyFn att) r of
        Inl e \<Rightarrow> (att # atts, Inl e)
      | Inr key \<Rightarrow>
          (case Insert key recno (ai_index att) of
             (ix, Inl e) \<Rightarrow> (att\<lparr>ai_index := ix\<rparr> # atts, Inl (Wrap ''updating index after append'' e))
           | (ix, Inr _) \<Rightarrow> (case insertAll recno r atts of (atts, res) \<Rightarrow> (att\<lparr>ai_index := ix\<rparr> # atts, res))))"

definition area_Append :: "gotime \<Rightarrow> dbf_record \<Rightarrow> (area, u32) op" where
  "area_Append now r a =
     (case checkWritable a 0 of
        Inl e \<Rightarrow> (a, Inl e)
      | Inr _ \<Rightarrow>
          (case table_Append now r (a_table a) of
             (t, Inl e) \<Rightarrow> (a\<lparr>a_table := t\<rparr>, Inl e)
           | (t, Inr recno) \<Rightarrow>
               let a = a\<lparr>a_table := t\<rparr> in
               (case insertAll recno r (a_indexes a) of
                  (atts, Inl e) \<Rightarrow> (a\<lparr>a_indexes := atts\<rparr>, Inl e)
                | (atts, Inr _) \<Rightarrow>
                    (a\<lparr>a_indexes := atts, a_recno := recno, a_atEOF := False, a_atBOF := False\<rparr>, Inr recno))))"

definition rekey :: "u32 \<Rightarrow> bytes \<Rightarrow> bytes \<Rightarrow> (ntx_index, unit) op" where
  "rekey recno oldKey newKey ix =
     (case ntx_Delete oldKey recno ix of
        (ix, Inl e) \<Rightarrow> (ix, Inl (Wrap ''updating index after replace'' e))
      | (ix, Inr _) \<Rightarrow>
          (case Insert newKey recno ix of
             (ix, Inl e) \<Rightarrow> (ix, Inl (Wrap ''updating index after replace'' e))
           | (ix, Inr _) \<Rightarrow> (ix, Inr ())))"

fun replaceAll :: "u32 \<Rightarrow> dbf_record \<Rightarrow> dbf_record \<Rightarrow> (attached_index list, unit) op" where
  "replaceAll recno old new [] = ([], Inr ())"
| "replaceAll recno old new (att # atts) =
     (case bindR (callKey (ai_keyFn att) old) (\<lambda>oldKey. bindR (callKey (ai_keyFn att) new) (\<lambda>newKey. Inr (oldKey, newKey))) of
        Inl e \<Rightarrow> (att # atts, Inl e)
      | Inr (oldKey, newKey) \<Rightarrow>
          (case (if oldKey = newKey then (ai_index att, Inr ()) else rekey recno oldKey newKey (ai_index att)) of
             (ix, Inl e) \<Rightarrow> (att\<lparr>ai_index := ix\<rparr> # atts, Inl e)
           | (ix, Inr _) \<Rightarrow>
               (case replaceAll recno old new atts of (atts, res) \<Rightarrow> (att\<lparr>ai_index := ix\<rparr> # atts, res))))"

definition Replace :: "gotime \<Rightarrow> (bytes \<Rightarrow> u64 option) \<Rightarrow> dbf_record \<Rightarrow> (area, unit) op" where
  "Replace now pf r a =
     (if a_recno a = 0 then (a, Inl (Errorf ''no current record''))
      else case checkWritable a (a_recno a) of
        Inl e \<Rightarrow> (a, Inl e)
      | Inr _ \<Rightarrow>
          (case table_Get pf (a_recno a) (a_table a) of
             Inl e \<Rightarrow> (a, Inl e)
           | Inr old \<Rightarrow>
               (case table_Put now (a_recno a) r (a_table a) of
                  (t, Inl e) \<Rightarrow> (a\<lparr>a_table := t\<rparr>, Inl e)
                | (t, Inr _) \<Rightarrow>
                    (case replaceAll (a_recno a) old r (a_indexes a) of
                       (atts, res) \<Rightarrow> (a\<lparr>a_table := t, a_indexes := atts\<rparr>, res)))))"

definition onRecord :: "(u32 \<Rightarrow> (dbf_table, unit) op) \<Rightarrow> (area, unit) op" where
  "onRecord f a =
     (if a_recno a = 0 then (a, Inl (Errorf ''no current record''))
      else case checkWritable a (a_recno a) of
        Inl e \<Rightarrow> (a, Inl e)
      | Inr _ \<Rightarrow> (case f (a_recno a) (a_table a) of (t, res) \<Rightarrow> (a\<lparr>a_table := t\<rparr>, res)))"

definition area_Delete :: "gotime \<Rightarrow> (area, unit) op" where
  "area_Delete now = onRecord (table_Delete now)"

definition Recall :: "gotime \<Rightarrow> (area, unit) op" where
  "Recall now = onRecord (table_Undelete now)"

section \<open>Closing\<close>

text \<open>Every source is closed; the first error is the result.\<close>

fun first_error :: "error option list \<Rightarrow> error + unit" where
  "first_error [] = Inr ()"
| "first_error (None # es) = first_error es"
| "first_error (Some e # es) = Inl e"

definition area_close :: "(area, unit) op" where
  "area_close a = (a\<lparr>a_indexes := []\<rparr>, first_error (map ai_src_close (a_indexes a) @ [a_src_close a]))"

end
