(* ===== verification/AreaPack.thy ===== *)
theory AreaPack
  imports Area
begin

text \<open>
  Packing an area (\<open>blipperdb/pack.go\<close>): the table is packed first, then every attached index is
  rebuilt with the record mapping.  The rebuild of a \<open>.CDX\<close> attachment and \<open>PackAll\<close>, which also
  compacts the memo file, are not part of this model.
\<close>

section \<open>Rebuilding one index\<close>

text \<open>The moves, derived from the packed table.  The loop runs over the old record numbers; a table
  of \<open>2 ^ 32 - 1\<close> records, for which the 32-bit loop variable would wrap, is refused by
  \<open>dbf.Table.Pack\<close> before.\<close>

fun collectMoves :: "(bytes \<Rightarrow> u64 option) \<Rightarrow> dbf_table \<Rightarrow> (dbf_record \<Rightarrow> bytes) \<Rightarrow> record_mapping \<Rightarrow> u32 list \<Rightarrow>
    error + (bytes \<times> u32 \<times> u32) list" where
  "collectMoves pf t fn m [] = Inr []"
| "collectMoves pf t fn m (oldNo # olds) =
     (case Lookup oldNo m of
        (newNo, survives) \<Rightarrow>
          if \<not> survives \<or> oldNo = newNo then collectMoves pf t fn m olds
          else case table_Get pf newNo t of
            Inl e \<Rightarrow> Inl (Wrap ''reading record'' e)
          | Inr r \<Rightarrow> bindR (collectMoves pf t fn m olds) (\<lambda>ms. Inr ((fn r, oldNo, newNo) # ms)))"

text \<open>The entries whose record is gone, found by walking the index; every entry occupies at least a
  byte of the file, so its size bounds the walk.\<close>

fun staleLoop :: "nat \<Rightarrow> ntx_index \<Rightarrow> record_mapping \<Rightarrow> cursor \<Rightarrow> error + entry list" where
  "staleLoop 0 ix m c = Inl OutOfFuel"
| "staleLoop (Suc fuel) ix m c =
     (case Next ix c of
        (c, False) \<Rightarrow> (case cu_err c of None \<Rightarrow> Inr [] | Some e \<Rightarrow> Inl (Wrap ''scanning index'' e))
      | (c, True) \<Rightarrow>
          bindR (staleLoop fuel ix m c) (\<lambda>es.
            Inr (if snd (Lookup (ent_recno (cu_current c)) m) then es else cu_current c # es)))"

definition staleEntries :: "ntx_index \<Rightarrow> record_mapping \<Rightarrow> error + entry list" where
  "staleEntries ix m = staleLoop (ix_fileSize ix + 1) ix m (First ix NewCursor)"

fun deleteAll :: "string \<Rightarrow> (bytes \<times> u32) list \<Rightarrow> (ntx_index, unit) op" where
  "deleteAll msg [] ix = (ix, Inr ())"
| "deleteAll msg ((key, recno) # es) ix =
     (case ntx_Delete key recno ix of
        (ix, Inl e) \<Rightarrow> (ix, Inl (Wrap msg e))
      | (ix, Inr _) \<Rightarrow> deleteAll msg es ix)"

fun insertMoves :: "(bytes \<times> u32) list \<Rightarrow> (ntx_index, unit) op" where
  "insertMoves [] ix = (ix, Inr ())"
| "insertMoves ((key, recno) # es) ix =
     (case Insert key recno ix of
        (ix, Inl e) \<Rightarrow> (ix, Inl (Wrap ''inserting index entry'' e))
      | (ix, Inr _) \<Rightarrow> insertMoves es ix)"

definition Rebuild :: "(bytes \<Rightarrow> u64 option) \<Rightarrow> dbf_table \<Rightarrow> key_func \<Rightarrow> record_mapping \<Rightarrow> (ntx_index, unit) op" where
  "Rebuild pf t fn m ix =
     (case fn of
        None \<Rightarrow> (ix, Inl (Errorf ''index has no key function; cannot rebuild after pack''))
      | Some fn \<Rightarrow>
          (case collectMoves pf t fn m (map word_of_nat [1..<Suc (unat (OldCount m))]) of
             Inl e \<Rightarrow> (ix, Inl e)
           | Inr moves \<Rightarrow>
               (case staleEntries ix m of
                  Inl e \<Rightarrow> (ix, Inl e)
                | Inr stale \<Rightarrow>
                    bindS (deleteAll ''dropping stale index entry'' (map (\<lambda>e. (ent_key e, ent_recno e)) stale)) (\<lambda>_.
                    bindS (deleteAll ''removing old index entry'' (map (\<lambda>(key, oldNo, newNo). (key, oldNo)) moves)) (\<lambda>_.
                      insertMoves (map (\<lambda>(key, oldNo, newNo). (key, newNo)) moves))) ix)))"

section \<open>Packing the area\<close>

fun rebuildAll :: "(bytes \<Rightarrow> u64 option) \<Rightarrow> dbf_table \<Rightarrow> record_mapping \<Rightarrow> (attached_index list, unit) op" where
  "rebuildAll pf t m [] = ([], Inr ())"
| "rebuildAll pf t m (att # atts) =
     (case Rebuild pf t (ai_keyFn att) m (ai_index att) of
        (ix, Inl e) \<Rightarrow> (att\<lparr>ai_index := ix\<rparr> # atts, Inl (Wrap ''rebuilding after pack'' e))
      | (ix, Inr _) \<Rightarrow> (case rebuildAll pf t m atts of (atts, res) \<Rightarrow> (att\<lparr>ai_index := ix\<rparr> # atts, res)))"

definition area_Pack :: "bool \<Rightarrow> gotime \<Rightarrow> (bytes \<Rightarrow> u64 option) \<Rightarrow> (area, record_mapping) op" where
  "area_Pack truncates now pf a =
     (case checkWritable a 0 of
        Inl e \<Rightarrow> (a, Inl e)
      | Inr _ \<Rightarrow>
          (case Pack truncates now (a_table a) of
             (t, Inl e) \<Rightarrow> (a\<lparr>a_table := t\<rparr>, Inl e)
           | (t, Inr m) \<Rightarrow>
               let a = a\<lparr>a_table := t\<rparr> in
               if mapping_Identity m then bindS GoTop (\<lambda>_. returnS m) a
               else
                 (case rebuildAll pf t m (a_indexes a) of
                    (atts, Inl e) \<Rightarrow> (a\<lparr>a_indexes := atts\<rparr>, Inl e)
                  | (atts, Inr _) \<Rightarrow> bindS GoTop (\<lambda>_. returnS m) (a\<lparr>a_indexes := atts\<rparr>))))"

end
