(* ===== verification/Registry.thy ===== *)
theory Registry
  imports AreaPack
begin

text \<open>
  The session object (\<open>blipperdb/blipperdb.go\<close>): open areas by upper-case alias, the order they were
  opened in, and the selected alias.  A stream handed in is its bytes together with what closing
  it will return (\<open>None\<close> for a stream that cannot be closed or closes without an error).
\<close>

record blipperdb =
  db_areas :: "bytes \<rightharpoonup> area"
  db_order :: "bytes list"
  db_current :: bytes

definition db_New :: blipperdb where
  "db_New = \<lparr>db_areas = Map.empty, db_order = [], db_current = []\<rparr>"

definition normalizeAlias :: "bytes \<Rightarrow> error + bytes" where
  "normalizeAlias alias =
     (let name = ToUpper (TrimSpace alias) in if name = [] then Inl (Errorf ''empty alias'') else Inr name)"

definition CloseArea :: "bytes \<Rightarrow> (blipperdb, unit) op" where
  "CloseArea alias db =
     (case normalizeAlias alias of
        Inl e \<Rightarrow> (db, Inl e)
      | Inr name \<Rightarrow>
          (case db_areas db name of
             None \<Rightarrow> (db, Inl (Errorf ''no area''))
           | Some a \<Rightarrow>
               (db\<lparr>db_areas := (db_areas db)(name := None), db_order := remove1 name (db_order db),
                   db_current := (if db_current db = name then [] else db_current db)\<rparr>,
                snd (area_close a))))"

fun closeEach :: "bytes list \<Rightarrow> error option \<Rightarrow> (blipperdb, unit) op" where
  "closeEach [] first db = (db, case first of None \<Rightarrow> Inr () | Some e \<Rightarrow> Inl e)"
| "closeEach (name # names) first db =
     (case CloseArea name db of
        (db, Inl e) \<Rightarrow> closeEach names (if first = None then Some e else first) db
      | (db, Inr _) \<Rightarrow> closeEach names first db)"

definition CloseAll :: "(blipperdb, unit) op" where
  "CloseAll db = closeEach (db_order db) None db"

definition newArea :: "bytes \<Rightarrow> dbf_table \<Rightarrow> error option \<Rightarrow> area" where
  "newArea name t src = \<lparr>a_mode = Exclusive, a_held = None, a_recno = 0, a_alias = name, a_table = t,
     a_src_close = src, a_indexes = [], a_order = 0, a_atEOF = False, a_atBOF = False\<rparr>"

definition install :: "bytes \<Rightarrow> dbf_table \<Rightarrow> error option \<Rightarrow> (blipperdb, area) op" where
  "install name t src db =
     (case (if db_areas db name \<noteq> None then CloseArea name db else (db, Inr ())) of
        (db, Inl e) \<Rightarrow> (db, Inl (Wrap ''closing previous area'' e))
      | (db, Inr _) \<Rightarrow>
          (case GoTop (newArea name t src) of
             (a, Inl e) \<Rightarrow> (db, Inl e)
           | (a, Inr _) \<Rightarrow>
               (db\<lparr>db_areas := (db_areas db)(name \<mapsto> a), db_order := db_order db @ [name], db_current := name\<rparr>,
                Inr a)))"

definition Use :: "(byte \<Rightarrow> charmap) \<Rightarrow> bytes \<Rightarrow> bytes \<Rightarrow> error option \<Rightarrow> (blipperdb, area) op" where
  "Use tables alias rw src db =
     (case normalizeAlias alias of
        Inl e \<Rightarrow> (db, Inl e)
      | Inr name \<Rightarrow>
          (case table_Open tables rw of
             Inl e \<Rightarrow> (db, Inl (Wrap ''USE'' e))
           | Inr t \<Rightarrow> install name t src db))"

definition db_Create :: "(byte \<Rightarrow> charmap) \<Rightarrow> gotime \<Rightarrow> bytes \<Rightarrow> bytes \<Rightarrow> error option \<Rightarrow> schema \<Rightarrow> (blipperdb, area) op" where
  "db_Create tables now alias rw src sch db =
     (case normalizeAlias alias of
        Inl e \<Rightarrow> (db, Inl e)
      | Inr name \<Rightarrow>
          (case table_Create tables now rw sch of
             Inl e \<Rightarrow> (db, Inl (Wrap ''CREATE'' e))
           | Inr t \<Rightarrow> install name t src db))"

definition UseMode :: "(byte \<Rightarrow> charmap) \<Rightarrow> bytes \<Rightarrow> bytes \<Rightarrow> error option \<Rightarrow> open_mode \<Rightarrow> (blipperdb, area) op" where
  "UseMode tables alias rw src mode db =
     (case Use tables alias rw src db of
        (db, Inl e) \<Rightarrow> (db, Inl e)
      | (db, Inr a) \<Rightarrow>
          let a = a\<lparr>a_mode := mode\<rparr> in (db\<lparr>db_areas := (db_areas db)(a_alias a \<mapsto> a)\<rparr>, Inr a))"

definition area_named :: "bytes \<Rightarrow> blipperdb \<Rightarrow> error + area" where
  "area_named alias db =
     bindR (normalizeAlias alias) (\<lambda>name.
       case db_areas db name of None \<Rightarrow> Inl (Errorf ''no area'') | Some a \<Rightarrow> Inr a)"

definition Select :: "bytes \<Rightarrow> (blipperdb, area) op" where
  "Select alias db =
     (case normalizeAlias alias of
        Inl e \<Rightarrow> (db, Inl e)
      | Inr name \<Rightarrow>
          (case db_areas db name of
             None \<Rightarrow> (db, Inl (Errorf ''no area''))
           | Some a \<Rightarrow> (db\<lparr>db_current := name\<rparr>, Inr a)))"

definition Current :: "blipperdb \<Rightarrow> area option" where
  "Current db = (if db_current db = [] then None else db_areas db (db_current db))"

definition Aliases :: "blipperdb \<Rightarrow> bytes list" where
  "Aliases db = db_order db"

section \<open>The registry invariant\<close>

definition registry_ok :: "blipperdb \<Rightarrow> bool" where
  "registry_ok db \<longleftrightarrow> distinct (db_order db) \<and> set (db_order db) = dom (db_areas db)
     \<and> (db_current db = [] \<or> db_current db \<in> dom (db_areas db))
     \<and> (\<forall>name a. db_areas db name = Some a \<longrightarrow> name \<noteq> [] \<and> a_alias a = name \<and> normalizeAlias name = Inr name)"

end
