(* ===== verification/AreaIndex.thy ===== *)
theory AreaIndex
  imports Registry
begin

text \<open>
  Attached indexes and the table they index.  \<open>covers pf t fn ix ns\<close> says that the entries of \<open>ix\<close> are
  exactly the keys of the records \<open>ns\<close> of \<open>t\<close>; an index is in step with the table when it covers
  all of its records.  Building an index brings it in step; appending, replacing, deleting,
  recalling and packing through the area keep it so.  A unique index leaves out later records
  with a key that is already there, so the statements are about indexes that are not unique.
\<close>

section \<open>The records an index covers\<close>

definition entry_of :: "(bytes \<Rightarrow> u64 option) \<Rightarrow> dbf_table \<Rightarrow> key_func \<Rightarrow> ntx_index \<Rightarrow> u32 \<Rightarrow> entry option" where
  "entry_of pf t fn ix n =
     (case bindR (bindR (table_Get pf n t) (callKey fn)) (normalizeKey ix) of
        Inl e \<Rightarrow> None
      | Inr k \<Rightarrow> Some (Entry k n))"

definition index_room :: "ntx_index \<Rightarrow> bool" where
  "index_room ix \<longleftrightarrow> \<not> ix_unique ix \<and> 3 \<le> unat (ix_maxItem ix) \<and> ix_fileSize ix < 2 ^ 31"

definition covers :: "(bytes \<Rightarrow> u64 option) \<Rightarrow> dbf_table \<Rightarrow> key_func \<Rightarrow> ntx_index \<Rightarrow> u32 list \<Rightarrow> bool" where
  "covers pf t fn ix ns \<longleftrightarrow> index_room ix
     \<and> (\<exists>es. holds ix es \<and> image_mset Some (mset es) = mset (map (entry_of pf t fn ix) ns))"

definition all_records :: "dbf_table \<Rightarrow> u32 list" where
  "all_records t = recnos 0 (row_count t)"

definition in_step :: "(bytes \<Rightarrow> u64 option) \<Rightarrow> dbf_table \<Rightarrow> attached_index \<Rightarrow> bool" where
  "in_step pf t att \<longleftrightarrow> covers pf t (ai_keyFn att) (ai_index att) (all_records t)"

text \<open>Two million entries: the pages they take are below the 32-bit limit.\<close>

definition max_entries :: nat where
  "max_entries = 2 ^ 21 - 4"

lemma entry_of_shape: "ix_keySize ix' = ix_keySize ix \<Longrightarrow> entry_of pf t fn ix' n = entry_of pf t fn ix n"
proof -
  assume "ix_keySize ix' = ix_keySize ix"
  then have "normalizeKey ix' = normalizeKey ix"
    by (intro ext) (simp add: normalizeKey_def)
  then show ?thesis
    by (simp add: entry_of_def)
qed

lemma normalizeKey_shape: "same_shape ix ix' \<Longrightarrow> normalizeKey ix' key = normalizeKey ix key"
  by (simp add: normalizeKey_def same_shape_def)

lemma entry_of_Some:
  "table_Get pf n t = Inr r \<Longrightarrow> callKey fn r = Inr key \<Longrightarrow> normalizeKey ix key = Inr k
   \<Longrightarrow> entry_of pf t fn ix n = Some (Entry k n)"
  by (simp add: entry_of_def)

lemma entry_of_recno: "entry_of pf t fn ix n = Some e \<Longrightarrow> ent_recno e = n"
  by (auto simp: entry_of_def split: sum.splits)

lemma covers_cong:
  assumes "covers pf t fn ix ns" "\<And>n. n \<in> set ns \<Longrightarrow> entry_of pf t' fn ix n = entry_of pf t fn ix n"
  shows "covers pf t' fn ix ns"
proof -
  have "map (entry_of pf t' fn ix) ns = map (entry_of pf t fn ix) ns"
    using assms(2) by simp
  then show ?thesis
    using assms(1) unfolding covers_def by (simp only:)
qed

lemma covers_perm: "covers pf t fn ix ns \<Longrightarrow> mset ns' = mset ns \<Longrightarrow> covers pf t fn ix ns'"
  by (simp add: covers_def)

lemma room_shape:
  assumes "index_room ix" "same_shape ix ix'" "ix_fileSize ix' < 2 ^ 31"
  shows "index_room ix'"
  using assms by (simp add: index_room_def same_shape_def)

lemma covers_insert:
  assumes c: "covers pf t fn ix ns" and e: "entry_of pf t fn ix n = Some (Entry k n)"
    and k: "normalizeKey ix key = Inr k" and n: "length ns < max_entries"
  shows "\<exists>ix'. Insert key n ix = (ix', Inr True) \<and> covers pf t fn ix' (n # ns) \<and> same_shape ix ix'
    \<and> header_current ix'"
proof -
  obtain es where es: "index_room ix" "holds ix es" "image_mset Some (mset es) = mset (map (entry_of pf t fn ix) ns)"
    using c by (auto simp: covers_def)
  have len: "length es = length ns"
    using arg_cong [OF es(3), of size] by simp
  obtain ix' where i: "Insert key n ix = (ix', Inr True)" "holds ix' (insort (Entry k n) es)" "header_current ix'"
      "same_shape ix ix'" "ix_fileSize ix' \<le> max (ix_fileSize ix) ((length es + 3) * pageSize)"
    using Insert_holds [OF es(2) k, of n] es(1) by (auto simp: index_room_def)
  have "(length es + 3) * pageSize \<le> (max_entries + 2) * pageSize"
    using n len by (intro mult_le_mono1) simp
  then have "ix_fileSize ix' < 2 ^ 31"
    using i(5) es(1) by (auto simp: index_room_def max_entries_def pageSize_def max_def split: if_splits)
  moreover have "entry_of pf t fn ix' = entry_of pf t fn ix"
    using i(4) entry_of_shape [of ix' ix pf t fn] by (auto simp: same_shape_def)
  ultimately have "covers pf t fn ix' (n # ns)"
    using i(2) es(3) room_shape [OF es(1) i(4)] e
    by (auto simp: covers_def intro!: exI [of _ "insort (Entry k n) es"])
  then show ?thesis
    using i by blast
qed

lemma covers_Insert:
  assumes "covers pf t fn ix ns" "table_Get pf n t = Inr r" "callKey fn r = Inr key"
    and "normalizeKey ix key = Inr k" "length ns < max_entries"
  shows "\<exists>ix'. Insert key n ix = (ix', Inr True) \<and> covers pf t fn ix' (n # ns) \<and> same_shape ix ix'
    \<and> header_current ix'"
  by (rule covers_insert [OF assms(1) entry_of_Some [OF assms(2-4)] assms(4,5)])

lemma covers_delete:
  assumes c: "covers pf t fn ix ns" and n: "n \<in> set ns" and e: "entry_of pf t fn ix n = Some (Entry k n)"
    and k: "normalizeKey ix key = Inr k"
  shows "\<exists>ix'. ntx_Delete key n ix = (ix', Inr True) \<and> covers pf t fn ix' (remove1 n ns) \<and> same_shape ix ix'
    \<and> header_current ix'"
proof -
  let ?x = "Entry k n"
  obtain es where es: "index_room ix" "holds ix es" "image_mset Some (mset es) = mset (map (entry_of pf t fn ix) ns)"
    using c by (auto simp: covers_def)
  have "Some ?x \<in># mset (map (entry_of pf t fn ix) ns)"
    using n e by (auto intro: rev_image_eqI)
  then have mem: "?x \<in> set es"
    unfolding es(3) [symmetric] by auto
  obtain ix' where i: "ntx_Delete key n ix = (ix', Inr True)" "holds ix' (remove1 ?x es)" "header_current ix'"
      "same_shape ix ix'" "ix_fileSize ix' = ix_fileSize ix"
    using Delete_holds [OF es(2) k, of n] es(1) mem by (auto simp: index_room_def)
  have "image_mset Some (mset (remove1 ?x es)) = mset (map (entry_of pf t fn ix) (remove1 n ns))"
    using es(3) mem n e by (simp add: image_mset_Diff)
  moreover have "entry_of pf t fn ix' = entry_of pf t fn ix"
    using i(4) entry_of_shape [of ix' ix pf t fn] by (auto simp: same_shape_def)
  moreover have "index_room ix'"
    using i(5) es(1) by (intro room_shape [OF es(1) i(4)]) (simp add: index_room_def)
  ultimately have "covers pf t fn ix' (remove1 n ns)"
    using i(2) by (auto simp: covers_def)
  then show ?thesis
    using i by blast
qed

lemma covers_Delete:
  assumes "covers pf t fn ix ns" "n \<in> set ns" "table_Get pf n t = Inr r" "callKey fn r = Inr key"
    and "normalizeKey ix key = Inr k"
  shows "\<exists>ix'. ntx_Delete key n ix = (ix', Inr True) \<and> covers pf t fn ix' (remove1 n ns) \<and> same_shape ix ix'
    \<and> header_current ix'"
  by (rule covers_delete [OF assms(1,2) entry_of_Some [OF assms(3-5)] assms(5)])

section \<open>Building\<close>

text \<open>Every record decodes, and its key fits the index.\<close>

definition keyed :: "(bytes \<Rightarrow> u64 option) \<Rightarrow> dbf_table \<Rightarrow> key_func \<Rightarrow> ntx_index \<Rightarrow> u32 \<Rightarrow> bool" where
  "keyed pf t fn ix n \<longleftrightarrow> (\<exists>r key k. table_Get pf n t = Inr r \<and> callKey fn r = Inr key \<and> normalizeKey ix key = Inr k)"

lemma keyed_shape: "same_shape ix ix' \<Longrightarrow> keyed pf t fn ix' n = keyed pf t fn ix n"
  by (simp add: keyed_def normalizeKey_def same_shape_def)

lemma same_shape_trans: "same_shape a b \<Longrightarrow> same_shape b c \<Longrightarrow> same_shape a c"
  by (simp add: same_shape_def)

lemma set_all_records: "n \<in> set (all_records t) \<longleftrightarrow> n \<noteq> 0 \<and> n \<le> t_recordCount t"
proof
  assume "n \<in> set (all_records t)"
  then obtain i where i: "i < row_count t" "n = word_of_nat (Suc i)"
    by (auto simp: all_records_def recnos_def)
  have "unat n = Suc i"
    using recno_of [OF i(1)] i(2) by simp
  then show "n \<noteq> 0 \<and> n \<le> t_recordCount t"
    using i(1) by (auto simp: row_count_def word_le_nat_alt)
next
  assume n: "n \<noteq> 0 \<and> n \<le> t_recordCount t"
  have "n = word_of_nat (Suc (unat n - 1))"
    using n by (metis Suc_pred' of_nat_unat ucast_id unat_gt_0)
  moreover have "unat n - 1 < row_count t"
    using n unat_gt_0 [of n] unfolding row_count_def word_le_nat_alt by linarith
  ultimately show "n \<in> set (all_records t)"
    unfolding all_records_def recnos_def by force
qed

lemma length_all_records [simp]: "length (all_records t) = row_count t"
  by (simp add: all_records_def recnos_def)

lemma distinct_all_records: "distinct (all_records t)"
proof -
  have "inj_on (\<lambda>i. word_of_nat (Suc i) :: u32) {0..<row_count t}"
  proof (rule inj_onI)
    fix i j assume "i \<in> {0..<row_count t}" "j \<in> {0..<row_count t}" "(word_of_nat (Suc i) :: u32) = word_of_nat (Suc j)"
    then show "i = j"
      using recno_of [of i t] recno_of [of j t] by (metis atLeastLessThan_iff nat.inject)
  qed
  then show ?thesis
    by (simp add: all_records_def recnos_def distinct_map)
qed

lemma buildLoop_covers:
  assumes "tc_err c = None" "unat (tc_recno c) = k" "k \<le> row_count t" "row_count t \<le> max_entries"
    and "covers pf t fn ix (recnos 0 k)" "\<And>n. n \<in> set (all_records t) \<Longrightarrow> keyed pf t fn ix n"
  shows "\<exists>ix'. buildLoop pf t fn c ix = (ix', Inr ()) \<and> covers pf t fn ix' (all_records t) \<and> same_shape ix ix'"
  using assms
proof (induction "row_count t - k" arbitrary: c k ix)
  case 0
  then have "k = row_count t" and "t_recordCount t \<le> tc_recno c"
    by (auto simp: row_count_def word_le_nat_alt)
  then show ?case
    using 0 by (subst buildLoop.simps) (auto simp: cursor_Next_def all_records_def same_shape_def)
next
  case (Suc d)
  then have lt: "k < row_count t"
    by simp
  let ?n = "word_of_nat (Suc k) :: u32"
  have mem: "?n \<in> set (all_records t)"
    using lt by (auto simp: all_records_def recnos_def simp del: of_nat_Suc)
  obtain r key kk where g: "table_Get pf ?n t = Inr r" "callKey fn r = Inr key" "normalizeKey ix key = Inr kk"
    using Suc.prems(6) [OF mem] by (auto simp: keyed_def)
  have nx: "cursor_Next pf t c = (c\<lparr>tc_recno := ?n, tc_current := r\<rparr>, True)"
    using cursor_Next_row [OF Suc.prems(1,2) lt g(1)] .
  have len: "length (recnos 0 k) < max_entries"
    using lt Suc.prems(4) by (simp add: recnos_def)
  obtain ix1 where i: "Insert key ?n ix = (ix1, Inr True)" "covers pf t fn ix1 (?n # recnos 0 k)" "same_shape ix ix1"
    using covers_Insert [OF Suc.prems(5) g len] by blast
  have c1: "covers pf t fn ix1 (recnos 0 (Suc k))"
    by (rule covers_perm [OF i(2)]) (simp add: recnos_def del: of_nat_Suc)
  have "row_count t - Suc k = d" "Suc k \<le> row_count t"
    using Suc.hyps(2) lt by simp_all
  moreover have "unat (tc_recno (c\<lparr>tc_recno := ?n, tc_current := r\<rparr>)) = Suc k"
    using recno_of [OF lt] by simp
  ultimately obtain ix' where "buildLoop pf t fn (c\<lparr>tc_recno := ?n, tc_current := r\<rparr>) ix1 = (ix', Inr ())"
      "covers pf t fn ix' (all_records t)" "same_shape ix1 ix'"
    using Suc.hyps(1) [of "Suc k" "c\<lparr>tc_recno := ?n, tc_current := r\<rparr>" ix1] Suc.prems(1,4,6) c1 keyed_shape [OF i(3)]
    by auto
  then show ?case
    using nx g(2) i(1,3) same_shape_trans by (subst buildLoop.simps) (auto simp del: of_nat_Suc)
qed

lemma Build_covers:
  assumes "row_count t \<le> max_entries" "holds ix []" "index_room ix" "\<And>n. n \<in> set (all_records t) \<Longrightarrow> keyed pf t fn ix n"
  shows "\<exists>ix'. Build pf t fn ix = (ix', Inr ()) \<and> covers pf t fn ix' (all_records t) \<and> same_shape ix ix'"
  unfolding Build_def
  using assms by (intro buildLoop_covers [where k = 0]) (auto simp: table_Cursor_def recnos_def covers_def)

lemma Create_holds:
  assumes k: "op_KeySize opts \<noteq> 0" "op_KeySize opts \<le> 245"
    and e: "length (op_KeyExpr opts) < maxKeyExpr" and rw: "length rw \<le> 2 * pageSize" and u: "\<not> op_Unique opts"
  shows "\<exists>ix. ntx_Create rw opts = Inr ix \<and> holds ix [] \<and> index_room ix \<and> header_current ix
    \<and> ix_keySize ix = op_KeySize opts"
proof -
  have k': "op_KeySize opts \<le> MaxKeySize" and kn: "unat (op_KeySize opts) \<le> 245"
    using k(2) by (auto simp: MaxKeySize_def word_le_nat_alt)
  obtain ix where ix: "ntx_Create rw opts = Inr ix" "ntx_valid ix [] 0 (BLeaf pageSize [])" "header_current ix"
      "ix_keySize ix = op_KeySize opts" "ix_unique ix = op_Unique opts"
      "ix_maxItem ix = computeMaxItem (op_KeySize opts + 8)" "ix_fileSize ix = 2 * pageSize"
    using Create_store [OF k(1) k' e rw] by blast
  have "1022 div 255 \<le> 1022 div (unat (op_KeySize opts) + 10)"
    using kn by (intro div_le_mono2) simp_all
  then have "3 \<le> unat (ix_maxItem ix)"
    using Create_sizes(1) [OF k(1) k'] ix(6) by simp
  then have "index_room ix"
    using ix(5,7) u by (simp add: index_room_def pageSize_def)
  moreover have "holds ix []"
    using ix(2,7) by (force simp: holds_def rooted_def no_leak_def)
  ultimately show ?thesis
    using ix by blast
qed

section \<open>Writing through the area\<close>

lemma insertAll_covers:
  assumes g: "table_Get pf n t = Inr r" and n: "length ns < max_entries"
    and atts: "\<forall>att \<in> set atts. covers pf t (ai_keyFn att) (ai_index att) ns
      \<and> keyed pf t (ai_keyFn att) (ai_index att) n"
  shows "\<exists>atts'. insertAll n r atts = (atts', Inr ()) \<and> length atts' = length atts
    \<and> (\<forall>att \<in> set atts'. covers pf t (ai_keyFn att) (ai_index att) (n # ns))"
  using atts
proof (induction atts)
  case (Cons att atts)
  then obtain key k where k: "callKey (ai_keyFn att) r = Inr key" "normalizeKey (ai_index att) key = Inr k"
    using g by (auto simp: keyed_def)
  obtain ix where i: "Insert key n (ai_index att) = (ix, Inr True)" "covers pf t (ai_keyFn att) ix (n # ns)"
    using covers_Insert [OF _ g k n] Cons.prems by auto
  obtain atts' where "insertAll n r atts = (atts', Inr ())" "length atts' = length atts"
      "\<forall>att \<in> set atts'. covers pf t (ai_keyFn att) (ai_index att) (n # ns)"
    using Cons by auto
  then show ?case
    using k i by (intro exI [of _ "att\<lparr>ai_index := ix\<rparr> # atts'"]) simp
qed simp

lemma rekey_covers:
  assumes c: "covers pf t fn ix ns" and n: "n \<in> set ns" "distinct ns"
    and old: "table_Get pf n t = Inr r" "callKey fn r = Inr key" "normalizeKey ix key = Inr k"
    and new: "table_Get pf n t' = Inr r'" "callKey fn r' = Inr key'" "normalizeKey ix key' = Inr k'"
    and other: "\<And>m. m \<noteq> n \<Longrightarrow> table_Get pf m t' = table_Get pf m t" and len: "length ns \<le> max_entries"
  shows "\<exists>ix'. rekey n key key' ix = (ix', Inr ()) \<and> covers pf t' fn ix' ns"
proof -
  obtain ix1 where d: "ntx_Delete key n ix = (ix1, Inr True)" "covers pf t fn ix1 (remove1 n ns)" "same_shape ix ix1"
    using covers_Delete [OF c n(1) old] by blast
  have c1: "covers pf t' fn ix1 (remove1 n ns)"
    using n(2) other by (intro covers_cong [OF d(2)]) (auto simp: entry_of_def set_remove1_eq)
  have "length (remove1 n ns) < max_entries"
  proof -
    have "0 < length ns"
      by (rule length_pos_if_in_set [OF n(1)])
    then have "length ns - 1 < max_entries"
      using len by linarith
    then show ?thesis
      using n(1) by (simp add: length_remove1)
  qed
  moreover have "normalizeKey ix1 key' = Inr k'"
    using new(3) normalizeKey_shape [OF d(3)] by simp
  ultimately obtain ix2 where i: "Insert key' n ix1 = (ix2, Inr True)" "covers pf t' fn ix2 (n # remove1 n ns)"
    using covers_Insert [OF c1 new(1,2)] by blast
  have "covers pf t' fn ix2 ns"
    using n(1) by (intro covers_perm [OF i(2)]) simp
  then show ?thesis
    using d(1) i(1) by (simp add: rekey_def)
qed

lemma replaceAll_covers:
  assumes n: "n \<in> set ns" "distinct ns" "length ns \<le> max_entries"
    and old: "table_Get pf n t = Inr r" and new: "table_Get pf n t' = Inr r'"
    and other: "\<And>m. m \<noteq> n \<Longrightarrow> table_Get pf m t' = table_Get pf m t"
    and atts: "\<forall>att \<in> set atts. covers pf t (ai_keyFn att) (ai_index att) ns
      \<and> keyed pf t (ai_keyFn att) (ai_index att) n \<and> keyed pf t' (ai_keyFn att) (ai_index att) n"
  shows "\<exists>atts'. replaceAll n r r' atts = (atts', Inr ()) \<and> length atts' = length atts
    \<and> (\<forall>att \<in> set atts'. covers pf t' (ai_keyFn att) (ai_index att) ns)"
  using atts
proof (induction atts)
  case (Cons att atts)
  then obtain key k key' k' where k: "callKey (ai_keyFn att) r = Inr key" "normalizeKey (ai_index att) key = Inr k"
      "callKey (ai_keyFn att) r' = Inr key'" "normalizeKey (ai_index att) key' = Inr k'"
    using old new by (auto simp: keyed_def)
  have c: "covers pf t (ai_keyFn att) (ai_index att) ns"
    using Cons.prems by simp
  obtain ix where i: "(if key = key' then (ai_index att, Inr ()) else rekey n key key' (ai_index att)) = (ix, Inr ())"
      "covers pf t' (ai_keyFn att) ix ns"
  proof (cases "key = key'")
    case True
    have "covers pf t' (ai_keyFn att) (ai_index att) ns"
    proof (rule covers_cong [OF c])
      fix m
      show "entry_of pf t' (ai_keyFn att) (ai_index att) m = entry_of pf t (ai_keyFn att) (ai_index att) m"
        using other [of m] old new k True by (cases "m = n") (auto simp: entry_of_def)
    qed
    then show thesis
      using that True by simp
  next
    case False
    then show thesis
      using that rekey_covers [OF c n(1,2) old k(1,2) new k(3,4) other n(3)] by auto
  qed
  obtain atts' where "replaceAll n r r' atts = (atts', Inr ())" "length atts' = length atts"
      "\<forall>att \<in> set atts'. covers pf t' (ai_keyFn att) (ai_index att) ns"
    using Cons by auto
  then show ?case
    using k i by (intro exI [of _ "att\<lparr>ai_index := ix\<rparr> # atts'"]) simp
qed simp

section \<open>The area\<close>

text \<open>An area whose table is sound and whose indexes are all in step with it.\<close>

definition area_ok :: "(byte \<Rightarrow> charmap) \<Rightarrow> (bytes \<Rightarrow> u64 option) \<Rightarrow> area \<Rightarrow> bool" where
  "area_ok tables pf a \<longleftrightarrow> wf_table (a_table a) \<and> persisted tables (a_table a)
     \<and> (\<forall>att \<in> set (a_indexes a). in_step pf (a_table a) att)
     \<and> a_order a \<le> length (a_indexes a) \<and> a_recno a \<le> t_recordCount (a_table a)"

text \<open>A record the table stores and gives back as it is, with keys that fit every index.\<close>

definition storable_in :: "(bytes \<Rightarrow> u64 option) \<Rightarrow> area \<Rightarrow> dbf_record \<Rightarrow> bool" where
  "storable_in pf a r \<longleftrightarrow>
     (\<exists>e. writes (a_table a) r e \<and> applyDecode (t_codec (a_table a)) (t_schema (a_table a)) e = r)
     \<and> (\<forall>att \<in> set (a_indexes a). \<exists>key k. callKey (ai_keyFn att) r = Inr key \<and> normalizeKey (ai_index att) key = Inr k)"

lemma all_records_append:
  assumes "t_recordCount t' = t_recordCount t + 1" "t_recordCount t \<noteq> - 1"
  shows "all_records t' = all_records t @ [t_recordCount t + 1]"
proof -
  have "row_count t' = Suc (row_count t)"
    using assms unat_Suc_count [OF assms(2)] by (simp add: row_count_def)
  moreover have "word_of_nat (Suc (row_count t)) = t_recordCount t + 1"
    unfolding row_count_def by (metis add.commute of_nat_Suc of_nat_unat ucast_id)
  ultimately show ?thesis
    by (simp add: all_records_def recnos_def del: of_nat_Suc)
qed

lemma Append_area:
  assumes ok: "area_ok tables pf a" and w: "checkWritable a 0 = Inr ()" and now: "clock_ok now"
    and r: "storable_in pf a r" and room: "row_count (a_table a) < max_entries"
  shows "\<exists>a'. area_Append now r a = (a', Inr (t_recordCount (a_table a) + 1)) \<and> area_ok tables pf a'
    \<and> a_recno a' = t_recordCount (a_table a) + 1 \<and> \<not> a_atEOF a' \<and> \<not> a_atBOF a'
    \<and> area_Record pf a' = Inr r \<and> t_recordCount (a_table a') = t_recordCount (a_table a) + 1
    \<and> length (a_indexes a') = length (a_indexes a)"
proof -
  let ?t = "a_table a" and ?n = "t_recordCount (a_table a) + 1"
  have t: "wf_table ?t" "persisted tables ?t" "\<forall>att \<in> set (a_indexes a). in_step pf ?t att"
      "a_order a \<le> length (a_indexes a)"
    using ok by (simp_all add: area_ok_def)
  obtain e where e: "writes ?t r e" "applyDecode (t_codec ?t) (t_schema ?t) e = r"
    using r by (auto simp: storable_in_def)
  have last: "t_recordCount ?t \<noteq> - 1"
  proof
    assume "t_recordCount ?t = - 1"
    then have "unat (t_recordCount ?t) = 2 ^ 32 - 1"
      by (simp add: unsigned_minus_1_eq_mask mask_eq_exp_minus_1)
    then show False
      using room by (simp add: row_count_def max_entries_def)
  qed
  obtain t' where a: "table_Append now r ?t = (t', Inr ?n)" "wf_table t'" "persisted tables t'" "kept ?t t'"
      "t_recordCount t' = ?n" "table_Get pf ?n t' = Inr r"
      "\<forall>k. k \<noteq> ?n \<longrightarrow> table_Get pf k t' = table_Get pf k ?t"
    using Append_Get [OF t(1,2) last now e(1), of pf] e(2) by auto
  have ar: "all_records t' = all_records ?t @ [?n]"
    by (rule all_records_append [OF a(5) last])
  have nz: "?n \<noteq> 0"
    using last by (metis add.commute eq_neg_iff_add_eq_0)
  have fresh: "?n \<notin> set (all_records ?t)"
    using distinct_all_records [of t'] ar by simp
  have atts: "\<forall>att \<in> set (a_indexes a). covers pf t' (ai_keyFn att) (ai_index att) (all_records ?t)
      \<and> keyed pf t' (ai_keyFn att) (ai_index att) ?n"
  proof
    fix att assume att: "att \<in> set (a_indexes a)"
    then have "covers pf ?t (ai_keyFn att) (ai_index att) (all_records ?t)"
      using t(3) by (simp add: in_step_def)
    then have "covers pf t' (ai_keyFn att) (ai_index att) (all_records ?t)"
      by (rule covers_cong) (metis a(7) fresh entry_of_def)
    moreover have "keyed pf t' (ai_keyFn att) (ai_index att) ?n"
      using r att a(6) by (auto simp: storable_in_def keyed_def)
    ultimately show "covers pf t' (ai_keyFn att) (ai_index att) (all_records ?t)
      \<and> keyed pf t' (ai_keyFn att) (ai_index att) ?n" ..
  qed
  have "length (all_records ?t) < max_entries"
    using room by simp
  then obtain atts where i: "insertAll ?n r (a_indexes a) = (atts, Inr ())" "length atts = length (a_indexes a)"
      "\<forall>att \<in> set atts. covers pf t' (ai_keyFn att) (ai_index att) (?n # all_records ?t)"
    using insertAll_covers [OF a(6) _ atts] by blast
  let ?a = "a\<lparr>a_table := t', a_indexes := atts, a_recno := ?n, a_atEOF := False, a_atBOF := False\<rparr>"
  have perm: "mset (all_records t') = mset (?n # all_records ?t)"
    unfolding ar by simp
  have "in_step pf t' att" if "att \<in> set atts" for att
    unfolding in_step_def by (rule covers_perm [OF bspec [OF i(3) that] perm])
  then have "area_ok tables pf ?a"
    using a(2,3,5) i(2) t(4) by (simp add: area_ok_def)
  moreover have "area_Append now r a = (?a, Inr ?n)"
    using w a(1) i(1) by (simp add: area_Append_def Let_def)
  moreover have "area_Record pf ?a = Inr r"
    using nz a(6) by (simp add: area_Record_def)
  ultimately show ?thesis
    using a(5) i(2) by (intro exI [of _ ?a] conjI) simp_all
qed

lemma Replace_area:
  assumes ok: "area_ok tables pf a" and n: "a_recno a \<noteq> 0" and w: "checkWritable a (a_recno a) = Inr ()"
    and now: "clock_ok now" and old: "table_Get pf (a_recno a) (a_table a) = Inr r0"
    and keys: "\<forall>att \<in> set (a_indexes a). keyed pf (a_table a) (ai_keyFn att) (ai_index att) (a_recno a)"
    and r: "storable_in pf a r" and room: "row_count (a_table a) \<le> max_entries"
  shows "\<exists>a'. Replace now pf r a = (a', Inr ()) \<and> area_ok tables pf a' \<and> a_recno a' = a_recno a
    \<and> table_Get pf (a_recno a) (a_table a') = Inr r
    \<and> (\<forall>k. k \<noteq> a_recno a \<longrightarrow> table_Get pf k (a_table a') = table_Get pf k (a_table a))
    \<and> t_recordCount (a_table a') = t_recordCount (a_table a)"
proof -
  let ?t = "a_table a" and ?n = "a_recno a"
  have t: "wf_table ?t" "persisted tables ?t" "\<forall>att \<in> set (a_indexes a). in_step pf ?t att"
      "a_order a \<le> length (a_indexes a)" "?n \<le> t_recordCount ?t"
    using ok by (simp_all add: area_ok_def)
  obtain e where e: "writes ?t r e" "applyDecode (t_codec ?t) (t_schema ?t) e = r"
    using r by (auto simp: storable_in_def)
  obtain t' where p: "table_Put now ?n r ?t = (t', Inr ())" "wf_table t'" "persisted tables t'" "kept ?t t'"
      "t_recordCount t' = t_recordCount ?t" "table_Get pf ?n t' = Inr r"
      "\<forall>k. k \<noteq> ?n \<longrightarrow> table_Get pf k t' = table_Get pf k ?t"
    using Put_Get [OF t(1,2) now e(1) n t(5), of pf] e(2) by auto
  have mem: "?n \<in> set (all_records ?t)" and same: "all_records t' = all_records ?t"
    using n t(5) by (simp add: set_all_records, use p(5) in \<open>simp add: all_records_def row_count_def\<close>)
  have atts: "\<forall>att \<in> set (a_indexes a). covers pf ?t (ai_keyFn att) (ai_index att) (all_records ?t)
      \<and> keyed pf ?t (ai_keyFn att) (ai_index att) ?n \<and> keyed pf t' (ai_keyFn att) (ai_index att) ?n"
    using t(3) keys r p(6) by (auto simp: in_step_def storable_in_def keyed_def)
  have len: "length (all_records ?t) \<le> max_entries"
    using room by simp
  have other: "\<And>m. m \<noteq> ?n \<Longrightarrow> table_Get pf m t' = table_Get pf m ?t"
    using p(7) by blast
  obtain atts' where i: "replaceAll ?n r0 r (a_indexes a) = (atts', Inr ())" "length atts' = length (a_indexes a)"
      "\<forall>att \<in> set atts'. covers pf t' (ai_keyFn att) (ai_index att) (all_records ?t)"
    using replaceAll_covers [OF mem distinct_all_records len old p(6) other atts] by blast
  let ?a = "a\<lparr>a_table := t', a_indexes := atts'\<rparr>"
  have "area_ok tables pf ?a"
    using p(2,3,5) i(2,3) t(4,5) same by (simp add: area_ok_def in_step_def)
  moreover have "Replace now pf r a = (?a, Inr ())"
    using n w old p(1) i(1) by (simp add: Replace_def)
  ultimately show ?thesis
    using p(5,6,7) by (intro exI [of _ ?a]) simp
qed

text \<open>A deletion marker does not touch the keys, when the key functions do not look at it.\<close>

definition blind :: "area \<Rightarrow> bool" where
  "blind a \<longleftrightarrow> (\<forall>att \<in> set (a_indexes a). \<forall>r b. callKey (ai_keyFn att) (r\<lparr>r_Deleted := b\<rparr>) = callKey (ai_keyFn att) r)"

lemma marker_area:
  assumes ok: "area_ok tables pf a" and n: "a_recno a \<noteq> 0" and w: "checkWritable a (a_recno a) = Inr ()"
    and now: "clock_ok now" and old: "table_Get pf (a_recno a) (a_table a) = Inr r0" and b: "blind a"
    and m: "m = activeMarker \<or> m = deletedMarker" and f: "f = (\<lambda>recno. setDeletionMarker now recno m)"
  shows "\<exists>a'. onRecord f a = (a', Inr ()) \<and> area_ok tables pf a' \<and> a_recno a' = a_recno a
    \<and> table_Get pf (a_recno a) (a_table a') = Inr (r0\<lparr>r_Deleted := (m = deletedMarker)\<rparr>)
    \<and> (\<forall>k. k \<noteq> a_recno a \<longrightarrow> table_Get pf k (a_table a') = table_Get pf k (a_table a))
    \<and> t_recordCount (a_table a') = t_recordCount (a_table a)"
proof -
  let ?t = "a_table a" and ?n = "a_recno a"
  have t: "wf_table ?t" "persisted tables ?t" "\<forall>att \<in> set (a_indexes a). in_step pf ?t att"
      "a_order a \<le> length (a_indexes a)" "?n \<le> t_recordCount ?t"
    using ok by (simp_all add: area_ok_def)
  obtain t' where p: "setDeletionMarker now ?n m ?t = (t', Inr ())" "wf_table t'" "persisted tables t'"
      "t_recordCount t' = t_recordCount ?t" "table_Get pf ?n t' = Inr (r0\<lparr>r_Deleted := (m = deletedMarker)\<rparr>)"
      "\<forall>k. k \<noteq> ?n \<longrightarrow> table_Get pf k t' = table_Get pf k ?t"
    using setDeletionMarker_Get [OF t(1) now t(2) m old] by blast
  have same: "all_records t' = all_records ?t"
    using p(4) by (simp add: all_records_def row_count_def)
  have "in_step pf t' att" if att: "att \<in> set (a_indexes a)" for att
    unfolding in_step_def same
  proof (rule covers_cong)
    show "covers pf ?t (ai_keyFn att) (ai_index att) (all_records ?t)"
      using t(3) att by (simp add: in_step_def)
    fix k
    show "entry_of pf t' (ai_keyFn att) (ai_index att) k = entry_of pf ?t (ai_keyFn att) (ai_index att) k"
      using p(5,6) old b att by (cases "k = ?n") (auto simp: entry_of_def blind_def)
  qed
  then have "area_ok tables pf (a\<lparr>a_table := t'\<rparr>)"
    using p(2-4) t(4,5) by (simp add: area_ok_def)
  moreover have "onRecord f a = (a\<lparr>a_table := t'\<rparr>, Inr ())"
    using n w p(1) f by (simp add: onRecord_def)
  ultimately show ?thesis
    using p(4-6) by (intro exI [of _ "a\<lparr>a_table := t'\<rparr>"]) simp
qed

lemma CreateIndex_area:
  assumes ok: "area_ok tables pf a" and k: "op_KeySize opts \<noteq> 0" "op_KeySize opts \<le> 245"
    and e: "length (op_KeyExpr opts) < maxKeyExpr" and rw: "length rw \<le> 2 * pageSize" and u: "\<not> op_Unique opts"
    and n: "row_count (a_table a) \<le> max_entries"
    and keys: "\<And>n. n \<noteq> 0 \<Longrightarrow> n \<le> t_recordCount (a_table a) \<Longrightarrow>
      \<exists>r key. table_Get pf n (a_table a) = Inr r \<and> callKey fn r = Inr key \<and> length key \<le> unat (op_KeySize opts)"
  shows "\<exists>a'. CreateIndex pf rw src opts fn a = (a', Inr ()) \<and> area_ok tables pf a'
    \<and> a' = attach (ai_index (last (a_indexes a'))) fn src a \<and> ix_keySize (ai_index (last (a_indexes a'))) = op_KeySize opts"
proof -
  let ?t = "a_table a"
  obtain ix where ix: "ntx_Create rw opts = Inr ix" "holds ix []" "index_room ix" "ix_keySize ix = op_KeySize opts"
    using Create_holds [OF k e rw u] by blast
  have key: "keyed pf ?t fn ix n" if "n \<in> set (all_records ?t)" for n
  proof -
    have "n \<noteq> 0" "n \<le> t_recordCount ?t"
      using that by (simp_all add: set_all_records)
    then obtain r key where "table_Get pf n ?t = Inr r" "callKey fn r = Inr key" "length key \<le> unat (op_KeySize opts)"
      using keys by blast
    then show ?thesis
      using ix(4) by (auto simp: keyed_def normalizeKey_def)
  qed
  obtain ix' where b: "Build pf ?t fn ix = (ix', Inr ())" "covers pf ?t fn ix' (all_records ?t)" "same_shape ix ix'"
    using Build_covers [OF n ix(2,3) key] by blast
  have "CreateIndex pf rw src opts fn a = (attach ix' fn src a, Inr ())"
    using ix(1) b(1) by (simp add: CreateIndex_def)
  moreover have "area_ok tables pf (attach ix' fn src a)"
    using ok b(2) by (auto simp: area_ok_def attach_def Let_def in_step_def)
  ultimately show ?thesis
    using b(3) ix(4) by (auto simp: attach_def Let_def same_shape_def)
qed

end
