(* ===== verification/AreaScan.thy ===== *)
theory AreaScan
  imports AreaIndex
begin

text \<open>
  Navigation in a work area whose indexes are in step with its table.  \<open>ordered pf a xs\<close> names the
  record numbers in the order the controlling index gives them (the natural order when there is
  none); \<open>GoTop\<close>, \<open>GoBottom\<close> and \<open>Skip\<close> are shown to move along that list, so that the usual loop
  over an area visits every record exactly once.
\<close>

section \<open>The order of an area\<close>

definition lists_entries :: "(bytes \<Rightarrow> u64 option) \<Rightarrow> dbf_table \<Rightarrow> attached_index \<Rightarrow> entry list \<Rightarrow> bool" where
  "lists_entries pf t att es \<longleftrightarrow> holds (ai_index att) es
     \<and> image_mset Some (mset es) = mset (map (entry_of pf t (ai_keyFn att) (ai_index att)) (all_records t))"

abbreviation control :: "area \<Rightarrow> attached_index" where
  "control a \<equiv> a_indexes a ! (a_order a - 1)"

definition ordered :: "(bytes \<Rightarrow> u64 option) \<Rightarrow> area \<Rightarrow> u32 list \<Rightarrow> bool" where
  "ordered pf a xs \<longleftrightarrow>
     (if a_order a = 0 then xs = all_records (a_table a)
      else \<exists>es. lists_entries pf (a_table a) (control a) es \<and> xs = map ent_recno es)"

lemma holds_sorted: "holds ix es \<Longrightarrow> sorted es"
  by (auto simp: holds_def dest: valid_tree(3))

lemma lists_entry:
  assumes "lists_entries pf t att es" "e \<in> set es"
  shows "ent_recno e \<in> set (all_records t)" "entry_of pf t (ai_keyFn att) (ai_index att) (ent_recno e) = Some e"
proof -
  have "Some e \<in># mset (map (entry_of pf t (ai_keyFn att) (ai_index att)) (all_records t))"
    using assms by (auto simp: lists_entries_def simp flip: set_mset_mset dest!: arg_cong [of _ _ set_mset])
  then obtain n where n: "n \<in> set (all_records t)" "entry_of pf t (ai_keyFn att) (ai_index att) n = Some e"
    by auto
  then show "ent_recno e \<in> set (all_records t)" "entry_of pf t (ai_keyFn att) (ai_index att) (ent_recno e) = Some e"
    using entry_of_recno [OF n(2)] by simp_all
qed

lemma lists_recnos:
  assumes "lists_entries pf t att es"
  shows "mset (map ent_recno es) = mset (all_records t)"
proof -
  have "entry_of pf t (ai_keyFn att) (ai_index att) n \<noteq> None" if "n \<in> set (all_records t)" for n
  proof -
    have "entry_of pf t (ai_keyFn att) (ai_index att) n \<in># image_mset Some (mset es)"
      using assms that by (simp add: lists_entries_def)
    then show ?thesis
      by auto
  qed
  then have "map (\<lambda>n. ent_recno (the (entry_of pf t (ai_keyFn att) (ai_index att) n))) (all_records t) = all_records t"
    by (intro map_idI) (use entry_of_recno in force)
  moreover have "image_mset (ent_recno \<circ> the) (image_mset Some (mset es))
      = image_mset (ent_recno \<circ> the) (mset (map (entry_of pf t (ai_keyFn att) (ai_index att)) (all_records t)))"
    using assms by (simp add: lists_entries_def)
  ultimately show ?thesis
    by (simp add: multiset.map_comp comp_def flip: mset_map)
qed

lemma lists_distinct: "lists_entries pf t att es \<Longrightarrow> distinct es"
  using mset_eq_imp_distinct_iff [OF lists_recnos] distinct_all_records [of t] by (auto simp: distinct_map)

lemma in_step_lists: "in_step pf t att \<longleftrightarrow> index_room (ai_index att) \<and> (\<exists>es. lists_entries pf t att es)"
  by (simp add: in_step_def covers_def lists_entries_def)

lemma ordered_mset: "ordered pf a xs \<Longrightarrow> mset xs = mset (all_records (a_table a))"
  unfolding ordered_def using lists_recnos by (metis (no_types))

lemma area_ordered: "area_ok tables pf a \<Longrightarrow> \<exists>xs. ordered pf a xs"
  using nth_mem [of "a_order a - 1" "a_indexes a"]
  by (cases "a_order a = 0") (auto simp: ordered_def area_ok_def in_step_lists)

lemma ordered_sorted:
  assumes "ordered pf a xs" "a_order a \<noteq> 0"
  shows "sorted (map (\<lambda>n. the (entry_of pf (a_table a) (ai_keyFn (control a)) (ai_index (control a)) n)) xs)"
proof -
  let ?att = "control a"
  obtain es where es: "lists_entries pf (a_table a) ?att es" "xs = map ent_recno es"
    using assms by (auto simp: ordered_def)
  have "map (\<lambda>n. the (entry_of pf (a_table a) (ai_keyFn ?att) (ai_index ?att) n)) xs = es"
    unfolding es(2) using lists_entry(2) [OF es(1)] by (simp add: map_idI)
  then show ?thesis
    using es(1) holds_sorted lists_entries_def by metis
qed

lemma in_step_keyed:
  assumes "in_step pf t att" "n \<in> set (all_records t)"
  shows "keyed pf t (ai_keyFn att) (ai_index att) n"
proof -
  obtain es where "image_mset Some (mset es) = mset (map (entry_of pf t (ai_keyFn att) (ai_index att)) (all_records t))"
    using assms(1) by (auto simp: in_step_lists lists_entries_def)
  then have "entry_of pf t (ai_keyFn att) (ai_index att) n \<in># image_mset Some (mset es)"
    using assms(2) by simp
  then show ?thesis
    by (auto simp: entry_of_def keyed_def bindR_def split: sum.splits)
qed

section \<open>Neighbours in a sorted list\<close>

lemma strictly_sorted: "sorted es \<Longrightarrow> distinct es \<Longrightarrow> sorted_wrt (<) (es :: 'a :: linorder list)"
  by (simp add: strict_sorted_iff)

lemma dropWhile_nth:
  assumes "sorted es" "distinct es" "i < length es"
  shows "first_of (dropWhile (\<lambda>e. e \<le> es ! i) es) = (if Suc i < length es then Some (es ! Suc i) else None)"
proof -
  note s = sorted_wrt_nth_less [OF strictly_sorted [OF assms(1,2)]]
  have "dropWhile (\<lambda>e. e \<le> es ! i) es = drop (Suc i) es"
  proof (cases "Suc i < length es")
    case True
    have "dropWhile (\<lambda>e. e \<le> es ! i) (take (Suc i) es @ es ! Suc i # drop (Suc (Suc i)) es) = es ! Suc i # drop (Suc (Suc i)) es"
      using s [of i "Suc i"] True assms(1,3)
      by (subst dropWhile_append2) (auto simp: in_set_conv_nth not_le less_Suc_eq_le intro!: sorted_nth_mono)
    then show ?thesis
      using True by (simp add: Cons_nth_drop_Suc)
  next
    case False
    then have "\<forall>e \<in> set es. e \<le> es ! i"
      using assms(1,3) by (auto simp: in_set_conv_nth intro!: sorted_nth_mono)
    then show ?thesis
      using False by simp
  qed
  then show ?thesis
    by (auto simp: first_of_def not_less split: list.splits dest: Cons_nth_drop_Suc)
qed

lemma takeWhile_nth:
  assumes "sorted es" "distinct es" "i < length es"
  shows "last_of (takeWhile (\<lambda>e. e < es ! i) es) = (if i = 0 then None else Some (es ! (i - 1)))"
proof -
  note s = sorted_wrt_nth_less [OF strictly_sorted [OF assms(1,2)]]
  have "takeWhile (\<lambda>e. e < es ! i) (take i es @ es ! i # drop (Suc i) es) = take i es"
    using s assms(3) by (subst takeWhile_append2) (auto simp: in_set_conv_nth)
  then have "takeWhile (\<lambda>e. e < es ! i) es = take i es"
    using assms(3) by (simp flip: id_take_nth_drop)
  then show ?thesis
    using assms(3) by (auto simp: last_of_def last_conv_nth)
qed

section \<open>Moving\<close>

text \<open>The area with its pointer on record \<open>n\<close>, or past an end.\<close>

definition on_record :: "area \<Rightarrow> u32 \<Rightarrow> area" where
  "on_record a n = a\<lparr>a_recno := n, a_atEOF := False, a_atBOF := False\<rparr>"

definition past_end :: "area \<Rightarrow> u32 \<Rightarrow> area" where
  "past_end a n = (on_record a n)\<lparr>a_atEOF := True\<rparr>"

definition before_start :: "area \<Rightarrow> u32 \<Rightarrow> area" where
  "before_start a n = (on_record a n)\<lparr>a_atBOF := True\<rparr>"

lemma controlling_frame [simp]:
  "controlling (a\<lparr>a_recno := n\<rparr>) = controlling a" "controlling (a\<lparr>a_atEOF := b\<rparr>) = controlling a"
  "controlling (a\<lparr>a_atBOF := b\<rparr>) = controlling a"
  by (simp_all add: controlling_def)

lemma on_record_simps [simp]:
  "a_recno (on_record a n) = n" "\<not> a_atEOF (on_record a n)" "\<not> a_atBOF (on_record a n)"
  "a_recno (past_end a n) = n" "a_atEOF (past_end a n)" "a_recno (before_start a n) = n" "a_atBOF (before_start a n)"
  "controlling (on_record a n) = controlling a" "a_table (on_record a n) = a_table a"
  "a_table (past_end a n) = a_table a" "a_table (before_start a n) = a_table a"
  by (simp_all add: on_record_def past_end_def before_start_def)

lemma controlling_cases:
  assumes "area_ok tables pf a"
  shows "controlling a = Inr (if a_order a = 0 then None else Some (control a))"
  using assms by (simp add: controlling_def area_ok_def)

lemma nth_all_records: "i < row_count t \<Longrightarrow> all_records t ! i = word_of_nat (Suc i)"
  by (simp add: all_records_def recnos_def del: of_nat_Suc)

lemma all_records_step:
  assumes "i < row_count t"
  shows "t_recordCount t \<le> all_records t ! i \<longleftrightarrow> \<not> Suc i < row_count t"
    and "all_records t ! i \<le> 1 \<longleftrightarrow> i = 0"
    and "Suc i < row_count t \<Longrightarrow> all_records t ! i + 1 = all_records t ! Suc i"
    and "i \<noteq> 0 \<Longrightarrow> all_records t ! i - 1 = all_records t ! (i - 1)"
    and "all_records t ! i \<noteq> 0"
proof -
  have u: "unat (all_records t ! i) = Suc i"
    using recno_of [OF assms] nth_all_records [OF assms] by simp
  show "t_recordCount t \<le> all_records t ! i \<longleftrightarrow> \<not> Suc i < row_count t" "all_records t ! i \<le> 1 \<longleftrightarrow> i = 0"
    using u assms by (auto simp: word_le_nat_alt row_count_def)
  show "all_records t ! i + 1 = all_records t ! Suc i" if "Suc i < row_count t"
    using nth_all_records [OF assms] nth_all_records [OF that] by simp
  show "all_records t ! i - 1 = all_records t ! (i - 1)" if "i \<noteq> 0"
    using nth_all_records [OF assms] nth_all_records [of "i - 1" t] that assms by (cases i) simp_all
  show "all_records t ! i \<noteq> 0"
    using u by (metis nat.distinct(1) unat_0)
qed

text \<open>What \<open>Skip\<close> asks the controlling index, answered from the list of its entries.\<close>

lemma index_neighbours:
  assumes "lists_entries pf t att es" "i < length es"
  shows "bindR (bindR (table_Get pf (ent_recno (es ! i)) t) (callKey (ai_keyFn att)))
      (\<lambda>key. Successor (ai_index att) key (ent_recno (es ! i)))
      = Inr (if Suc i < length es then Some (es ! Suc i) else None)"
    and "bindR (bindR (table_Get pf (ent_recno (es ! i)) t) (callKey (ai_keyFn att)))
      (\<lambda>key. Predecessor (ai_index att) key (ent_recno (es ! i)))
      = Inr (if i = 0 then None else Some (es ! (i - 1)))"
proof -
  let ?e = "es ! i"
  have "entry_of pf t (ai_keyFn att) (ai_index att) (ent_recno ?e) = Some ?e"
    using lists_entry(2) [OF assms(1)] assms(2) by simp
  then obtain key k where k: "bindR (table_Get pf (ent_recno ?e) t) (callKey (ai_keyFn att)) = Inr key"
      "normalizeKey (ai_index att) key = Inr k" "Entry k (ent_recno ?e) = ?e"
    by (auto simp: entry_of_def bindR_def split: sum.splits)
  have "represents (ai_index att) es" "sorted es" "distinct es"
    using assms(1) holds_represents holds_sorted lists_distinct unfolding lists_entries_def by blast+
  then show "bindR (bindR (table_Get pf (ent_recno (es ! i)) t) (callKey (ai_keyFn att)))
      (\<lambda>key. Successor (ai_index att) key (ent_recno (es ! i)))
      = Inr (if Suc i < length es then Some (es ! Suc i) else None)"
    "bindR (bindR (table_Get pf (ent_recno (es ! i)) t) (callKey (ai_keyFn att)))
      (\<lambda>key. Predecessor (ai_index att) key (ent_recno (es ! i)))
      = Inr (if i = 0 then None else Some (es ! (i - 1)))"
    using k query_results(3,4) [of "ai_index att" _ _ _ key k "ent_recno ?e"]
      dropWhile_nth [of es i] takeWhile_nth [of es i] assms(2)
    by (auto simp: represents_def bindR_def)
qed

lemma ordered_nonzero: "ordered pf a xs \<Longrightarrow> i < length xs \<Longrightarrow> xs ! i \<noteq> 0"
  using ordered_mset [of pf a xs] nth_mem [of i xs] set_all_records [of _ "a_table a"]
  by (metis mset_eq_setD)

lemma skipForward_ordered:
  assumes ok: "area_ok tables pf a" and xs: "ordered pf a xs" "i < length xs"
  shows "skipForward pf (on_record a (xs ! i)) =
    (if Suc i < length xs then on_record a (xs ! Suc i) else past_end a (xs ! i), Inr ())"
proof (cases "a_order a = 0")
  case True
  then have "xs = all_records (a_table a)"
    using xs(1) by (simp add: ordered_def)
  then show ?thesis
    using True xs(2) controlling_cases [OF ok] all_records_step [of i "a_table a"] ordered_nonzero [OF xs]
    by (auto simp: skipForward_def Let_def on_record_def past_end_def controlling_def)
next
  case False
  then obtain es where es: "lists_entries pf (a_table a) (control a) es" "xs = map ent_recno es"
    using xs(1) by (auto simp: ordered_def)
  have n: "ent_recno (es ! i) \<noteq> 0"
    using ordered_nonzero [OF xs] xs(2) es(2) by simp
  have c: "controlling (a\<lparr>a_recno := ent_recno (es ! i), a_atEOF := False, a_atBOF := False\<rparr>) = Inr (Some (control a))"
    using controlling_cases [OF ok] False by simp
  show ?thesis
    using index_neighbours(1) [OF es(1), of i] es(2) xs(2) n c
    by (auto simp: skipForward_def Let_def on_record_def past_end_def currentKey_def)
qed

lemma skipBackward_ordered:
  assumes ok: "area_ok tables pf a" and xs: "ordered pf a xs" "i < length xs"
  shows "skipBackward pf (on_record a (xs ! i)) =
    (if i = 0 then before_start a (xs ! i) else on_record a (xs ! (i - 1)), Inr ())"
proof (cases "a_order a = 0")
  case True
  then have "xs = all_records (a_table a)"
    using xs(1) by (simp add: ordered_def)
  then show ?thesis
    using True xs(2) controlling_cases [OF ok] all_records_step [of i "a_table a"] ordered_nonzero [OF xs]
    by (auto simp: skipBackward_def Let_def on_record_def before_start_def controlling_def)
next
  case False
  then obtain es where es: "lists_entries pf (a_table a) (control a) es" "xs = map ent_recno es"
    using xs(1) by (auto simp: ordered_def)
  have n: "ent_recno (es ! i) \<noteq> 0"
    using ordered_nonzero [OF xs] xs(2) es(2) by simp
  have c: "controlling (a\<lparr>a_recno := ent_recno (es ! i), a_atEOF := False, a_atBOF := False\<rparr>) = Inr (Some (control a))"
    using controlling_cases [OF ok] False by simp
  show ?thesis
    using index_neighbours(2) [OF es(1), of i] es(2) xs(2) n c
    by (auto simp: skipBackward_def Let_def on_record_def before_start_def currentKey_def)
qed

lemma ends_ordered:
  assumes ok: "area_ok tables pf a" and xs: "ordered pf a xs"
  shows "xs \<noteq> [] \<Longrightarrow> GoTop a = ((on_record a (hd xs))\<lparr>a_atBOF := False\<rparr>, Inr ())"
    and "xs \<noteq> [] \<Longrightarrow> GoBottom a = ((on_record a (last xs))\<lparr>a_atBOF := False\<rparr>, Inr ())"
    and "xs = [] \<Longrightarrow> GoTop a = (past_end a 0, Inr ()) \<and> GoBottom a = (past_end a 0, Inr ())"
proof -
  have len: "length xs = row_count (a_table a)"
    using mset_eq_length [OF ordered_mset [OF xs]] by simp
  have c: "controlling (a\<lparr>a_atBOF := False\<rparr>) = Inr (if a_order a = 0 then None else Some (control a))"
    using controlling_cases [OF ok] by simp
  have "(GoTop a = (if xs = [] then past_end a 0 else on_record a (hd xs), Inr ()))
    \<and> (GoBottom a = (if xs = [] then past_end a 0 else on_record a (last xs), Inr ()))"
  proof (cases "a_order a = 0")
    case True
    then have eq: "xs = all_records (a_table a)"
      using xs by (simp add: ordered_def)
    have "t_recordCount (a_table a) = 0 \<longleftrightarrow> xs = []"
      using len by (auto simp: row_count_def unat_eq_0)
    moreover have "hd xs = 1" "last xs = t_recordCount (a_table a)" if "xs \<noteq> []"
    proof -
      have p: "0 < row_count (a_table a)"
        using len that by (cases xs) simp_all
      show "hd xs = 1"
        using nth_all_records [OF p] that by (simp add: eq hd_conv_nth)
      have "last xs = word_of_nat (Suc (row_count (a_table a) - 1))"
        using p that nth_all_records [of "row_count (a_table a) - 1" "a_table a"] unfolding eq
        by (simp add: last_conv_nth del: of_nat_Suc)
      then show "last xs = t_recordCount (a_table a)"
        using p by (simp add: row_count_def)
    qed
    ultimately show ?thesis
      using c True by (simp add: GoTop_def GoBottom_def goEnd_def setEmpty_def on_record_def past_end_def)
  next
    case False
    then obtain es where es: "lists_entries pf (a_table a) (control a) es" "xs = map ent_recno es"
      using xs by (auto simp: ordered_def)
    have "control a \<in> set (a_indexes a)"
      using ok False by (auto simp: area_ok_def)
    then have "3 \<le> unat (ix_maxItem (ai_index (control a)))"
      using ok by (auto simp: area_ok_def in_step_lists index_room_def)
    then have "Min (ai_index (control a)) = Inr (first_of es)" "Max (ai_index (control a)) = Inr (last_of es)"
      using es(1) query_results(5,6) unfolding lists_entries_def holds_def by blast+
    then show ?thesis
      using c False es(2)
      by (cases es) (simp_all add: GoTop_def GoBottom_def goEnd_def setEmpty_def on_record_def past_end_def
        first_of_def last_of_def last_map)
  qed
  then show "xs \<noteq> [] \<Longrightarrow> GoTop a = ((on_record a (hd xs))\<lparr>a_atBOF := False\<rparr>, Inr ())"
    "xs \<noteq> [] \<Longrightarrow> GoBottom a = ((on_record a (last xs))\<lparr>a_atBOF := False\<rparr>, Inr ())"
    "xs = [] \<Longrightarrow> GoTop a = (past_end a 0, Inr ()) \<and> GoBottom a = (past_end a 0, Inr ())"
    by (simp_all add: on_record_def)
qed

section \<open>Scanning\<close>

text \<open>The client's loop: until \<open>stop\<close>, note the record number and move on.\<close>

fun scan :: "(area, unit) op \<Rightarrow> (area \<Rightarrow> bool) \<Rightarrow> nat \<Rightarrow> (area, u32 list) op" where
  "scan step stop 0 a = (a, Inl OutOfFuel)"
| "scan step stop (Suc n) a =
     (if stop a then (a, Inr [])
      else case step a of
        (a', Inl e) \<Rightarrow> (a', Inl e)
      | (a', Inr _) \<Rightarrow> (case scan step stop n a' of (a'', res) \<Rightarrow> (a'', bindR res (\<lambda>ns. Inr (a_recno a # ns)))))"

lemma scan_list:
  assumes "\<And>i. i < length xs \<Longrightarrow>
      step (on_record a (xs ! i)) = (if Suc i < length xs then on_record a (xs ! Suc i) else out (xs ! i), Inr ())"
    and "\<And>n. \<not> stop (on_record a n)" "\<And>n. stop (out n)" "i < length xs"
  shows "scan step stop (Suc (length xs - i)) (on_record a (xs ! i)) = (out (last xs), Inr (drop i xs))"
  using assms(4)
proof (induction "length xs - i" arbitrary: i)
  case (Suc d)
  show ?case
  proof (cases "Suc i < length xs")
    case True
    then have "scan step stop (Suc (length xs - Suc i)) (on_record a (xs ! Suc i)) = (out (last xs), Inr (drop (Suc i) xs))"
      using Suc.hyps by simp
    then show ?thesis
      using Suc.prems assms(1) [OF Suc.prems] assms(2) True
      by (simp add: Suc_diff_Suc bindR_def Cons_nth_drop_Suc)
  next
    case False
    then have i: "length xs - 1 = i" "length xs - i = 1" "xs \<noteq> []"
      using Suc.prems by auto
    then have "drop i xs = [xs ! i]" "last xs = xs ! i"
      using Suc.prems Cons_nth_drop_Suc [of i xs] last_conv_nth [of xs] by simp_all
    then show ?thesis
      using assms(1) [OF Suc.prems] assms(2,3) False i(2) by (simp add: bindR_def)
  qed
qed simp

lemma Skip_one:
  "Skip pf 1 a = (case skipForward pf a of (a, Inl e) \<Rightarrow> (a, Inl e) | (a, Inr _) \<Rightarrow> (a, Inr ()))"
  "Skip pf (- 1) a = (case skipBackward pf a of (a, Inl e) \<Rightarrow> (a, Inl e) | (a, Inr _) \<Rightarrow> (a, Inr ()))"
  by (auto simp: Skip_def split: prod.splits sum.splits)

lemma scan_down:
  assumes "area_ok tables pf a" "ordered pf a xs" "xs \<noteq> []"
  shows "scan (Skip pf 1) a_atEOF (Suc (length xs)) (on_record a (hd xs)) = (past_end a (last xs), Inr xs)"
  using scan_list [of xs "Skip pf 1" a "past_end a" a_atEOF 0] assms(3) skipForward_ordered [OF assms(1,2)]
  by (simp add: Skip_one hd_conv_nth)

lemma scan_up:
  assumes "area_ok tables pf a" "ordered pf a xs" "xs \<noteq> []"
  shows "scan (Skip pf (- 1)) a_atBOF (Suc (length xs)) (on_record a (last xs)) = (before_start a (hd xs), Inr (rev xs))"
proof -
  have "Skip pf (- 1) (on_record a (rev xs ! i))
      = (if Suc i < length (rev xs) then on_record a (rev xs ! Suc i) else before_start a (rev xs ! i), Inr ())"
    if "i < length (rev xs)" for i
  proof -
    let ?j = "length xs - Suc i"
    have "?j < length xs" "rev xs ! i = xs ! ?j" "Suc i < length xs \<Longrightarrow> rev xs ! Suc i = xs ! (?j - 1)" "?j = 0 \<longleftrightarrow> \<not> Suc i < length xs"
      using that by (auto simp: rev_nth)
    then show ?thesis
      using skipBackward_ordered [OF assms(1,2), of ?j] that by (simp add: Skip_one)
  qed
  then show ?thesis
    using scan_list [of "rev xs" "Skip pf (- 1)" a "before_start a" a_atBOF 0] assms(3)
    by (simp add: hd_rev last_rev flip: hd_conv_nth)
qed

section \<open>Moving from anywhere\<close>

lemma first_of_in: "first_of xs = Some e \<Longrightarrow> e \<in> set xs"
  by (auto simp: first_of_def split: list.splits)

lemma last_of_in: "last_of xs = Some e \<Longrightarrow> e \<in> set xs"
  by (auto simp: last_of_def split: if_splits)

text \<open>Whatever key it is asked for, an index in step answers with the number of a record.\<close>

lemma query_recno:
  assumes "in_step pf t att"
  shows "FirstGE (ai_index att) key = Inr (Some e) \<Longrightarrow> ent_recno e \<in> set (all_records t)"
    and "Successor (ai_index att) key n = Inr (Some e) \<Longrightarrow> ent_recno e \<in> set (all_records t)"
    and "Predecessor (ai_index att) key n = Inr (Some e) \<Longrightarrow> ent_recno e \<in> set (all_records t)"
    and "Min (ai_index att) = Inr (Some e) \<Longrightarrow> ent_recno e \<in> set (all_records t)"
    and "Max (ai_index att) = Inr (Some e) \<Longrightarrow> ent_recno e \<in> set (all_records t)"
proof -
  obtain es where es: "lists_entries pf t att es" and m: "3 \<le> unat (ix_maxItem (ai_index att))"
    using assms by (auto simp: in_step_lists index_room_def)
  obtain fs h bt where v: "ntx_valid (ai_index att) fs h bt" "inorder bt = es"
    using es by (auto simp: lists_entries_def holds_def)
  note q = query_results [OF v(1)] and r = lists_entry(1) [OF es]
  show "FirstGE (ai_index att) key = Inr (Some e) \<Longrightarrow> ent_recno e \<in> set (all_records t)"
    by (cases "normalizeKey (ai_index att) key")
      (use q(2) v(2) in \<open>auto simp: FirstGE_def bindR_def dest!: first_of_in set_dropWhileD intro: r\<close>)
  show "Successor (ai_index att) key n = Inr (Some e) \<Longrightarrow> ent_recno e \<in> set (all_records t)"
    by (cases "normalizeKey (ai_index att) key")
      (use q(3) v(2) in \<open>auto simp: Successor_def bindR_def dest!: first_of_in set_dropWhileD intro: r\<close>)
  show "Predecessor (ai_index att) key n = Inr (Some e) \<Longrightarrow> ent_recno e \<in> set (all_records t)"
    by (cases "normalizeKey (ai_index att) key")
      (use q(4) v(2) in \<open>auto simp: Predecessor_def bindR_def dest!: last_of_in set_takeWhileD intro: r\<close>)
  show "Min (ai_index att) = Inr (Some e) \<Longrightarrow> ent_recno e \<in> set (all_records t)"
    using q(5) [OF m] v(2) by (auto dest!: first_of_in intro: r)
  show "Max (ai_index att) = Inr (Some e) \<Longrightarrow> ent_recno e \<in> set (all_records t)"
    using q(6) [OF m] v(2) by (auto dest!: last_of_in intro: r)
qed

end
