(* ===== verification/AreaRebuild.thy ===== *)
theory AreaRebuild
  imports AreaScan
begin

text \<open>
  Packing an area keeps its indexes in step with the packed table: the entries of removed records
  are dropped, the entries of survivors that moved are deleted under the old number and inserted
  under the new one.
\<close>

section \<open>The walk over an index\<close>

lemma entries_bound: "bal h t \<Longrightarrow> fits K M t \<Longrightarrow> length (inorder t) \<le> M * length (pages t)"
proof (induction t arbitrary: h)
  case (BNode off ks ss)
  obtain h' where h': "\<forall>k \<in> set ks. bal h' k" "length ks = Suc (length ss)"
    using BNode.prems(1) by auto
  have "sum_list (map (\<lambda>k. length (inorder k)) ks) \<le> sum_list (map (\<lambda>k. M * length (pages k)) ks)"
    using BNode.IH BNode.prems(2) h' by (intro sum_list_le) auto
  moreover have "length (inorder (BNode off ks ss)) = sum_list (map (\<lambda>k. length (inorder k)) ks) + length ss"
    using h'(2) by (cases ks) (auto simp: interleave_def length_aft comp_def)
  ultimately show ?case
    using BNode.prems(2) by (simp add: length_concat comp_def sum_list_const_mult)
qed simp

lemma holds_fuel:
  assumes "holds ix es"
  shows "length es < ix_fileSize ix + 1"
proof -
  obtain fs h t where v: "ntx_valid ix fs h t" "no_leak ix fs t" "inorder t = es"
    using assms by (auto simp: holds_def)
  have "unat (ix_maxItem ix) \<le> pageSize"
  proof -
    have "(unat (ix_maxItem ix) + 1) * (unat (ix_itemSize ix) + 2) \<le> 1022"
      using v(1) geom_nat(5) by (auto simp: ntx_valid_def wf_store_def)
    then show ?thesis
      by (simp add: pageSize_def)
  qed
  then have "unat (ix_maxItem ix) * length (pages t) \<le> ix_fileSize ix"
    using v(2) unfolding no_leak_def by (metis add.commute le_add2 mult.commute mult_le_mono)
  moreover have "length es \<le> unat (ix_maxItem ix) * length (pages t)"
    using entries_bound [of h t] v by (auto simp: ntx_valid_def tree_ok_def)
  ultimately show ?thesis
    by simp
qed

lemma staleLoop_cursor:
  assumes "cursor_at ix c es" "length es < n"
  shows "staleLoop n ix m c = Inr (filter (\<lambda>e. \<not> snd (Lookup (ent_recno e) m)) es)"
  using assms
proof (induction n arbitrary: c es)
  case (Suc n)
  obtain c' b where n: "Next ix c = (c', b)"
    by fastforce
  have r: "next_result ix (c', b) es"
    using Next_correct [OF Suc.prems(1)] n by simp
  show ?case
  proof (cases es)
    case Nil
    then show ?thesis
      using r n by (simp add: cursor_at_def)
  next
    case (Cons e es')
    then show ?thesis
      using r n Suc.IH [of c' es'] Suc.prems(2) by (simp add: bindR_def)
  qed
qed simp

lemma staleEntries_holds:
  assumes "holds ix es"
  shows "staleEntries ix m = Inr (filter (\<lambda>e. \<not> snd (Lookup (ent_recno e) m)) es)"
proof -
  obtain fs h t where "ntx_valid ix fs h t" "inorder t = es"
    using assms by (auto simp: holds_def)
  then have "cursor_at ix (First ix NewCursor) es"
    using First_cursor by blast
  then show ?thesis
    unfolding staleEntries_def by (rule staleLoop_cursor [OF _ holds_fuel [OF assms]])
qed

section \<open>Deleting and inserting runs of entries\<close>

text \<open>\<open>keys_at pf t fn ix (key, n)\<close>: \<open>key\<close> is a key the index stores for record \<open>n\<close>, padded or not.\<close>

definition keys_at :: "(bytes \<Rightarrow> u64 option) \<Rightarrow> dbf_table \<Rightarrow> key_func \<Rightarrow> ntx_index \<Rightarrow> bytes \<times> u32 \<Rightarrow> bool" where
  "keys_at pf t fn ix d \<longleftrightarrow>
     (\<exists>k. normalizeKey ix (fst d) = Inr k \<and> entry_of pf t fn ix (snd d) = Some (Entry k (snd d)))"

lemma keys_at_shape: "same_shape ix ix' \<Longrightarrow> keys_at pf t fn ix' d = keys_at pf t fn ix d"
  using normalizeKey_shape [of ix ix'] entry_of_shape [of ix' ix] by (simp add: keys_at_def same_shape_def)

lemma deleteAll_covers:
  assumes "covers pf t fn ix ns" "distinct ns" "distinct (map snd ds)" "snd ` set ds \<subseteq> set ns"
    and "\<forall>d \<in> set ds. keys_at pf t fn ix d"
  shows "\<exists>ix'. deleteAll msg ds ix = (ix', Inr ()) \<and> same_shape ix ix'
    \<and> covers pf t fn ix' (filter (\<lambda>n. n \<notin> snd ` set ds) ns)"
  using assms
proof (induction ds arbitrary: ix ns)
  case Nil
  then show ?case
    by (simp add: same_shape_def)
next
  case (Cons d ds)
  obtain key n where d: "d = (key, n)"
    by fastforce
  obtain k where k: "normalizeKey ix key = Inr k" "entry_of pf t fn ix n = Some (Entry k n)"
    using Cons.prems(5) d by (auto simp: keys_at_def)
  obtain ix1 where i: "ntx_Delete key n ix = (ix1, Inr True)" "covers pf t fn ix1 (remove1 n ns)" "same_shape ix ix1"
    using covers_delete [OF Cons.prems(1) _ k(2,1)] Cons.prems(4) d by auto
  have rest: "distinct (remove1 n ns)" "distinct (map snd ds)" "snd ` set ds \<subseteq> set (remove1 n ns)"
      "\<forall>d \<in> set ds. keys_at pf t fn ix1 d"
    using Cons.prems(2-5) d keys_at_shape [OF i(3)] by (auto simp: set_remove1_eq)
  obtain ix2 where i2: "deleteAll msg ds ix1 = (ix2, Inr ())" "same_shape ix1 ix2"
      "covers pf t fn ix2 (filter (\<lambda>n. n \<notin> snd ` set ds) (remove1 n ns))"
    using Cons.IH [OF i(2)] rest by blast
  have "filter (\<lambda>n. n \<notin> snd ` set ds) (remove1 n ns) = filter (\<lambda>x. x \<notin> snd ` set (d # ds)) ns"
    using Cons.prems(2) d by (auto simp: distinct_remove1_removeAll removeAll_filter_not_eq intro: filter_cong)
  then show ?case
    using i i2 d same_shape_trans by auto
qed

lemma insertMoves_covers:
  assumes "covers pf t fn ix ns" "length ns + length ds \<le> max_entries" "\<forall>d \<in> set ds. keys_at pf t fn ix d"
  shows "\<exists>ix'. insertMoves ds ix = (ix', Inr ()) \<and> same_shape ix ix' \<and> covers pf t fn ix' (rev (map snd ds) @ ns)"
  using assms
proof (induction ds arbitrary: ix ns)
  case Nil
  then show ?case
    by (simp add: same_shape_def)
next
  case (Cons d ds)
  obtain key n where d: "d = (key, n)"
    by fastforce
  obtain k where k: "normalizeKey ix key = Inr k" "entry_of pf t fn ix n = Some (Entry k n)"
    using Cons.prems(3) d by (auto simp: keys_at_def)
  obtain ix1 where i: "Insert key n ix = (ix1, Inr True)" "covers pf t fn ix1 (n # ns)" "same_shape ix ix1"
    using covers_insert [OF Cons.prems(1) k(2,1)] Cons.prems(2) by auto
  obtain ix2 where i2: "insertMoves ds ix1 = (ix2, Inr ())" "same_shape ix1 ix2"
      "covers pf t fn ix2 (rev (map snd ds) @ n # ns)"
    using Cons.IH [OF i(2)] Cons.prems(2,3) keys_at_shape [OF i(3)] by auto
  then show ?case
    using i d same_shape_trans by auto
qed

section \<open>The mapping of a pack\<close>

definition renumbers :: "(bytes \<Rightarrow> u64 option) \<Rightarrow> dbf_table \<Rightarrow> dbf_table \<Rightarrow> record_mapping \<Rightarrow> bool" where
  "renumbers pf t t' m \<longleftrightarrow> OldCount m = t_recordCount t
     \<and> (\<forall>n n'. Lookup n m = (n', True) \<longrightarrow> table_Get pf n' t' = table_Get pf n t)
     \<and> (\<forall>a b a' b'. Lookup a m = (a', True) \<longrightarrow> Lookup b m = (b', True) \<longrightarrow> a < b \<longrightarrow> a' < b')
     \<and> length (filter (\<lambda>n. snd (Lookup n m)) (all_records t)) = row_count t'"

definition survivors :: "record_mapping \<Rightarrow> u32 list \<Rightarrow> u32 list" where
  "survivors m ns = filter (\<lambda>n. snd (Lookup n m)) ns"

definition moved :: "record_mapping \<Rightarrow> u32 list \<Rightarrow> u32 list" where
  "moved m ns = filter (\<lambda>n. snd (Lookup n m) \<and> n \<noteq> fst (Lookup n m)) ns"

definition unmoved :: "record_mapping \<Rightarrow> u32 list \<Rightarrow> u32 list" where
  "unmoved m ns = filter (\<lambda>n. snd (Lookup n m) \<and> n = fst (Lookup n m)) ns"

lemma old_numbers: "OldCount m = t_recordCount t \<Longrightarrow> map word_of_nat [1..<Suc (unat (OldCount m))] = all_records t"
  unfolding all_records_def recnos_def row_count_def
  by (metis (no_types, lifting) One_nat_def ext list.map_comp map_Suc_upt o_apply)

lemma count_filter: "length (filter (\<lambda>i. P (xs ! i)) [0..<length xs]) = length (filter P xs)"
proof -
  have "filter P (map ((!) xs) [0..<length xs]) = map ((!) xs) (filter (P \<circ> (!) xs) [0..<length xs])"
    by (rule filter_map)
  then have "length (filter P xs) = length (filter (P \<circ> (!) xs) [0..<length xs])"
    unfolding map_nth by (metis length_map)
  then show ?thesis
    by (simp add: comp_def)
qed

lemma Pack_renumbering:
  assumes "wf_table t" "persisted tables t" "t_recordCount t \<noteq> - 1" "clock_ok now"
  shows "\<exists>t' m. Pack trunc now t = (t', Inr m) \<and> wf_table t' \<and> persisted tables t'
    \<and> rows t' = filter alive (rows t) \<and> renumbers pf t t' m"
proof -
  obtain t' m where p: "Pack trunc now t = (t', Inr m)" "wf_table t'" "persisted tables t'"
      "rows t' = filter alive (rows t)" "OldCount m = t_recordCount t"
      "\<forall>n. snd (Lookup n m) \<longleftrightarrow> n \<noteq> 0 \<and> unat n \<le> row_count t \<and> alive (rows t ! (unat n - 1))"
      "\<forall>n n'. Lookup n m = (n', True) \<longrightarrow> table_Get pf n' t' = table_Get pf n t"
      "\<forall>a b a' b'. Lookup a m = (a', True) \<longrightarrow> Lookup b m = (b', True) \<longrightarrow> a < b \<longrightarrow> a' < b'"
    using Pack_Get [OF assms, of trunc pf] by blast
  have "snd (Lookup (word_of_nat (Suc i)) m) = alive (rows t ! i)" if "i < row_count t" for i
    using p(6) recno_of [OF that] that by (metis Suc_leI diff_Suc_1 nat.distinct(1) unat_0)
  then have "filter (\<lambda>i. snd (Lookup (word_of_nat (Suc i)) m)) [0..<row_count t] = filter (\<lambda>i. alive (rows t ! i)) [0..<row_count t]"
    by (intro filter_cong) auto
  then have "length (filter (\<lambda>n. snd (Lookup n m)) (all_records t)) = length (filter (\<lambda>i. alive (rows t ! i)) [0..<row_count t])"
    by (simp add: all_records_def recnos_def filter_map comp_def del: of_nat_Suc)
  also have "\<dots> = row_count t'"
    using count_filter [of alive "rows t"] p(4) by (metis length_rows)
  finally show ?thesis
    using p by (auto simp: renumbers_def)
qed

lemma Pack_Identity: "Pack trunc now t = (t', Inr m) \<Longrightarrow> mapping_Identity m \<Longrightarrow> t' = t"
  by (auto simp: Pack_def Let_def bindS_def split: if_splits sum.splits prod.splits)

lemma collectMoves_eq:
  assumes "\<And>n. n \<in> set ns \<Longrightarrow> snd (Lookup n m) \<Longrightarrow> table_Get pf (fst (Lookup n m)) t' = Inr (rec n)"
  shows "collectMoves pf t' f m ns = Inr (map (\<lambda>n. (f (rec n), n, fst (Lookup n m))) (moved m ns))"
  using assms
proof (induction ns)
  case (Cons n ns)
  obtain n' b where l: "Lookup n m = (n', b)"
    by fastforce
  show ?case
    using Cons.IH Cons.prems [of n] Cons.prems l by (auto simp: moved_def bindR_def)
qed (simp add: moved_def)

text \<open>The new numbers of the survivors are the record numbers of the packed table.\<close>

lemma new_numbers:
  assumes r: "renumbers pf t t' m" and g: "\<And>n. n \<in> set (all_records t) \<Longrightarrow> \<exists>x. table_Get pf n t = Inr x"
  shows "mset (map (\<lambda>n. fst (Lookup n m)) (survivors m (all_records t))) = mset (all_records t')"
proof -
  let ?ns = "survivors m (all_records t)" and ?new = "\<lambda>n. fst (Lookup n m)"
  have L: "Lookup n m = (?new n, True)" if "n \<in> set ?ns" for n
    using that by (simp add: survivors_def prod_eq_iff)
  have mono: "?new a < ?new b" if "a \<in> set ?ns" "b \<in> set ?ns" "a < b" for a b
    using r L that unfolding renumbers_def by blast
  then have "inj_on ?new (set ?ns)"
    by (intro linorder_inj_onI') (metis order_less_irrefl)
  then have d: "distinct (map ?new ?ns)"
    using distinct_all_records by (simp add: distinct_map survivors_def)
  have "set (map ?new ?ns) \<subseteq> set (all_records t')"
  proof
    fix n' assume "n' \<in> set (map ?new ?ns)"
    then obtain n where n: "n \<in> set ?ns" "n' = ?new n"
      by auto
    then obtain x where "table_Get pf n t = Inr x"
      using g by (auto simp: survivors_def)
    then have "table_Get pf n' t' = Inr x"
      using r L [OF n(1)] n(2) unfolding renumbers_def by metis
    then have "n' \<noteq> 0" "n' \<le> t_recordCount t'"
      by (auto simp: table_Get_def checkRecno_def bindR_def split: if_splits)
    then show "n' \<in> set (all_records t')"
      by (simp add: set_all_records)
  qed
  moreover have "card (set (map ?new ?ns)) = card (set (all_records t'))"
    using distinct_card [OF d] distinct_card [OF distinct_all_records, of t'] r
    by (simp add: survivors_def renumbers_def)
  ultimately have "set (map ?new ?ns) = set (all_records t')"
    by (intro card_subset_eq) simp_all
  then show ?thesis
    using d distinct_all_records set_eq_iff_mset_eq_distinct by blast
qed

section \<open>Rebuilding\<close>

lemma normalizeKey_idem: "normalizeKey ix key = Inr k \<Longrightarrow> normalizeKey ix k = Inr k"
  by (auto simp: normalizeKey_def split: if_splits)

lemma entry_of_parts:
  assumes "entry_of pf t (Some f) ix n = Some e"
  obtains r k where "table_Get pf n t = Inr r" "normalizeKey ix (f r) = Inr k" "e = Entry k n"
  using assms that by (auto simp: entry_of_def callKey_def bindR_def split: sum.splits)

text \<open>Dropping the entries of the records that are gone.\<close>

lemma dropStale_covers:
  assumes c: "covers pf t fn ix (all_records t)"
  shows "\<exists>es ix'. staleEntries ix m = Inr es
    \<and> deleteAll msg (map (\<lambda>e. (ent_key e, ent_recno e)) es) ix = (ix', Inr ())
    \<and> same_shape ix ix' \<and> covers pf t fn ix' (survivors m (all_records t))"
proof -
  let ?att = "\<lparr>ai_index = ix, ai_keyFn = fn, ai_src_close = None\<rparr>"
  obtain es where es: "lists_entries pf t ?att es"
    using c by (auto simp: covers_def lists_entries_def)
  let ?stale = "filter (\<lambda>e. \<not> snd (Lookup (ent_recno e) m)) es"
  let ?ds = "map (\<lambda>e. (ent_key e, ent_recno e)) ?stale"
  have recnos: "set (map ent_recno es) = set (all_records t)" "distinct (map ent_recno es)"
    using mset_eq_setD [OF lists_recnos [OF es]] mset_eq_imp_distinct_iff [OF lists_recnos [OF es]] distinct_all_records
    by simp_all
  have gone: "snd ` set ?ds = {n \<in> set (all_records t). \<not> snd (Lookup n m)}"
    unfolding recnos(1) [symmetric] by force
  have "map snd ?ds = map ent_recno ?stale"
    by simp
  then have ds: "distinct (map snd ?ds)"
    using recnos(2) distinct_map_filter by metis
  have "keys_at pf t fn ix (ent_key e, ent_recno e)" if e: "e \<in> set es" for e
  proof -
    have "entry_of pf t fn ix (ent_recno e) = Some e"
      using lists_entry(2) [OF es e] by simp
    moreover have "normalizeKey ix (ent_key e) = Inr (ent_key e)"
    proof -
      obtain key where "normalizeKey ix key = Inr (ent_key e)"
        using calculation by (cases e) (auto simp: entry_of_def bindR_def split: sum.splits)
      then show ?thesis
        by (rule normalizeKey_idem)
    qed
    ultimately show ?thesis
      by (cases e) (simp add: keys_at_def)
  qed
  then have keys: "\<forall>d \<in> set ?ds. keys_at pf t fn ix d"
    by auto
  have "snd ` set ?ds \<subseteq> set (all_records t)"
    using gone by blast
  then obtain ix' where d: "deleteAll msg ?ds ix = (ix', Inr ())" "same_shape ix ix'"
      "covers pf t fn ix' (filter (\<lambda>n. n \<notin> snd ` set ?ds) (all_records t))"
    using deleteAll_covers [OF c distinct_all_records ds _ keys] by blast
  have s: "filter (\<lambda>n. n \<notin> snd ` set ?ds) (all_records t) = survivors m (all_records t)"
    unfolding gone survivors_def by (rule filter_cong) auto
  have st: "staleEntries ix m = Inr ?stale"
    using es by (intro staleEntries_holds) (simp add: lists_entries_def)
  show ?thesis
    by (rule exI [of _ ?stale], rule exI [of _ ix']) (intro conjI st d(1,2) d(3) [unfolded s])
qed

lemma mset_survivors: "mset (survivors m ns) = mset (moved m ns) + mset (unmoved m ns)"
  by (induction ns) (auto simp: survivors_def moved_def unmoved_def)

lemma Rebuild_covers:
  assumes c: "covers pf t (Some f) ix (all_records t)" and r: "renumbers pf t t' m" and room: "row_count t \<le> max_entries"
  shows "\<exists>ix'. Rebuild pf t' (Some f) m ix = (ix', Inr ()) \<and> covers pf t' (Some f) ix' (all_records t')"
proof -
  let ?ns = "all_records t" and ?fn = "Some f" and ?new = "\<lambda>n. fst (Lookup n m)"
  define rec where "rec n = (case table_Get pf n t of Inr x \<Rightarrow> x)" for n
  have e: "entry_of pf t ?fn ix n \<noteq> None" if "n \<in> set ?ns" for n
  proof -
    obtain es where "image_mset Some (mset es) = mset (map (entry_of pf t ?fn ix) ?ns)"
      using c by (auto simp: covers_def)
    then have "entry_of pf t ?fn ix n \<in># image_mset Some (mset es)"
      using that by simp
    then show ?thesis
      by auto
  qed
  have get: "table_Get pf n t = Inr (rec n)" if "n \<in> set ?ns" for n
    using e [OF that] by (auto simp: entry_of_def rec_def split: sum.splits)
  have key: "\<exists>k. normalizeKey ix (f (rec n)) = Inr k \<and> entry_of pf t ?fn ix n = Some (Entry k n)" if n: "n \<in> set ?ns" for n
  proof -
    obtain x where x: "entry_of pf t ?fn ix n = Some x"
      using e [OF n] by auto
    obtain r k where "table_Get pf n t = Inr r" "normalizeKey ix (f r) = Inr k" "x = Entry k n"
      by (rule entry_of_parts [OF x])
    then show ?thesis
      using x get [OF n] by auto
  qed
  have new: "table_Get pf (?new n) t' = Inr (rec n)" if "n \<in> set ?ns" "snd (Lookup n m)" for n
  proof -
    have "Lookup n m = (?new n, True)"
      using that(2) by (simp add: prod_eq_iff)
    then have "table_Get pf (?new n) t' = table_Get pf n t"
      using r unfolding renumbers_def by blast
    then show ?thesis
      using get [OF that(1)] by simp
  qed
  let ?mv = "moved m ?ns"
  have moves: "collectMoves pf t' f m ?ns = Inr (map (\<lambda>n. (f (rec n), n, ?new n)) ?mv)"
    using new by (rule collectMoves_eq)
  obtain es ix1 where i1: "staleEntries ix m = Inr es"
      "deleteAll ''dropping stale index entry'' (map (\<lambda>e. (ent_key e, ent_recno e)) es) ix = (ix1, Inr ())"
      "same_shape ix ix1" "covers pf t ?fn ix1 (survivors m ?ns)"
    using dropStale_covers [OF c] by blast
  have mv: "set ?mv \<subseteq> set ?ns" "distinct ?mv" "set ?mv \<subseteq> set (survivors m ?ns)" "distinct (survivors m ?ns)"
    using distinct_all_records by (auto simp: moved_def survivors_def)
  let ?d2 = "map (\<lambda>n. (f (rec n), n)) ?mv"
  have k2: "\<forall>d \<in> set ?d2. keys_at pf t ?fn ix1 d"
    using key mv(1) keys_at_shape [OF i1(3)] by (auto simp: keys_at_def)
  have "map snd ?d2 = ?mv" "snd ` set ?d2 = set ?mv"
    by (simp_all add: comp_def image_image)
  then obtain ix2 where i2: "deleteAll ''removing old index entry'' ?d2 ix1 = (ix2, Inr ())" "same_shape ix1 ix2"
      "covers pf t ?fn ix2 (filter (\<lambda>n. n \<notin> set ?mv) (survivors m ?ns))"
    using deleteAll_covers [OF i1(4) mv(4) _ _ k2] mv(2,3) by metis
  have un: "filter (\<lambda>n. n \<notin> set ?mv) (survivors m ?ns) = unmoved m ?ns"
    by (auto simp: survivors_def moved_def unmoved_def intro!: filter_cong)
  have shape: "same_shape ix ix2"
    using i1(3) i2(2) by (rule same_shape_trans)
  have c2: "covers pf t' ?fn ix2 (unmoved m ?ns)"
  proof (rule covers_cong [OF i2(3) [unfolded un]])
    fix n assume "n \<in> set (unmoved m ?ns)"
    then have "n \<in> set ?ns" "snd (Lookup n m)" "?new n = n"
      by (auto simp: unmoved_def)
    then show "entry_of pf t' ?fn ix2 n = entry_of pf t ?fn ix2 n"
      using new [of n] get [of n] by (simp add: entry_of_def)
  qed
  let ?d3 = "map (\<lambda>n. (f (rec n), ?new n)) ?mv"
  have k3: "\<forall>d \<in> set ?d3. keys_at pf t' ?fn ix2 d"
  proof
    fix d assume "d \<in> set ?d3"
    then obtain n where n: "n \<in> set ?ns" "snd (Lookup n m)" "d = (f (rec n), ?new n)"
      by (auto simp: moved_def)
    obtain k where "normalizeKey ix (f (rec n)) = Inr k"
      using key [OF n(1)] by blast
    then have "keys_at pf t' ?fn ix d"
      using new [OF n(1,2)] n(3) by (simp add: keys_at_def entry_of_def callKey_def)
    then show "keys_at pf t' ?fn ix2 d"
      using keys_at_shape [OF shape] by simp
  qed
  have split: "mset (survivors m ?ns) = mset ?mv + mset (unmoved m ?ns)"
    by (rule mset_survivors)
  have "length (survivors m ?ns) \<le> max_entries"
    using room length_filter_le [of _ ?ns] unfolding survivors_def by (metis le_trans length_all_records)
  then have len: "length (unmoved m ?ns) + length ?d3 \<le> max_entries"
    using arg_cong [OF split, of size] by simp
  obtain ix3 where i3: "insertMoves ?d3 ix2 = (ix3, Inr ())" "covers pf t' ?fn ix3 (rev (map snd ?d3) @ unmoved m ?ns)"
    using insertMoves_covers [OF c2 len k3] by blast
  have "map ?new (unmoved m ?ns) = unmoved m ?ns"
    by (rule map_idI) (simp add: unmoved_def)
  then have "mset (rev (map snd ?d3) @ unmoved m ?ns) = image_mset ?new (mset (survivors m ?ns))"
    unfolding split by (metis (no_types, lifting) comp_def image_mset_union list.map_comp map_eq_conv mset_append mset_map mset_rev snd_conv)
  also have "\<dots> = mset (all_records t')"
    using new_numbers [OF r] get by (simp add: mset_map [symmetric] del: mset_map)
  finally have "covers pf t' ?fn ix3 (all_records t')"
    by (intro covers_perm [OF i3(2)]) simp
  moreover have "Rebuild pf t' ?fn m ix = (ix3, Inr ())"
    using moves old_numbers [of m t] r i1(1,2) i2(1) i3(1)
    by (simp add: Rebuild_def renumbers_def bindS_def comp_def case_prod_beta del: upt_Suc)
  ultimately show ?thesis
    by blast
qed

section \<open>Packing the area\<close>

lemma rebuildAll_covers:
  assumes "renumbers pf t t' m" "row_count t \<le> max_entries" "0 < row_count t"
    and "\<forall>att \<in> set atts. in_step pf t att"
  shows "\<exists>atts'. rebuildAll pf t' m atts = (atts', Inr ()) \<and> map ai_keyFn atts' = map ai_keyFn atts
    \<and> (\<forall>att \<in> set atts'. in_step pf t' att)"
  using assms(4)
proof (induction atts)
  case (Cons att atts)
  have c: "covers pf t (ai_keyFn att) (ai_index att) (all_records t)"
    using Cons.prems by (simp add: in_step_def)
  obtain f where f: "ai_keyFn att = Some f"
  proof (cases "ai_keyFn att")
    case None
    obtain es where es: "image_mset Some (mset es) = mset (map (entry_of pf t (ai_keyFn att) (ai_index att)) (all_records t))"
      using c by (auto simp: covers_def)
    have "entry_of pf t (ai_keyFn att) (ai_index att) = (\<lambda>n. None)"
      using None by (intro ext) (auto simp: entry_of_def callKey_def bindR_def split: sum.splits)
    then have "map (entry_of pf t (ai_keyFn att) (ai_index att)) (all_records t) = replicate (row_count t) None"
      by (simp add: map_replicate_const)
    then have "None \<in># image_mset Some (mset es)"
      using assms(3) es by simp
    then show ?thesis
      by auto
  qed (rule that)
  obtain ix where ix: "Rebuild pf t' (Some f) m (ai_index att) = (ix, Inr ())" "covers pf t' (Some f) ix (all_records t')"
    using Rebuild_covers [OF _ assms(1,2), of f "ai_index att"] c f by auto
  obtain atts' where "rebuildAll pf t' m atts = (atts', Inr ())" "map ai_keyFn atts' = map ai_keyFn atts"
      "\<forall>att \<in> set atts'. in_step pf t' att"
    using Cons by auto
  then show ?case
    using ix f by (intro exI [of _ "att\<lparr>ai_index := ix\<rparr> # atts'"]) (simp add: in_step_def)
qed simp

lemma goEnd_frame: "goEnd pick n (a\<lparr>a_recno := k\<rparr>) = (b, Inr ()) \<Longrightarrow> goEnd pick n a = (b, Inr ())"
  by (auto simp: goEnd_def Let_def setEmpty_def split: sum.splits option.splits if_splits)

lemma GoTop_area:
  assumes "area_ok tables pf (a\<lparr>a_recno := 0\<rparr>)"
  shows "\<exists>a'. GoTop a = (a', Inr ()) \<and> area_ok tables pf a' \<and> a_table a' = a_table a \<and> a_indexes a' = a_indexes a
    \<and> a_order a' = a_order a \<and> \<not> a_atBOF a' \<and> (a_atEOF a' \<longleftrightarrow> row_count (a_table a) = 0)"
proof -
  let ?a = "a\<lparr>a_recno := 0\<rparr>"
  obtain xs where xs: "ordered pf ?a xs"
    using area_ordered [OF assms] by blast
  have len: "length xs = row_count (a_table a)"
    using mset_eq_length [OF ordered_mset [OF xs]] by simp
  let ?b = "if xs = [] then past_end ?a 0 else on_record ?a (hd xs)"
  have "GoTop ?a = (?b, Inr ())"
    using ends_ordered [OF assms xs] by (auto simp: on_record_def)
  then have top: "GoTop a = (?b, Inr ())"
    unfolding GoTop_def by (rule goEnd_frame)
  have "hd xs \<in> set (all_records (a_table a))" if "xs \<noteq> []"
  proof -
    have "hd xs \<in> set xs"
      using that by simp
    then show ?thesis
      unfolding mset_eq_setD [OF ordered_mset [OF xs]] by simp
  qed
  then have "area_ok tables pf ?b"
    using assms by (auto simp: area_ok_def on_record_def past_end_def set_all_records)
  then show ?thesis
    using top by (intro exI [of _ ?b]) (auto simp: on_record_def past_end_def simp flip: len)
qed

lemma Pack_area:
  assumes ok: "area_ok tables pf a" and w: "checkWritable a 0 = Inr ()" and now: "clock_ok now"
    and room: "row_count (a_table a) \<le> max_entries"
  shows "\<exists>a' m. area_Pack trunc now pf a = (a', Inr m) \<and> area_ok tables pf a'
    \<and> rows (a_table a') = filter alive (rows (a_table a)) \<and> renumbers pf (a_table a) (a_table a') m
    \<and> map ai_keyFn (a_indexes a') = map ai_keyFn (a_indexes a) \<and> a_order a' = a_order a
    \<and> \<not> a_atBOF a' \<and> (a_atEOF a' \<longleftrightarrow> row_count (a_table a') = 0)"
proof -
  let ?t = "a_table a"
  have t: "wf_table ?t" "persisted tables ?t" "\<forall>att \<in> set (a_indexes a). in_step pf ?t att"
      "a_order a \<le> length (a_indexes a)"
    using ok by (simp_all add: area_ok_def)
  have last: "t_recordCount ?t \<noteq> - 1"
  proof
    assume "t_recordCount ?t = - 1"
    then have "unat (t_recordCount ?t) = 2 ^ 32 - 1"
      by (simp add: unsigned_minus_1_eq_mask mask_eq_exp_minus_1)
    then show False
      using room by (simp add: row_count_def max_entries_def)
  qed
  obtain t' m where p: "Pack trunc now ?t = (t', Inr m)" "wf_table t'" "persisted tables t'"
      "rows t' = filter alive (rows ?t)" "renumbers pf ?t t' m"
    using Pack_renumbering [OF t(1,2) last now, of trunc pf] by blast
  have "\<exists>atts. (if mapping_Identity m then atts = a_indexes a else rebuildAll pf t' m (a_indexes a) = (atts, Inr ()))
    \<and> map ai_keyFn atts = map ai_keyFn (a_indexes a) \<and> (\<forall>att \<in> set atts. in_step pf t' att)"
  proof (cases "mapping_Identity m")
    case True
    then show ?thesis
      using Pack_Identity [OF p(1)] t(3) by auto
  next
    case False
    have "0 < row_count ?t"
    proof (rule ccontr)
      assume "\<not> 0 < row_count ?t"
      then have "packScan ?t 1 [] \<lparr>rm_oldToNew = replicate (unat (t_recordCount ?t)) 0, rm_Removed = 0, rm_Kept = 0\<rparr>
        = Inr ([], \<lparr>rm_oldToNew = replicate (unat (t_recordCount ?t)) 0, rm_Removed = 0, rm_Kept = 0\<rparr>)"
        by (subst packScan.simps) (auto simp: row_count_def word_le_nat_alt)
      then show False
        using p(1) False by (auto simp: Pack_def mapping_Identity_def)
    qed
    then show ?thesis
      using rebuildAll_covers [OF p(5) room _ t(3)] False by auto
  qed
  then obtain atts where atts: "if mapping_Identity m then atts = a_indexes a else rebuildAll pf t' m (a_indexes a) = (atts, Inr ())"
      "map ai_keyFn atts = map ai_keyFn (a_indexes a)" "\<forall>att \<in> set atts. in_step pf t' att"
    by blast
  let ?b = "a\<lparr>a_table := t', a_indexes := atts\<rparr>"
  have "area_ok tables pf (?b\<lparr>a_recno := 0\<rparr>)"
    using p(2,3) atts(3) t(4) arg_cong [OF atts(2), of length] by (simp add: area_ok_def)
  then obtain a' where a': "GoTop ?b = (a', Inr ())" "area_ok tables pf a'" "a_table a' = t'" "a_indexes a' = atts"
      "a_order a' = a_order a" "\<not> a_atBOF a'" "a_atEOF a' \<longleftrightarrow> row_count t' = 0"
    using GoTop_area [of tables pf ?b] by auto
  have "area_Pack trunc now pf a = (a', Inr m)"
    using w p(1) atts(1) a'(1) by (auto simp: area_Pack_def Let_def bindS_def returnS_def)
  then show ?thesis
    using a' p(4,5) atts(2) by (intro exI [of _ a'] exI [of _ m]) simp
qed

end
