(* ===== verification/AreaSpec.thy ===== *)
theory AreaSpec
  imports AreaRebuild
begin

text \<open>
  The properties of work areas: writing through an area keeps its indexes in step with its table,
  navigation visits every record once in the controlling order, and the write check guards every
  operation that writes.
\<close>

section \<open>A sample area\<close>

text \<open>One table of two fields with the record \<open>X\<close>, one index on the first field.\<close>

definition sample_keyFn :: key_func where
  "sample_keyFn = Some (\<lambda>r. case r_Values r of VStr s # _ \<Rightarrow> s | _ \<Rightarrow> [])"

definition sample_area :: "area \<Rightarrow> bool" where
  "sample_area a \<longleftrightarrow> area_ok sample_tables (\<lambda>_. None) a \<and> sample_table (a_table a) \<and> a_mode a = Exclusive
     \<and> t_recordCount (a_table a) = 1 \<and> table_Get (\<lambda>_. None) 1 (a_table a) = Inr (sample_record 0x58)
     \<and> a_recno a = 1 \<and> a_order a = 1 \<and> \<not> a_atEOF a \<and> \<not> a_atBOF a
     \<and> (\<exists>ix. a_indexes a = [\<lparr>ai_index = ix, ai_keyFn = sample_keyFn, ai_src_close = None\<rparr>] \<and> ix_keySize ix = 10)"

lemma sample_count: "sample_area a \<Longrightarrow> row_count (a_table a) = 1"
  by (simp add: sample_area_def row_count_def)

lemma sample_area_exists: "\<exists>a. sample_area a"
proof -
  obtain t where t: "sample_table t" "t_recordCount t = 1" "table_Get (\<lambda>_. None) 1 t = Inr (sample_record 0x58)"
    using sample_one by blast
  let ?a = "(newArea [0x54] t None)\<lparr>a_recno := 1\<rparr>"
  have "area_ok sample_tables (\<lambda>_. None) ?a"
    using t by (simp add: area_ok_def newArea_def sample_table_def)
  moreover have "\<exists>r key. table_Get (\<lambda>_. None) n t = Inr r \<and> callKey sample_keyFn r = Inr key \<and> length key \<le> unat (10 :: u16)"
    if n: "n \<noteq> 0" "n \<le> t_recordCount t" for n
  proof -
    have "unat n = 1"
      using n t(2) by (metis One_nat_def Suc_leI le_antisym unat_1 unat_gt_0 word_le_nat_alt)
    then have "n = 1"
      by (metis unat_1 word_unat_eq_iff)
    then show ?thesis
      using t(3) by (simp add: callKey_def sample_keyFn_def sample_record_def)
  qed
  moreover have "row_count t \<le> max_entries"
    using t(2) by (simp add: row_count_def max_entries_def)
  ultimately obtain a' where a': "area_ok sample_tables (\<lambda>_. None) a'"
      "a' = attach (ai_index (last (a_indexes a'))) sample_keyFn None ?a" "ix_keySize (ai_index (last (a_indexes a'))) = 10"
    using CreateIndex_area [of sample_tables "\<lambda>_. None" ?a "sample_opts False" "[]" sample_keyFn None]
    by (auto simp: sample_opts_def maxKeyExpr_def newArea_def word_le_nat_alt)
  define ix where "ix = ai_index (last (a_indexes a'))"
  have "sample_area (attach ix sample_keyFn None ?a)"
    using a' t unfolding ix_def [symmetric] by (auto simp: sample_area_def attach_def newArea_def)
  then show ?thesis
    by blast
qed

lemma sample_storable_in: "sample_area a \<Longrightarrow> c \<noteq> 0x20 \<Longrightarrow> storable_in (\<lambda>_. None) a (sample_record c)"
  using sample_writes [of "a_table a" c]
  by (auto simp: storable_in_def sample_area_def sample_table_def applyDecode_def callKey_def sample_keyFn_def
      sample_record_def normalizeKey_def)

lemma sample_writable: "sample_area a \<Longrightarrow> checkWritable a n = Inr ()"
  by (simp add: sample_area_def checkWritable_def)

lemma sample_room: "sample_area a \<Longrightarrow> row_count (a_table a) < max_entries"
  using sample_count by (simp add: max_entries_def)

section \<open>Writing\<close>

text \<open>C10: \<open>Append\<close> through an area stores the record under the next number and enters its key into every
  attached index, so all indexes stay in step with the table; the pointer moves to the new record,
  which reads back as it was given.  The record is one the table gives back unchanged; the key
  functions are applied to the record as the caller passed it.\<close>

theorem Append_in_step:
  assumes "area_ok tables pf a" "checkWritable a 0 = Inr ()" "clock_ok now" "storable_in pf a r"
    and "row_count (a_table a) < max_entries"
  shows "\<exists>a'. area_Append now r a = (a', Inr (t_recordCount (a_table a) + 1)) \<and> area_ok tables pf a'
    \<and> a_recno a' = t_recordCount (a_table a) + 1 \<and> \<not> a_atEOF a' \<and> \<not> a_atBOF a'
    \<and> area_Record pf a' = Inr r \<and> t_recordCount (a_table a') = t_recordCount (a_table a) + 1
    \<and> length (a_indexes a') = length (a_indexes a)"
  by (rule Append_area [OF assms])

theorem Append_in_step_witness:
  "\<exists>a a'. sample_area a \<and> area_Append sample_now (sample_record 0x59) a = (a', Inr 2) \<and> area_ok sample_tables (\<lambda>_. None) a'
    \<and> area_Record (\<lambda>_. None) a' = Inr (sample_record 0x59)"
proof -
  obtain a where a: "sample_area a"
    using sample_area_exists by blast
  then show ?thesis
    using Append_in_step [of sample_tables "\<lambda>_. None" a sample_now "sample_record 0x59"] sample_storable_in [OF a]
      sample_writable [OF a] sample_room [OF a] sample_clock
    by (auto simp: sample_area_def)
qed

text \<open>C11: \<open>Replace\<close> rewrites the current record and moves its entry in every attached index from the old
  key to the new one, so all indexes stay in step; no other record changes.\<close>

theorem Replace_in_step:
  assumes "area_ok tables pf a" "a_recno a \<noteq> 0" "checkWritable a (a_recno a) = Inr ()" "clock_ok now"
    and "table_Get pf (a_recno a) (a_table a) = Inr r0"
    and "storable_in pf a r" "row_count (a_table a) \<le> max_entries"
  shows "\<exists>a'. Replace now pf r a = (a', Inr ()) \<and> area_ok tables pf a' \<and> a_recno a' = a_recno a
    \<and> table_Get pf (a_recno a) (a_table a') = Inr r
    \<and> (\<forall>k. k \<noteq> a_recno a \<longrightarrow> table_Get pf k (a_table a') = table_Get pf k (a_table a))
    \<and> t_recordCount (a_table a') = t_recordCount (a_table a)"
proof -
  have "a_recno a \<in> set (all_records (a_table a))"
    using assms(1,2) by (simp add: area_ok_def set_all_records)
  then have "\<forall>att \<in> set (a_indexes a). keyed pf (a_table a) (ai_keyFn att) (ai_index att) (a_recno a)"
    using assms(1) in_step_keyed by (auto simp: area_ok_def)
  then show ?thesis
    using Replace_area [OF assms(1-5) _ assms(6,7)] by blast
qed

theorem Replace_in_step_witness:
  "\<exists>a a'. sample_area a \<and> Replace sample_now (\<lambda>_. None) (sample_record 0x59) a = (a', Inr ())
    \<and> area_ok sample_tables (\<lambda>_. None) a' \<and> table_Get (\<lambda>_. None) 1 (a_table a') = Inr (sample_record 0x59)"
proof -
  obtain a where a: "sample_area a"
    using sample_area_exists by blast
  then show ?thesis
    using Replace_in_step [of sample_tables "\<lambda>_. None" a sample_now "sample_record 0x58" "sample_record 0x59"]
      sample_storable_in [OF a] sample_writable [OF a] sample_room [OF a] sample_clock
    by (auto simp: sample_area_def)
qed

text \<open>C36: deleting and recalling change the deletion flag of the current record and nothing else, and keep
  the indexes in step when the key functions do not look at the flag.\<close>

theorem Delete_Recall_in_step:
  assumes "area_ok tables pf a" "a_recno a \<noteq> 0" "checkWritable a (a_recno a) = Inr ()" "clock_ok now"
    and "table_Get pf (a_recno a) (a_table a) = Inr r" "blind a"
  shows "\<exists>a'. (if del then area_Delete now else Recall now) a = (a', Inr ()) \<and> area_ok tables pf a' \<and> a_recno a' = a_recno a
    \<and> table_Get pf (a_recno a) (a_table a') = Inr (r\<lparr>r_Deleted := del\<rparr>)
    \<and> (\<forall>k. k \<noteq> a_recno a \<longrightarrow> table_Get pf k (a_table a') = table_Get pf k (a_table a))
    \<and> t_recordCount (a_table a') = t_recordCount (a_table a)"
proof (cases del)
  case True
  then show ?thesis
    using marker_area [OF assms(1-6) disjI2 [OF refl] refl] by (simp add: area_Delete_def table_Delete_def [abs_def])
next
  case False
  then show ?thesis
    using marker_area [OF assms(1-6) disjI1 [OF refl] refl]
    by (simp add: Recall_def table_Undelete_def [abs_def] activeMarker_def deletedMarker_def)
qed

theorem Delete_Recall_in_step_witness:
  "\<exists>a a'. sample_area a \<and> area_Delete sample_now a = (a', Inr ()) \<and> area_ok sample_tables (\<lambda>_. None) a'
    \<and> table_Get (\<lambda>_. None) 1 (a_table a') = Inr ((sample_record 0x58)\<lparr>r_Deleted := True\<rparr>)"
proof -
  obtain a where a: "sample_area a"
    using sample_area_exists by blast
  then have "blind a"
    by (auto simp: blind_def sample_area_def callKey_def sample_keyFn_def)
  then show ?thesis
    using a Delete_Recall_in_step [of sample_tables "\<lambda>_. None" a sample_now "sample_record 0x58" True]
      sample_writable [OF a] sample_clock
    by (auto simp: sample_area_def)
qed

text \<open>C35: \<open>CreateIndex\<close> builds an index with one entry per record and attaches it, so the area stays in step;
  the first index becomes the controlling one.\<close>

theorem CreateIndex_in_step:
  assumes "area_ok tables pf a" "op_KeySize opts \<noteq> 0" "op_KeySize opts \<le> 245"
    and "length (op_KeyExpr opts) < maxKeyExpr" "length rw \<le> 2 * pageSize" "\<not> op_Unique opts"
    and "row_count (a_table a) \<le> max_entries"
    and "\<And>n. n \<noteq> 0 \<Longrightarrow> n \<le> t_recordCount (a_table a) \<Longrightarrow>
      \<exists>r key. table_Get pf n (a_table a) = Inr r \<and> callKey fn r = Inr key \<and> length key \<le> unat (op_KeySize opts)"
  shows "\<exists>a' ix. CreateIndex pf rw src opts fn a = (a', Inr ()) \<and> area_ok tables pf a' \<and> a' = attach ix fn src a
    \<and> ix_keySize ix = op_KeySize opts \<and> (a_indexes a = [] \<longrightarrow> a_order a' = 1)"
proof -
  obtain a' where a': "CreateIndex pf rw src opts fn a = (a', Inr ())" "area_ok tables pf a'"
      "a' = attach (ai_index (last (a_indexes a'))) fn src a" "ix_keySize (ai_index (last (a_indexes a'))) = op_KeySize opts"
    using CreateIndex_area [OF assms, of src] by blast
  have "a_order a' = 1" if "a_indexes a = []"
    using that by (subst a'(3)) (simp add: attach_def Let_def)
  then show ?thesis
    using a' by (intro exI [of _ a'] exI [of _ "ai_index (last (a_indexes a'))"] conjI) (assumption | blast)+
qed

theorem CreateIndex_in_step_witness:
  "\<exists>a a'. sample_area a \<and> CreateIndex (\<lambda>_. None) [] None (sample_opts False) sample_keyFn a = (a', Inr ())
    \<and> area_ok sample_tables (\<lambda>_. None) a'"
proof -
  obtain a where a: "sample_area a"
    using sample_area_exists by blast
  have "\<exists>r key. table_Get (\<lambda>_. None) n (a_table a) = Inr r \<and> callKey sample_keyFn r = Inr key \<and> length key \<le> unat (10 :: u16)"
    if n: "n \<noteq> 0" "n \<le> t_recordCount (a_table a)" for n
  proof -
    have "unat n = 1"
      using n a by (metis One_nat_def Suc_leI le_antisym sample_area_def unat_1 unat_gt_0 word_le_nat_alt)
    then have "n = 1"
      by (metis unat_1 word_unat_eq_iff)
    then show ?thesis
      using a by (simp add: sample_area_def callKey_def sample_keyFn_def sample_record_def)
  qed
  then show ?thesis
    using a CreateIndex_in_step [of sample_tables "\<lambda>_. None" a "sample_opts False" "[]" sample_keyFn None] sample_room [OF a]
    by (auto simp: sample_area_def sample_opts_def maxKeyExpr_def word_le_nat_alt)
qed

section \<open>Packing\<close>

text \<open>C7: packing an area drops the deleted records, renumbers the others in order, and rebuilds every index
  to match, so the area is in step with the packed table; the pointer is at the top of the
  controlling order, at the end of file exactly when no record is left.\<close>

theorem Pack_in_step:
  assumes "area_ok tables pf a" "checkWritable a 0 = Inr ()" "clock_ok now" "row_count (a_table a) \<le> max_entries"
  shows "\<exists>a' m. area_Pack trunc now pf a = (a', Inr m) \<and> area_ok tables pf a'
    \<and> rows (a_table a') = filter alive (rows (a_table a)) \<and> renumbers pf (a_table a) (a_table a') m
    \<and> map ai_keyFn (a_indexes a') = map ai_keyFn (a_indexes a) \<and> a_order a' = a_order a
    \<and> \<not> a_atBOF a' \<and> (a_atEOF a' \<longleftrightarrow> row_count (a_table a') = 0)"
  by (rule Pack_area [OF assms])

theorem Pack_in_step_witness:
  "\<exists>a a' m. sample_area a \<and> area_Pack True sample_now (\<lambda>_. None) a = (a', Inr m)
    \<and> area_ok sample_tables (\<lambda>_. None) a' \<and> rows (a_table a') = filter alive (rows (a_table a))"
proof -
  obtain a where a: "sample_area a"
    using sample_area_exists by blast
  then show ?thesis
    using Pack_in_step [of sample_tables "\<lambda>_. None" a sample_now True] sample_writable [OF a] sample_room [OF a] sample_clock
    by (auto simp: sample_area_def)
qed

section \<open>Navigation\<close>

text \<open>The client's loops over an area.\<close>

definition forwards :: "(bytes \<Rightarrow> u64 option) \<Rightarrow> (area, u32 list) op" where
  "forwards pf a = bindS GoTop (\<lambda>_. scan (Skip pf 1) a_atEOF (row_count (a_table a) + 1)) a"

definition backwards :: "(bytes \<Rightarrow> u64 option) \<Rightarrow> (area, u32 list) op" where
  "backwards pf a = bindS GoBottom (\<lambda>_. scan (Skip pf (- 1)) a_atBOF (row_count (a_table a) + 1)) a"

lemma ordered_length: "ordered pf a xs \<Longrightarrow> length xs = row_count (a_table a)"
  using mset_eq_length [OF ordered_mset] by fastforce

text \<open>C12: from \<open>GoTop\<close>, stepping with \<open>Skip(1)\<close> visits every record exactly once and stops at the end of
  the file: in ascending order of record numbers when no index controls the order, in ascending
  order of the index entries otherwise.\<close>

theorem forwards_visits_all:
  assumes "area_ok tables pf a"
  shows "\<exists>xs a'. forwards pf a = (a', Inr xs) \<and> a_atEOF a' \<and> mset xs = mset (all_records (a_table a))
    \<and> (if a_order a = 0 then xs = all_records (a_table a)
       else sorted (map (\<lambda>n. the (entry_of pf (a_table a) (ai_keyFn (control a)) (ai_index (control a)) n)) xs))"
proof -
  obtain xs where xs: "ordered pf a xs"
    using area_ordered [OF assms] by blast
  have len: "row_count (a_table a) = length xs"
    using ordered_length [OF xs] by simp
  have "\<exists>a'. forwards pf a = (a', Inr xs) \<and> a_atEOF a'"
  proof (cases "xs = []")
    case True
    then show ?thesis
      using ends_ordered(3) [OF assms xs] len by (simp add: forwards_def bindS_def)
  next
    case False
    have "GoTop a = (on_record a (hd xs), Inr ())"
      using ends_ordered(1) [OF assms xs False] by (simp add: on_record_def)
    then show ?thesis
      using scan_down [OF assms xs False] by (simp add: forwards_def bindS_def len del: scan.simps)
  qed
  then obtain a' where "forwards pf a = (a', Inr xs)" "a_atEOF a'"
    by blast
  moreover have "a_order a = 0 \<Longrightarrow> xs = all_records (a_table a)"
    using xs by (simp add: ordered_def)
  ultimately show ?thesis
    using ordered_mset [OF xs] ordered_sorted [OF xs] by (intro exI [of _ xs] exI [of _ a']) presburger
qed

theorem forwards_visits_all_witness:
  "\<exists>a a'. sample_area a \<and> forwards (\<lambda>_. None) a = (a', Inr [1]) \<and> a_atEOF a'"
proof -
  obtain a where a: "sample_area a"
    using sample_area_exists by blast
  have "all_records (a_table a) = [1]"
    using sample_count [OF a] by (simp add: all_records_def recnos_def)
  then show ?thesis
    using a forwards_visits_all [of sample_tables "\<lambda>_. None" a] by (auto simp: sample_area_def)
qed

text \<open>C37: going backwards from \<open>GoBottom\<close> with \<open>Skip(-1)\<close> visits the same records in the reverse order and
  stops before the start.\<close>

theorem backwards_reverses:
  assumes "area_ok tables pf a" "row_count (a_table a) \<noteq> 0"
  shows "\<exists>xs a' b. forwards pf a = (b, Inr xs) \<and> backwards pf a = (a', Inr (rev xs)) \<and> a_atBOF a'"
proof -
  obtain xs where xs: "ordered pf a xs"
    using area_ordered [OF assms(1)] by blast
  have len: "row_count (a_table a) = length xs" and ne: "xs \<noteq> []"
    using ordered_length [OF xs] assms(2) by auto
  have "GoTop a = (on_record a (hd xs), Inr ())" "GoBottom a = (on_record a (last xs), Inr ())"
    using ends_ordered(1,2) [OF assms(1) xs ne] by (simp_all add: on_record_def)
  then show ?thesis
    using scan_down [OF assms(1) xs ne] scan_up [OF assms(1) xs ne]
    by (intro exI [of _ xs]) (simp add: forwards_def backwards_def bindS_def len del: scan.simps)
qed

theorem backwards_reverses_witness:
  "\<exists>a a' b xs. sample_area a \<and> forwards (\<lambda>_. None) a = (b, Inr xs) \<and> backwards (\<lambda>_. None) a = (a', Inr (rev xs))"
proof -
  obtain a where a: "sample_area a"
    using sample_area_exists by blast
  then show ?thesis
    using backwards_reverses [of sample_tables "\<lambda>_. None" a] sample_count [OF a] by (auto simp: sample_area_def)
qed

end
