(* ===== verification/AreaRun.thy ===== *)
theory AreaRun
  imports AreaSpec
begin

text \<open>
  Runs of a work area: any sequence of navigation, locking, writing, packing and index operations,
  whether they succeed or fail, keeps the area in step.  The writing steps take records the table
  gives back unchanged and key functions that ignore the deletion flag.
\<close>

section \<open>The write check\<close>

definition may_write :: "area \<Rightarrow> u32 \<Rightarrow> bool" where
  "may_write a n \<longleftrightarrow> a_mode a = Exclusive
     \<or> (\<exists>h. a_held a = Some h \<and> (hl_recno h = 0 \<or> n \<noteq> 0 \<and> hl_recno h = n))"

lemma checkWritable_iff: "checkWritable a n = Inr () \<longleftrightarrow> may_write a n"
  by (auto simp: checkWritable_def may_write_def split: option.splits)

lemma checkWritable_refuses: "\<not> may_write a n \<Longrightarrow> \<exists>e. checkWritable a n = Inl e"
  using checkWritable_iff [of a n] by (cases "checkWritable a n") auto

lemma refused_file: "\<not> may_write a 0 \<Longrightarrow> \<exists>e. area_Append now r a = (a, Inl e) \<and> area_Pack trunc now pf a = (a, Inl e)"
  by (auto simp: area_Append_def area_Pack_def dest: checkWritable_refuses)

lemma refused_record:
  assumes "a_recno a = 0 \<or> \<not> may_write a (a_recno a)"
  shows "\<exists>e. Replace now pf r a = (a, Inl e) \<and> area_Delete now a = (a, Inl e) \<and> Recall now a = (a, Inl e)"
  using assms checkWritable_refuses [of a "a_recno a"]
  by (auto simp: Replace_def area_Delete_def Recall_def onRecord_def)

section \<open>The steps\<close>

inductive area_step :: "(bytes \<Rightarrow> u64 option) \<Rightarrow> area \<Rightarrow> area \<Rightarrow> bool" for pf where
  append: "storable_in pf a r \<Longrightarrow> row_count (a_table a) < max_entries \<Longrightarrow> clock_ok now
    \<Longrightarrow> area_Append now r a = (a', res) \<Longrightarrow> area_step pf a a'"
| replace: "storable_in pf a r \<Longrightarrow> row_count (a_table a) \<le> max_entries \<Longrightarrow> clock_ok now
    \<Longrightarrow> table_Get pf (a_recno a) (a_table a) = Inr r0
    \<Longrightarrow> Replace now pf r a = (a', res) \<Longrightarrow> area_step pf a a'"
| mark: "blind a \<Longrightarrow> clock_ok now \<Longrightarrow> table_Get pf (a_recno a) (a_table a) = Inr r0
    \<Longrightarrow> (if del then area_Delete now else Recall now) a = (a', res) \<Longrightarrow> area_step pf a a'"
| pack: "row_count (a_table a) \<le> max_entries \<Longrightarrow> clock_ok now
    \<Longrightarrow> area_Pack trunc now pf a = (a', res) \<Longrightarrow> area_step pf a a'"
| top: "GoTop a = (a', res) \<Longrightarrow> area_step pf a a'"
| bottom: "GoBottom a = (a', res) \<Longrightarrow> area_step pf a a'"
| goto: "GoTo n a = (a', res) \<Longrightarrow> area_step pf a a'"
| skip: "Skip pf i a = (a', res) \<Longrightarrow> area_step pf a a'"
| seek: "area_Seek key a = (a', found) \<Longrightarrow> area_step pf a a'"
| order: "SetOrder i a = (a', res) \<Longrightarrow> area_step pf a a'"
| flock: "FLock l (os :: lock_table, a) = ((os', a'), res) \<Longrightarrow> area_step pf a a'"
| rlock: "RLock l (os :: lock_table, a) = ((os', a'), res) \<Longrightarrow> area_step pf a a'"
| unlock: "Unlock l (os :: lock_table, a) = ((os', a'), res) \<Longrightarrow> area_step pf a a'"

lemma area_ok_frame:
  assumes "area_ok tables pf a" "a_table a' = a_table a" "a_indexes a' = a_indexes a"
    and "a_order a' \<le> length (a_indexes a)" "a_recno a' = a_recno a \<or> a_recno a' \<in> set (all_records (a_table a)) \<or> a_recno a' = 0"
  shows "area_ok tables pf a'"
  using assms by (auto simp: area_ok_def set_all_records)

lemma controlling_Some:
  "area_ok tables pf a \<Longrightarrow> controlling a = Inr (Some att) \<Longrightarrow> in_step pf (a_table a) att"
  using nth_mem [of "a_order a - 1" "a_indexes a"]
  by (auto simp: area_ok_def controlling_def split: if_splits)

lemma goEnd_ok:
  assumes ok: "area_ok tables pf a" and g: "goEnd pick n a = (a', res)"
    and "\<And>att e. in_step pf (a_table a) att \<Longrightarrow> pick (ai_index att) = Inr (Some e) \<Longrightarrow> ent_recno e \<in> set (all_records (a_table a))"
    and "t_recordCount (a_table a) \<noteq> 0 \<Longrightarrow> n \<in> set (all_records (a_table a))"
  shows "area_ok tables pf a'"
proof -
  have "a_order a \<le> length (a_indexes a)"
    using ok by (simp add: area_ok_def)
  then show ?thesis
    using g assms(3,4) controlling_Some [OF ok]
    by (intro area_ok_frame [OF ok])
      (auto simp: goEnd_def Let_def setEmpty_def split: sum.splits option.splits if_splits)
qed

lemma skip_ok:
  assumes ok: "area_ok tables pf a"
  shows "skipForward pf a = (a', res) \<Longrightarrow> area_ok tables pf a'"
    and "skipBackward pf a = (a', res) \<Longrightarrow> area_ok tables pf a'"
proof -
  let ?n = "a_recno a" and ?t = "a_table a"
  have ord: "a_order a \<le> length (a_indexes a)"
    using ok by (simp add: area_ok_def)
  have up: "?n + 1 \<in> set (all_records ?t)" if "\<not> t_recordCount ?t \<le> ?n"
  proof -
    have i: "unat ?n < row_count ?t"
      using that by (simp add: row_count_def not_le word_less_nat_alt)
    have "all_records ?t ! unat ?n = ?n + 1"
      using nth_all_records [OF i] by simp
    then show ?thesis
      using i by (metis length_all_records nth_mem)
  qed
  have down: "?n - 1 \<in> set (all_records ?t)" if "\<not> ?n \<le> 1"
  proof -
    have "?n - 1 \<noteq> 0" "?n \<noteq> 0"
      using that by auto
    then show ?thesis
      using ok unat_minus_one [of ?n] by (auto simp: area_ok_def set_all_records word_le_nat_alt)
  qed
  show "skipForward pf a = (a', res) \<Longrightarrow> area_ok tables pf a'"
    using ord up controlling_Some [OF ok]
    by (intro area_ok_frame [OF ok])
      (auto simp: skipForward_def Let_def currentKey_def bindR_def dest: query_recno(2)
        split: sum.splits option.splits if_splits)
  show "skipBackward pf a = (a', res) \<Longrightarrow> area_ok tables pf a'"
    using ord down controlling_Some [OF ok]
    by (intro area_ok_frame [OF ok])
      (auto simp: skipBackward_def Let_def currentKey_def bindR_def dest: query_recno(3)
        split: sum.splits option.splits if_splits)
qed

lemma skipLoop_ok:
  assumes "\<And>a a' res. area_ok tables pf a \<Longrightarrow> step a = (a', res) \<Longrightarrow> area_ok tables pf a'"
  shows "area_ok tables pf a \<Longrightarrow> skipLoop step stop n a = (a', res) \<Longrightarrow> area_ok tables pf a'"
proof (induction n arbitrary: a)
  case (Suc n)
  obtain b r where b: "step a = (b, r)"
    by fastforce
  then have "area_ok tables pf b"
    using assms Suc.prems(1) by blast
  then show ?case
    using Suc b by (cases r) (auto split: if_splits)
qed simp

lemma write_step_ok:
  assumes ok: "area_ok tables pf a" and now: "clock_ok now" and room: "row_count (a_table a) \<le> max_entries"
  shows "storable_in pf a r \<Longrightarrow> row_count (a_table a) < max_entries \<Longrightarrow> area_Append now r a = (a', res1) \<Longrightarrow> area_ok tables pf a'"
    and "storable_in pf a r \<Longrightarrow> table_Get pf (a_recno a) (a_table a) = Inr r0 \<Longrightarrow> Replace now pf r a = (a', res)
      \<Longrightarrow> area_ok tables pf a'"
    and "area_Pack trunc now pf a = (a', res2) \<Longrightarrow> area_ok tables pf a'"
proof -
  show "area_ok tables pf a'" if "storable_in pf a r" "row_count (a_table a) < max_entries" "area_Append now r a = (a', res1)"
  proof (cases "may_write a 0")
    case True
    then show ?thesis
      using Append_area [OF ok _ now that(1,2)] that(3) by (auto simp: checkWritable_iff)
  next
    case False
    then show ?thesis
      using refused_file [of a now r] that(3) ok by auto
  qed
  show "area_ok tables pf a'" if "area_Pack trunc now pf a = (a', res2)"
  proof (cases "may_write a 0")
    case True
    then show ?thesis
      using Pack_area [OF ok _ now room, of trunc] that by (auto simp: checkWritable_iff)
  next
    case False
    then show ?thesis
      using refused_file [of a] that ok by (metis prod.inject)
  qed
  show "area_ok tables pf a'" if r: "storable_in pf a r" "table_Get pf (a_recno a) (a_table a) = Inr r0" "Replace now pf r a = (a', res)"
  proof (cases "a_recno a = 0 \<or> \<not> may_write a (a_recno a)")
    case False
    then have n: "a_recno a \<in> set (all_records (a_table a))"
      using ok by (simp add: area_ok_def set_all_records)
    then have "\<forall>att \<in> set (a_indexes a). keyed pf (a_table a) (ai_keyFn att) (ai_index att) (a_recno a)"
      using ok in_step_keyed by (auto simp: area_ok_def)
    then show ?thesis
      using Replace_area [OF ok _ _ now r(2) _ r(1) room] False r(3) by (auto simp: checkWritable_iff)
  next
    case True
    then show ?thesis
      using refused_record [of a now pf r] r(3) ok by (metis prod.inject)
  qed
qed

lemma mark_step_ok:
  assumes "area_ok tables pf a" "clock_ok now" "table_Get pf (a_recno a) (a_table a) = Inr r0" "blind a"
    and run: "(if del then area_Delete now else Recall now) a = (a', res)"
  shows "area_ok tables pf a'"
proof (cases "a_recno a = 0 \<or> \<not> may_write a (a_recno a)")
  case False
  then have w: "a_recno a \<noteq> 0" "checkWritable a (a_recno a) = Inr ()"
    by (simp_all add: checkWritable_iff)
  define m where "m = (if del then deletedMarker else activeMarker)"
  have op: "(if del then area_Delete now else Recall now) = onRecord (\<lambda>recno. setDeletionMarker now recno m)"
    by (simp add: m_def area_Delete_def Recall_def table_Delete_def [abs_def] table_Undelete_def [abs_def])
  have m: "m = activeMarker \<or> m = deletedMarker"
    by (simp add: m_def)
  obtain b where b: "onRecord (\<lambda>recno. setDeletionMarker now recno m) a = (b, Inr ())" "area_ok tables pf b"
    using marker_area [OF assms(1) w assms(2,3,4) m refl] by blast
  have "b = a'"
    using run [unfolded op b(1)] by simp
  then show ?thesis
    using b(2) by simp
next
  case True
  then obtain e where "area_Delete now a = (a, Inl e)" "Recall now a = (a, Inl e)"
    using refused_record [of a now pf] by blast
  then show ?thesis
    using run assms(1) by (cases del) simp_all
qed

lemma lock_step_ok:
  assumes "area_ok tables pf a"
  shows "FLock l (os, a) = ((os', a'), res) \<Longrightarrow> area_ok tables pf a'"
    and "RLock l (os, a) = ((os', a'), res) \<Longrightarrow> area_ok tables pf a'"
    and "Unlock l (os, a) = ((os', a'), res) \<Longrightarrow> area_ok tables pf a'"
proof -
  have h: "area_ok tables pf (a\<lparr>a_held := h\<rparr>)" for h
    using assms by (simp add: area_ok_def)
  show "FLock l (os, a) = ((os', a'), res) \<Longrightarrow> area_ok tables pf a'"
    using assms h by (auto simp: FLock_def Let_def split: if_splits option.splits prod.splits sum.splits)
  show "RLock l (os, a) = ((os', a'), res) \<Longrightarrow> area_ok tables pf a'"
    using assms h by (auto simp: RLock_def Let_def split: if_splits option.splits prod.splits sum.splits)
  show "Unlock l (os, a) = ((os', a'), res) \<Longrightarrow> area_ok tables pf a'"
    using assms h by (auto simp: Unlock_def Let_def split: if_splits option.splits prod.splits)
qed

lemma Skip_ok:
  assumes "area_ok tables pf a" "Skip pf i a = (a', res)"
  shows "area_ok tables pf a'"
proof (cases "i > 0")
  case True
  show ?thesis
    by (rule skipLoop_ok [where step = "skipForward pf", OF skip_ok(1) assms(1)])
      (use assms(2) True in \<open>auto simp: Skip_def\<close>)
next
  case False
  show ?thesis
    by (rule skipLoop_ok [where step = "skipBackward pf", OF skip_ok(2) assms(1)])
      (use assms(2) False in \<open>auto simp: Skip_def\<close>)
qed

lemma Seek_ok:
  assumes "area_ok tables pf a" "area_Seek key a = (a', found)"
  shows "area_ok tables pf a'"
proof -
  have "a_order a \<le> length (a_indexes a)"
    using assms(1) by (simp add: area_ok_def)
  then show ?thesis
    using assms(2) controlling_Some [OF assms(1)]
    by (intro area_ok_frame [OF assms(1)])
      (auto simp: area_Seek_def dest: query_recno(1) split: sum.splits option.splits)
qed

lemma area_step_ok: "area_step pf a a' \<Longrightarrow> area_ok tables pf a \<Longrightarrow> area_ok tables pf a'"
proof (induction rule: area_step.induct)
  case (append a r now a' res)
  then show ?case
    using write_step_ok(1) [of tables pf a now r] by simp
next
  case (replace a r now r0 a' res)
  then show ?case
    using write_step_ok(2) [of tables pf a now r r0] by simp
next
  case (mark a now r0 del a' res)
  then show ?case
    using mark_step_ok by blast
next
  case (pack a now trunc a' res)
  then show ?case
    using write_step_ok(3) by blast
next
  case (top a a' res)
  have "1 \<in> set (all_records (a_table a))" if "t_recordCount (a_table a) \<noteq> 0"
    using that unat_gt_0 by (auto simp: set_all_records word_le_nat_alt Suc_le_eq)
  then show ?case
    using goEnd_ok [OF top(2) top(1) [unfolded GoTop_def]] query_recno(4) by blast
next
  case (bottom a a' res)
  then show ?case
    using goEnd_ok [OF bottom(2) bottom(1) [unfolded GoBottom_def]] query_recno(5) by (auto simp: set_all_records)
next
  case (goto n a a' res)
  then show ?case
    by (auto simp: GoTo_def area_ok_def not_less split: if_splits)
next
  case (skip i a a' res)
  then show ?case
    using Skip_ok by blast
next
  case (seek key a a' found)
  then show ?case
    using Seek_ok by blast
next
  case (order i a a' res)
  then show ?case
    by (auto simp: SetOrder_def area_ok_def split: if_splits)
next
  case (flock l os a os' a' res)
  show ?case
    by (rule lock_step_ok(1) [OF flock(2,1)])
next
  case (rlock l os a os' a' res)
  show ?case
    by (rule lock_step_ok(2) [OF rlock(2,1)])
next
  case (unlock l os a os' a' res)
  show ?case
    by (rule lock_step_ok(3) [OF unlock(2,1)])
qed

section \<open>The properties\<close>





text \<open>C39: a shared area changes nothing without the lock the operation needs: appending and packing need the
  file lock, rewriting, deleting and recalling a record need the file lock or the lock of that very
  record.  The operation returns an error and the area is exactly as before.\<close>

theorem unlocked_writes_refused:
  assumes "\<not> may_write a n"
  shows "(n = 0 \<longrightarrow> (\<exists>e. area_Append now r a = (a, Inl e) \<and> area_Pack trunc now pf a = (a, Inl e)))
    \<and> (n = a_recno a \<longrightarrow> (\<exists>e. Replace now pf r a = (a, Inl e) \<and> area_Delete now a = (a, Inl e) \<and> Recall now a = (a, Inl e)))"
proof (intro conjI impI)
  assume "n = 0"
  then show "\<exists>e. area_Append now r a = (a, Inl e) \<and> area_Pack trunc now pf a = (a, Inl e)"
    using assms by (intro refused_file) simp
next
  assume "n = a_recno a"
  then show "\<exists>e. Replace now pf r a = (a, Inl e) \<and> area_Delete now a = (a, Inl e) \<and> Recall now a = (a, Inl e)"
    using assms by (intro refused_record) simp
qed

theorem unlocked_writes_refused_witness:
  "\<exists>a e. a_mode a = Shared \<and> area_Append sample_now (sample_record 0x59) a = (a, Inl e)
    \<and> area_Pack True sample_now (\<lambda>_. None) a = (a, Inl e)"
proof -
  obtain a where "sample_area a"
    using sample_area_exists by blast
  let ?a = "a\<lparr>a_mode := Shared, a_held := None\<rparr>"
  have "\<not> may_write ?a 0"
    by (simp add: may_write_def)
  then obtain e where "area_Append sample_now (sample_record 0x59) ?a = (?a, Inl e)"
      "area_Pack True sample_now (\<lambda>_. None) ?a = (?a, Inl e)"
    using unlocked_writes_refused by blast
  then show ?thesis
    by (intro exI [of _ ?a] exI [of _ e]) simp
qed

end
