(* ===== verification/RegistrySpec.thy ===== *)
theory RegistrySpec
  imports AreaRun
begin

text \<open>
  The session registry: whatever sequence of \<open>Use\<close>, \<open>UseMode\<close>, \<open>Create\<close>, \<open>Select\<close>, \<open>CloseArea\<close>,
  \<open>CloseAll\<close> and work on the areas a client runs, the aliases, the order of opening and the
  selected area stay consistent.
\<close>

section \<open>Aliases\<close>

lemma lower_letter:
  assumes "0x61 \<le> c" "c \<le> (0x7A :: byte)"
  shows "unat (c - 0x20) = unat c - 0x20" "0x61 \<le> unat c" "unat c \<le> 0x7A"
proof -
  have "0x20 \<le> c"
    using assms by (simp add: word_le_nat_alt)
  then show "unat (c - 0x20) = unat c - 0x20"
    by (simp add: unat_sub)
  show "0x61 \<le> unat c" "unat c \<le> 0x7A"
    using assms by (simp_all add: word_le_nat_alt)
qed

lemma upper_idem: "upper (upper c) = upper c"
  using lower_letter [of c] by (auto simp: upper_def word_le_nat_alt)

lemma is_space_upper: "is_space (upper c) = is_space c"
proof (cases "0x61 \<le> c \<and> c \<le> 0x7A")
  case True
  have "unat d \<le> 0x20" if "is_space d" for d
    using that by (auto simp: is_space_def)
  then have "\<not> is_space (c - 0x20)" "\<not> is_space c"
    using True lower_letter [of c] by fastforce+
  then show ?thesis
    using True by (simp add: upper_def)
qed (auto simp: upper_def)

lemma TrimSpace_upper: "TrimSpace (ToUpper s) = ToUpper (TrimSpace s)"
  by (simp add: TrimSpace_def ToUpper_def rev_map dropWhile_map comp_def is_space_upper)

lemma dropWhile_rev_idem:
  "dropWhile P (rev (dropWhile P (rev (dropWhile P s)))) = rev (dropWhile P (rev (dropWhile P s)))"
proof (cases "dropWhile P s")
  case (Cons x xs)
  then have "\<not> P x"
    by (simp add: dropWhile_eq_Cons_conv)
  then have "dropWhile P (rev (x # xs)) = dropWhile P (rev xs) @ [x]"
    using dropWhile_append2 [of "rev xs" P "[x]"] by (cases "\<exists>y \<in> set xs. \<not> P y") (auto simp: dropWhile_append dropWhile_eq_Nil_conv)
  then show ?thesis
    using Cons \<open>\<not> P x\<close> by simp
next
  case Nil
  then show ?thesis
    by (simp only: rev.simps dropWhile.simps)
qed

lemma TrimSpace_idem: "TrimSpace (TrimSpace s) = TrimSpace s"
  unfolding TrimSpace_def dropWhile_rev_idem by simp

lemma ToUpper_upper: "ToUpper (ToUpper s) = ToUpper s"
  by (simp add: ToUpper_def upper_idem)

lemma normalizeAlias_idem: "normalizeAlias alias = Inr name \<Longrightarrow> normalizeAlias name = Inr name \<and> name \<noteq> []"
  by (auto simp: normalizeAlias_def Let_def TrimSpace_upper TrimSpace_idem ToUpper_upper split: if_splits)

section \<open>The operations\<close>

lemma registry_ok_named:
  "registry_ok db \<Longrightarrow> db_areas db name = Some a \<Longrightarrow> normalizeAlias name = Inr name \<and> name \<noteq> [] \<and> a_alias a = name"
  by (simp add: registry_ok_def)

lemma CloseArea_registry:
  assumes "registry_ok db" "db_areas db name = Some a"
  shows "CloseArea name db =
    (db\<lparr>db_areas := (db_areas db)(name := None), db_order := remove1 name (db_order db),
        db_current := (if db_current db = name then [] else db_current db)\<rparr>, snd (area_close a))"
  using registry_ok_named [OF assms] assms(2) by (simp add: CloseArea_def)

lemma registry_ok_close:
  assumes "registry_ok db"
  shows "registry_ok (db\<lparr>db_areas := (db_areas db)(name := None), db_order := remove1 name (db_order db),
        db_current := (if db_current db = name then [] else db_current db)\<rparr>)"
  using assms by (auto simp: registry_ok_def set_remove1_eq)

lemma CloseArea_ok:
  assumes "registry_ok db" "CloseArea alias db = (db', res)"
  shows "registry_ok db'"
  using assms registry_ok_close by (auto simp: CloseArea_def split: sum.splits option.splits)

lemma registry_ok_open:
  assumes "registry_ok db" "db_areas db name = None" "normalizeAlias name = Inr name" "a_alias a = name" "name \<noteq> []"
  shows "registry_ok (db\<lparr>db_areas := (db_areas db)(name \<mapsto> a), db_order := db_order db @ [name], db_current := name\<rparr>)"
  using assms by (auto simp: registry_ok_def)

lemma registry_ok_update:
  assumes "registry_ok db" "db_areas db name = Some a" "a_alias a' = a_alias a"
  shows "registry_ok (db\<lparr>db_areas := (db_areas db)(name \<mapsto> a')\<rparr>)"
  using assms by (auto simp: registry_ok_def)

lemma GoTop_newArea: "\<exists>a. GoTop (newArea name t src) = (a, Inr ()) \<and> a_alias a = name"
  by (simp add: GoTop_def goEnd_def newArea_def controlling_def setEmpty_def Let_def)

lemma install_ok:
  assumes ok: "registry_ok db" and n: "normalizeAlias name = Inr name" "name \<noteq> []" and i: "install name t src db = (db', res)"
  shows "registry_ok db' \<and> (\<forall>a. res = Inr a \<longrightarrow> db_areas db' name = Some a \<and> a_alias a = name \<and> db_current db' = name)"
proof -
  obtain a where a: "GoTop (newArea name t src) = (a, Inr ())" "a_alias a = name"
    using GoTop_newArea by blast
  show ?thesis
  proof (cases "db_areas db name")
    case None
    then show ?thesis
      using i a registry_ok_open [OF ok None n(1) a(2) n(2)] by (auto simp: install_def)
  next
    case (Some old)
    let ?db = "db\<lparr>db_areas := (db_areas db)(name := None), db_order := remove1 name (db_order db),
        db_current := (if db_current db = name then [] else db_current db)\<rparr>"
    have "registry_ok ?db" "db_areas ?db name = None"
      using registry_ok_close [OF ok] by simp_all
    then show ?thesis
      using i a registry_ok_open [of ?db name a] n CloseArea_registry [OF ok Some] Some
      by (auto simp: install_def split: sum.splits)
  qed
qed

lemma Use_ok:
  assumes "registry_ok db" "Use tables alias rw src db = (db', res)"
  shows "registry_ok db' \<and> (\<forall>a. res = Inr a \<longrightarrow> db_areas db' (a_alias a) = Some a)"
  using assms install_ok [OF assms(1)] normalizeAlias_idem
  by (fastforce simp: Use_def split: sum.splits)

lemma db_Create_ok:
  assumes "registry_ok db" "db_Create tables now alias rw src sch db = (db', res)"
  shows "registry_ok db'"
  using assms install_ok [OF assms(1)] normalizeAlias_idem
  by (fastforce simp: db_Create_def split: sum.splits)

lemma UseMode_ok:
  assumes "registry_ok db" "UseMode tables alias rw src mode db = (db', res)"
  shows "registry_ok db'"
proof -
  obtain db1 res1 where u: "Use tables alias rw src db = (db1, res1)"
    by fastforce
  then show ?thesis
    using assms(2) Use_ok [OF assms(1) u] registry_ok_update [of db1]
    by (auto simp: UseMode_def Let_def split: sum.splits)
qed

lemma Select_ok:
  assumes "registry_ok db" "Select alias db = (db', res)"
  shows "registry_ok db'"
proof -
  have "registry_ok (db\<lparr>db_current := name\<rparr>)" if "db_areas db name = Some a" for name a
    using assms(1) that unfolding registry_ok_def by auto
  then show ?thesis
    using assms by (auto simp: Select_def split: sum.splits option.splits)
qed

text \<open>Closing everything: the registry ends empty whatever the streams return; the result is the first error.\<close>

fun closing :: "(bytes \<rightharpoonup> area) \<Rightarrow> bytes list \<Rightarrow> error option" where
  "closing areas [] = None"
| "closing areas (name # names) =
     (case areas name of
        None \<Rightarrow> closing areas names
      | Some a \<Rightarrow> (case snd (area_close a) of Inl e \<Rightarrow> Some e | Inr _ \<Rightarrow> closing areas names))"

lemma closing_cong: "(\<And>n. n \<in> set names \<Longrightarrow> areas n = areas' n) \<Longrightarrow> closing areas names = closing areas' names"
  by (induction names) (auto split: option.splits sum.splits)

lemma closeEach_all:
  assumes "registry_ok db" "db_order db = names"
  shows "closeEach names first db = (db\<lparr>db_areas := Map.empty, db_order := [], db_current := []\<rparr>,
    case (if first = None then closing (db_areas db) names else first) of None \<Rightarrow> Inr () | Some e \<Rightarrow> Inl e)"
  using assms
proof (induction names arbitrary: first db)
  case Nil
  then have "db_areas db = Map.empty" "db_current db = []"
    by (auto simp: registry_ok_def)
  then show ?case
    using Nil by simp
next
  case (Cons name names)
  have "name \<in> dom (db_areas db)"
    using Cons.prems unfolding registry_ok_def by (metis list.set_intros(1))
  then obtain a where a: "db_areas db name = Some a"
    by blast
  let ?db = "db\<lparr>db_areas := (db_areas db)(name := None), db_order := remove1 name (db_order db),
        db_current := (if db_current db = name then [] else db_current db)\<rparr>"
  have n: "name \<notin> set names"
    using Cons.prems by (auto simp: registry_ok_def)
  have c: "closing (db_areas ?db) names = closing (db_areas db) names"
    using n by (intro closing_cong) auto
  have "registry_ok ?db" "db_order ?db = names"
    by (rule registry_ok_close [OF Cons.prems(1)]) (simp add: Cons.prems(2))
  then have IH: "closeEach names f ?db = (db\<lparr>db_areas := Map.empty, db_order := [], db_current := []\<rparr>,
    case (if f = None then closing (db_areas db) names else f) of None \<Rightarrow> Inr () | Some e \<Rightarrow> Inl e)" for f
    using Cons.IH [of ?db f] c by simp
  show ?case
    using CloseArea_registry [OF Cons.prems(1) a] IH a by (auto split: sum.splits)
qed

lemma CloseAll_empty:
  assumes "registry_ok db"
  shows "CloseAll db = (db_New, case closing (db_areas db) (db_order db) of None \<Rightarrow> Inr () | Some e \<Rightarrow> Inl e)"
  using closeEach_all [OF assms refl, of None] by (simp add: CloseAll_def db_New_def)

section \<open>Work on an area keeps its alias\<close>

lemma goEnd_alias: "goEnd pick n a = (a', res) \<Longrightarrow> a_alias a' = a_alias a"
  by (auto simp: goEnd_def Let_def setEmpty_def split: sum.splits option.splits if_splits)

lemma skip_alias:
  "skipForward pf a = (a', res) \<Longrightarrow> a_alias a' = a_alias a"
  "skipBackward pf a = (a', res) \<Longrightarrow> a_alias a' = a_alias a"
  by (auto simp: skipForward_def skipBackward_def Let_def split: sum.splits option.splits if_splits)

lemma skipLoop_alias:
  "(\<And>a a' res. step a = (a', res) \<Longrightarrow> a_alias a' = a_alias a) \<Longrightarrow> skipLoop step stop n a = (a', res)
    \<Longrightarrow> a_alias a' = a_alias a"
proof (induction n arbitrary: a)
  case (Suc n)
  obtain b r where b: "step a = (b, r)"
    by fastforce
  then have "a_alias b = a_alias a"
    using Suc.prems(1) by blast
  then show ?case
    using Suc b by (cases r) (auto split: if_splits)
qed simp

lemma onRecord_alias: "onRecord f a = (a', res) \<Longrightarrow> a_alias a' = a_alias a"
  by (auto simp: onRecord_def split: sum.splits prod.splits if_splits)

lemma area_step_alias: "area_step pf a a' \<Longrightarrow> a_alias a' = a_alias a"
proof (induction rule: area_step.induct)
  case (append a r now a' res)
  then show ?case
    by (auto simp: area_Append_def Let_def split: sum.splits prod.splits)
next
  case (replace a r now r0 a' res)
  then show ?case
    by (auto simp: Replace_def split: sum.splits prod.splits if_splits)
next
  case (mark a now r0 del a' res)
  then show ?case
    by (auto simp: area_Delete_def Recall_def dest: onRecord_alias split: if_splits)
next
  case (pack a now trunc a' res)
  have top: "bindS GoTop (\<lambda>_. returnS m) b = (a', res) \<Longrightarrow> a_alias a' = a_alias b" for m b
    by (auto simp: bindS_def GoTop_def returnS_def dest: goEnd_alias split: sum.splits prod.splits)
  show ?case
    using pack(3) by (auto simp: area_Pack_def Let_def dest!: top split: sum.splits prod.splits if_splits)
next
  case (skip i a a' res)
  show ?case
  proof (cases "i > 0")
    case True
    show ?thesis
      by (rule skipLoop_alias [OF skip_alias(1)]) (use skip True in \<open>auto simp: Skip_def\<close>)
  next
    case False
    show ?thesis
      by (rule skipLoop_alias [OF skip_alias(2)]) (use skip False in \<open>auto simp: Skip_def\<close>)
  qed
next
  case (seek key a a' found)
  then show ?case
    by (auto simp: area_Seek_def split: sum.splits option.splits)
next
  case (flock l os a os' a' res)
  then show ?case
    by (auto simp: FLock_def Let_def split: if_splits option.splits prod.splits sum.splits)
next
  case (rlock l os a os' a' res)
  then show ?case
    by (auto simp: RLock_def Let_def split: if_splits option.splits prod.splits sum.splits)
next
  case (unlock l os a os' a' res)
  then show ?case
    by (auto simp: Unlock_def Let_def split: if_splits option.splits prod.splits)
next
  case (top a a' res)
  then show ?case
    unfolding GoTop_def by (rule goEnd_alias)
next
  case (bottom a a' res)
  then show ?case
    unfolding GoBottom_def by (rule goEnd_alias)
qed (auto simp: GoTo_def SetOrder_def split: if_splits)

section \<open>Sessions\<close>

inductive session :: "(byte \<Rightarrow> charmap) \<Rightarrow> (bytes \<Rightarrow> u64 option) \<Rightarrow> blipperdb \<Rightarrow> bool" for tables pf where
  start: "session tables pf db_New"
| use: "session tables pf db \<Longrightarrow> Use tables alias rw src db = (db', opened) \<Longrightarrow> session tables pf db'"
| use_mode: "session tables pf db \<Longrightarrow> UseMode tables alias rw src mode db = (db', opened) \<Longrightarrow> session tables pf db'"
| create: "session tables pf db \<Longrightarrow> db_Create tables now alias rw src sch db = (db', opened) \<Longrightarrow> session tables pf db'"
| select: "session tables pf db \<Longrightarrow> Select alias db = (db', chosen) \<Longrightarrow> session tables pf db'"
| close_area: "session tables pf db \<Longrightarrow> CloseArea alias db = (db', res) \<Longrightarrow> session tables pf db'"
| close_all: "session tables pf db \<Longrightarrow> CloseAll db = (db', res) \<Longrightarrow> session tables pf db'"
| work: "session tables pf db \<Longrightarrow> db_areas db name = Some a \<Longrightarrow> area_step pf a a'
    \<Longrightarrow> session tables pf (db\<lparr>db_areas := (db_areas db)(name \<mapsto> a')\<rparr>)"

lemma registry_ok_New: "registry_ok db_New"
  by (simp add: registry_ok_def db_New_def)

lemma session_registry: "session tables pf db \<Longrightarrow> registry_ok db"
proof (induction rule: session.induct)
  case (use db nm rw src db' opened)
  then show ?case
    using Use_ok by blast
next
  case (use_mode db nm rw src mode db' opened)
  then show ?case
    using UseMode_ok by blast
next
  case (create db now nm rw src sch db' opened)
  then show ?case
    using db_Create_ok by blast
next
  case (select db nm db' chosen)
  then show ?case
    using Select_ok by blast
next
  case (close_area db nm db' res)
  then show ?case
    using CloseArea_ok by blast
next
  case (close_all db db' res)
  then show ?case
    using CloseAll_empty registry_ok_New by simp
next
  case (work db name a a')
  then show ?case
    using registry_ok_update area_step_alias by blast
qed (rule registry_ok_New)

section \<open>The properties\<close>

text \<open>C40: in every reachable session each open area is filed under its own upper-case, trimmed alias, the
  order of opening lists every open area exactly once, and the selected area is open or there is none.\<close>

theorem session_consistent:
  assumes "session tables pf db"
  shows "distinct (db_order db) \<and> set (db_order db) = dom (db_areas db)
    \<and> (\<forall>name a. db_areas db name = Some a \<longrightarrow> a_alias a = name \<and> normalizeAlias name = Inr name)
    \<and> (db_current db = [] \<and> Current db = None \<or> (\<exists>a. Current db = Some a \<and> a_alias a = db_current db))"
proof -
  have ok: "registry_ok db"
    by (rule session_registry [OF assms])
  then have "Current db = Some a \<Longrightarrow> a_alias a = db_current db" for a
    by (auto simp: Current_def registry_ok_def split: if_splits)
  moreover have "db_current db \<noteq> [] \<Longrightarrow> \<exists>a. Current db = Some a"
    using ok by (auto simp: Current_def registry_ok_def)
  ultimately have "db_current db = [] \<and> Current db = None \<or> (\<exists>a. Current db = Some a \<and> a_alias a = db_current db)"
    by (cases "db_current db = []") (auto simp: Current_def)
  then show ?thesis
    using ok by (simp add: registry_ok_def)
qed

theorem session_consistent_witness:
  "\<exists>db a. session sample_tables (\<lambda>_. None) db \<and> db_order db = [[0x54]] \<and> Current db = Some a \<and> a_alias a = [0x54]"
proof -
  obtain db opened where db: "db_Create sample_tables sample_now [0x20, 0x74] [] None sample_schema db_New = (db, opened)"
    by fastforce
  have n: "normalizeAlias [0x20, 0x74] = Inr [0x54]"
    by (simp add: normalizeAlias_def TrimSpace_def ToUpper_def is_space_def upper_def)
  obtain t where "table_Create sample_tables sample_now [] sample_schema = Inr t"
    using createAs_ok [OF sample_valid(1), of dbfVersion sample_now sample_tables "[]"]
      createAs_ok [OF sample_valid(1), of dbfVersionMemo sample_now sample_tables "[]"] sample_valid sample_clock
    by (cases "HasMemo sample_schema") (auto simp: table_Create_def isDBaseLineage_def known_versions_def dbf_versions)
  then have order: "db_order db = [[0x54]]" "db_current db = [0x54]"
    using db n by (auto simp: db_Create_def install_def GoTop_def goEnd_def newArea_def controlling_def setEmpty_def Let_def
        db_New_def split: if_splits)
  have s: "session sample_tables (\<lambda>_. None) db"
    by (rule session.create [OF session.start db])
  show ?thesis
    using session_consistent [OF s] s order by auto
qed

text \<open>\<open>CloseAll\<close> leaves the registry as new whatever closing the streams returns, and its result is the
  first error in the order the areas were opened.\<close>

theorem CloseAll_closes_all:
  assumes "session tables pf db"
  shows "CloseAll db = (db_New, case closing (db_areas db) (db_order db) of None \<Rightarrow> Inr () | Some e \<Rightarrow> Inl e)"
  by (rule CloseAll_empty [OF session_registry [OF assms]])

theorem CloseAll_closes_all_witness:
  "session sample_tables (\<lambda>_. None) db_New \<and> CloseAll db_New = (db_New, Inr ())"
  using CloseAll_closes_all [OF session.start] session.start by (simp add: db_New_def)

end
