(* ===== verification/DbfMemo.thy ===== *)
theory DbfMemo
  imports DbfSpec
begin

text \<open>
  Memo files of dBASE III+ (\<open>dbf/memo.go\<close>): 512-byte blocks, the next free block in the header, the
  text of a memo ended by two bytes 0x1A, and the memo pointers of the records.  The last section
  states what the memo formats have in common as the locale \<open>memo_store\<close>; a client that copies or
  appends memos is verified against it.
\<close>

section \<open>The memo file\<close>

definition MemoBlockSize :: nat where "MemoBlockSize = 512"

definition memoFieldWidth :: nat where "memoFieldWidth = 10"

record memo_file =
  m_rw :: bytes
  m_nextFree :: u32

definition OpenMemo :: "bytes \<Rightarrow> error + memo_file" where
  "OpenMemo rw =
     (case readAt rw 0 4 of
        Inl e \<Rightarrow> Inl (Wrap ''reading memo header'' e)
      | Inr head \<Rightarrow>
          let nxt = get_u32 head in
          if nxt = 0 then Inl (Wrap ''memo header claims block 0 is free'' ErrInvalidRecord)
          else Inr \<lparr>m_rw = rw, m_nextFree = nxt\<rparr>)"

definition CreateMemo :: "bytes \<Rightarrow> error + memo_file" where
  "CreateMemo rw =
     (let block = put_at (replicate MemoBlockSize 0) 0 (put_u32 1)
      in Inr \<lparr>m_rw = writeAt rw 0 block, m_nextFree = 1\<rparr>)"

fun findMemoTerminator :: "bytes \<Rightarrow> nat option" where
  "findMemoTerminator (a # b # bs) =
     (if a = 0x1A \<and> b = 0x1A then Some 0 else map_option Suc (findMemoTerminator (b # bs)))"
| "findMemoTerminator _ = None"

definition trimMemoTerminator :: "bytes \<Rightarrow> bytes" where
  "trimMemoTerminator t =
     (case findMemoTerminator t of
        Some e \<Rightarrow> take e t
      | None \<Rightarrow> if t \<noteq> [] \<and> last t = 0x1A then butlast t else t)"

text \<open>The loop of \<open>Get\<close>: \<open>rest\<close> is what the stream still holds.\<close>

function memoLoop :: "bytes \<Rightarrow> bytes \<Rightarrow> error + bytes" where
  "memoLoop t rest =
     (if length rest < MemoBlockSize then
        (if rest = [] \<and> t = [] then Inl (Wrap ''memo block is past end of file'' ErrEOF)
         else Inr (trimMemoTerminator (t @ rest)))
      else
        let t = t @ take MemoBlockSize rest in
        case findMemoTerminator t of
          Some e \<Rightarrow> Inr (take e t)
        | None \<Rightarrow> memoLoop t (drop MemoBlockSize rest))"
  by pat_completeness auto
termination
  by (relation "measure (\<lambda>(t, rest). length rest)") (auto simp: MemoBlockSize_def)

declare memoLoop.simps [simp del]

definition memo_Get :: "memo_file \<Rightarrow> u32 \<Rightarrow> error + bytes" where
  "memo_Get m block =
     (if block = 0 then Inl (Wrap ''block 0 is the memo header'' ErrInvalidRecord)
      else memoLoop [] (drop (unat block * MemoBlockSize) (m_rw m)))"

definition memo_writeHeader :: "memo_file \<Rightarrow> memo_file" where
  "memo_writeHeader m = m\<lparr>m_rw := writeAt (m_rw m) 0 (put_u32 (m_nextFree m))\<rparr>"

definition memo_Append :: "bytes \<Rightarrow> (memo_file, u32) op" where
  "memo_Append t m =
     (let block = m_nextFree m;
          offset = unat block * MemoBlockSize;
          size = length t + 2;
          blocks = (size + MemoBlockSize - 1) div MemoBlockSize;
          buf = t @ [0x1A, 0x1A] @ replicate (blocks * MemoBlockSize - size) 0;
          m = m\<lparr>m_rw := writeAt (m_rw m) offset buf\<rparr>;
          m = m\<lparr>m_nextFree := block + word_of_nat blocks\<rparr>
      in (memo_writeHeader m, Inr block))"

section \<open>Memo pointers\<close>

text \<open>\<open>strconv.ParseUint(text, 10, 32)\<close>.\<close>

definition ParseUint32 :: "bytes \<Rightarrow> u32 option" where
  "ParseUint32 t =
     (if t = [] \<or> \<not> list_all is_digit t \<or> dec_value t \<ge> 2 ^ 32 then None else Some (word_of_nat (dec_value t)))"

definition ParseMemoPointer :: "bytes \<Rightarrow> error + u32 \<times> bool" where
  "ParseMemoPointer raw =
     (let t = trimSpaces raw in
      if t = [] then Inr (0, False)
      else case ParseUint32 t of
        None \<Rightarrow> Inl (Wrap ''memo pointer'' ErrInvalidRecord)
      | Some block \<Rightarrow> if block = 0 then Inr (0, False) else Inr (block, True))"

definition FormatMemoPointer :: "u32 \<Rightarrow> bytes" where
  "FormatMemoPointer block =
     (let blank = replicate memoFieldWidth 0x20; t = dec_digits (unat block) in
      if block = 0 then blank
      else if length t > memoFieldWidth then blank
      else replicate (memoFieldWidth - length t) 0x20 @ t)"

section \<open>What the memo formats share\<close>

text \<open>
  \<open>stored m b c\<close>: the memo \<open>c\<close> lies in block \<open>b\<close> of \<open>m\<close>, below the next free block \<open>used m\<close>.  What is
  stored can be read back, and appending a memo that is storable and fits stores it at the next
  free block and keeps every memo that was stored before.
\<close>

locale memo_store =
  fixes ok :: "'m \<Rightarrow> bool" and stored :: "'m \<Rightarrow> u32 \<Rightarrow> 'c \<Rightarrow> bool" and used :: "'m \<Rightarrow> nat"
    and need :: "'m \<Rightarrow> 'c \<Rightarrow> nat" and storable :: "'c \<Rightarrow> bool"
    and mget :: "'m \<Rightarrow> u32 \<Rightarrow> error + 'c" and mappend :: "'c \<Rightarrow> ('m, u32) op"
  assumes get_stored: "ok m \<Longrightarrow> stored m b c \<Longrightarrow> mget m b = Inr c"
    and stored_block: "stored m b c \<Longrightarrow> b \<noteq> 0 \<and> unat b < used m \<and> storable c"
    and append_stored: "ok m \<Longrightarrow> storable c \<Longrightarrow> used m + need m c < 2 ^ 32 \<Longrightarrow>
      \<exists>m'. mappend c m = (m', Inr (word_of_nat (used m))) \<and> ok m' \<and> stored m' (word_of_nat (used m)) c
        \<and> used m' = used m + need m c \<and> need m' = need m \<and> (\<forall>b' c'. stored m b' c' \<longrightarrow> stored m' b' c')"

section \<open>Entries in blocks\<close>

text \<open>The bytes \<open>e\<close> occupy whole blocks of size \<open>bs\<close> from block \<open>b\<close> on, below block \<open>lim\<close>.\<close>

definition blocks_for :: "nat \<Rightarrow> nat \<Rightarrow> nat" where
  "blocks_for bs n = (n + bs - 1) div bs"

definition block_entry :: "bytes \<Rightarrow> nat \<Rightarrow> nat \<Rightarrow> nat \<Rightarrow> bytes \<Rightarrow> bool" where
  "block_entry rw bs lim b e \<longleftrightarrow> 0 < b \<and> e \<noteq> [] \<and> b + blocks_for bs (length e) \<le> lim
     \<and> (b + blocks_for bs (length e)) * bs \<le> length rw \<and> seg (b * bs) (length e) rw = e"

lemma blocks_for_bound: "0 < bs \<Longrightarrow> n \<le> blocks_for bs n * bs"
proof -
  assume bs: "0 < bs"
  have "n + bs - 1 = (n + bs - 1) div bs * bs + (n + bs - 1) mod bs"
    by simp
  moreover have "(n + bs - 1) mod bs < bs"
    using bs by simp
  ultimately show ?thesis
    using bs unfolding blocks_for_def by linarith
qed

lemma blocks_for_pos: "0 < bs \<Longrightarrow> 0 < n \<Longrightarrow> 0 < blocks_for bs n"
  using blocks_for_bound [of bs n] by (cases "blocks_for bs n") auto

lemma entry_below: "0 < bs \<Longrightarrow> block_entry rw bs lim (unat (b :: u32)) e \<Longrightarrow> b \<noteq> 0 \<and> unat b < lim"
  using blocks_for_pos [of bs "length e"] unat_gt_0 [of b] by (auto simp: block_entry_def)

lemma entry_seg:
  assumes "block_entry rw bs lim b e" "0 < bs" "i + n \<le> length e"
  shows "b * bs + i + n \<le> length rw" "seg (b * bs + i) n rw = seg i n e"
proof -
  have "b * bs + length e \<le> length rw"
    using assms(1) blocks_for_bound [OF assms(2), of "length e"] by (auto simp: block_entry_def add_mult_distrib)
  then show "b * bs + i + n \<le> length rw"
    using assms(3) by simp
  have "seg i n (seg (b * bs) (length e) rw) = seg (b * bs + i) n rw"
    using assms(3) by (rule seg_seg)
  then show "seg (b * bs + i) n rw = seg i n e"
    using assms(1) by (simp add: block_entry_def)
qed

lemma entry_read:
  assumes "block_entry rw bs lim b e" "0 < bs" "i + n \<le> length e"
  shows "readAt rw (b * bs + i) n = Inr (seg i n e)"
  using entry_seg [OF assms] by (simp add: readAt_def)

text \<open>Appending an entry at the limit, and then rewriting the front of block 0.\<close>

lemma block_append:
  assumes bs: "0 < bs" "length h \<le> bs" and lim: "0 < lim" and e: "e \<noteq> []"
    and buf: "length buf = blocks_for bs (length e) * bs" "take (length e) buf = e"
    and rw': "rw' = writeAt (writeAt rw (lim * bs) buf) 0 h"
  shows "block_entry rw' bs (lim + blocks_for bs (length e)) lim e"
    and "block_entry rw bs lim b' e' \<Longrightarrow> block_entry rw' bs (lim + k) b' e'"
    and "seg 0 (length h) rw' = h" and "length rw \<le> length rw'" and "length h \<le> length rw'"
proof -
  have len: "max (length rw) (lim * bs + length buf) \<le> length rw'"
    by (simp add: rw' length_writeAt)
  have far: "seg o1 n rw' = seg o1 n (writeAt rw (lim * bs) buf)"
    if "bs \<le> o1" "o1 + n \<le> length (writeAt rw (lim * bs) buf)" for o1 n
    unfolding rw' using that bs(2) by (intro seg_writeAt_other) simp_all
  have le: "length e \<le> length buf"
    using blocks_for_bound [OF bs(1), of "length e"] buf(1) by simp
  have "bs \<le> lim * bs"
    using lim by (cases lim) simp_all
  then have "seg (lim * bs) (length e) rw' = seg (lim * bs) (length e) (writeAt rw (lim * bs) buf)"
    using le by (intro far) (simp_all add: length_writeAt)
  also have "\<dots> = e"
    using seg_writeAt_prefix [OF le] buf(2) by simp
  finally show "block_entry rw' bs (lim + blocks_for bs (length e)) lim e"
    using lim e len buf(1) by (simp add: block_entry_def add_mult_distrib)
  show "block_entry rw' bs (lim + k) b' e'" if s: "block_entry rw bs lim b' e'"
  proof -
    have b: "0 < b'" "b' + blocks_for bs (length e') \<le> lim" "(b' + blocks_for bs (length e')) * bs \<le> length rw"
        "seg (b' * bs) (length e') rw = e'" "e' \<noteq> []"
      using s by (simp_all add: block_entry_def)
    have "(b' + blocks_for bs (length e')) * bs \<le> lim * bs"
      using b(2) by (rule mult_le_mono1)
    then have o: "b' * bs + length e' \<le> lim * bs" "b' * bs + length e' \<le> length rw" "bs \<le> b' * bs"
      using b(1,3) blocks_for_bound [OF bs(1), of "length e'"] by (simp_all add: add_mult_distrib)
    then have "seg (b' * bs) (length e') rw' = seg (b' * bs) (length e') (writeAt rw (lim * bs) buf)"
      by (intro far) (simp_all add: length_writeAt)
    also have "\<dots> = seg (b' * bs) (length e') rw"
      using o by (intro seg_writeAt_other) simp_all
    finally show ?thesis
      using b len by (simp add: block_entry_def)
  qed
  show "seg 0 (length h) rw' = h"
    unfolding rw' by (simp add: seg_writeAt_same)
  show "length rw \<le> length rw'" "length h \<le> length rw'"
    using len by (simp_all add: rw' length_writeAt)
qed

lemma no_wrap:
  assumes "unat (n :: u32) + k < 2 ^ 32"
  shows "unat (n + word_of_nat k) = unat n + k"
proof -
  have "unat (word_of_nat k :: u32) = k"
    using assms by (simp add: unat_of_nat)
  then show ?thesis
    using assms by (simp add: unat_word_ariths)
qed

section \<open>dBASE III+ memos as a store\<close>

definition memo_text :: "bytes \<Rightarrow> bool" where
  "memo_text t \<longleftrightarrow> findMemoTerminator (t @ [0x1A]) = None"

definition dbt_blocks :: "memo_file \<Rightarrow> bytes \<Rightarrow> nat" where
  "dbt_blocks m t = blocks_for MemoBlockSize (length t + 2)"

definition dbt_ok :: "memo_file \<Rightarrow> bool" where
  "dbt_ok m \<longleftrightarrow> m_nextFree m \<noteq> 0 \<and> OpenMemo (m_rw m) = Inr m"

definition dbt_used :: "memo_file \<Rightarrow> nat" where
  "dbt_used m = unat (m_nextFree m)"

definition dbt_stored :: "memo_file \<Rightarrow> u32 \<Rightarrow> bytes \<Rightarrow> bool" where
  "dbt_stored m b t \<longleftrightarrow> memo_text t \<and> block_entry (m_rw m) MemoBlockSize (dbt_used m) (unat b) (t @ [0x1A, 0x1A])"

lemma MemoBlockSize_pos [simp]: "0 < MemoBlockSize"
  by (simp add: MemoBlockSize_def)

lemma find_at_end: "memo_text t \<Longrightarrow> findMemoTerminator (t @ 0x1A # 0x1A # zs) = Some (length t)"
  unfolding memo_text_def
proof (induction t rule: findMemoTerminator.induct)
  case (1 a b bs)
  then show ?case
    by (auto split: if_splits)
qed auto

lemma find_prefix: "findMemoTerminator (xs @ ys) = None \<Longrightarrow> findMemoTerminator xs = None"
proof (induction xs rule: findMemoTerminator.induct)
  case (1 a b bs)
  then show ?case
    by (auto split: if_splits)
qed auto

lemma find_take:
  assumes "memo_text t" "n \<le> length t + 1"
  shows "findMemoTerminator (take n (t @ 0x1A # zs)) = None"
proof -
  have "take n (t @ 0x1A # zs) @ drop n (t @ [0x1A]) = t @ [0x1A]"
    using assms(2) by (cases "n = length t + 1") (auto simp: take_Cons' simp flip: append_assoc)
  then show ?thesis
    using assms(1) find_prefix unfolding memo_text_def by metis
qed

lemma blocks_bound: "length t + 2 \<le> dbt_blocks m t * MemoBlockSize"
  by (simp add: dbt_blocks_def blocks_for_bound)

lemma memoLoop_text:
  assumes "memo_text t" "acc @ rest = t @ 0x1A # 0x1A # zs" "length acc \<le> length t + 1"
    and "length acc = k * MemoBlockSize" "dbt_blocks m t * MemoBlockSize \<le> length (acc @ rest)"
  shows "memoLoop acc rest = Inr t"
  using assms(2-5)
proof (induction "length rest" arbitrary: acc rest k rule: less_induct)
  case less
  have "k * MemoBlockSize < dbt_blocks m t * MemoBlockSize"
    using less.prems(2,3) blocks_bound [of t m] by linarith
  then have "Suc k \<le> dbt_blocks m t"
    by simp
  then have "Suc k * MemoBlockSize \<le> dbt_blocks m t * MemoBlockSize"
    by (rule mult_le_mono1)
  then have full: "MemoBlockSize \<le> length rest"
    using less.prems(3,4) by simp
  let ?acc = "acc @ take MemoBlockSize rest"
  have acc: "?acc = take (Suc k * MemoBlockSize) (t @ 0x1A # 0x1A # zs)" "length ?acc = Suc k * MemoBlockSize"
    using less.prems(1,3) full by (simp_all flip: less.prems(1))
  have again: "?acc @ drop MemoBlockSize rest = t @ 0x1A # 0x1A # zs"
    using less.prems(1) by simp
  show ?case
  proof (cases "Suc k * MemoBlockSize \<le> length t + 1")
    case True
    then have "findMemoTerminator ?acc = None"
      unfolding acc(1) by (rule find_take [OF assms(1)])
    moreover have "memoLoop ?acc (drop MemoBlockSize rest) = Inr t"
    proof (rule less.hyps [OF _ again _ acc(2)])
      show "length (drop MemoBlockSize rest) < length rest"
        using full by (simp add: MemoBlockSize_def)
      show "length ?acc \<le> length t + 1"
        using acc(2) True by simp
      show "dbt_blocks m t * MemoBlockSize \<le> length (?acc @ drop MemoBlockSize rest)"
        using less.prems(4) by simp
    qed
    ultimately show ?thesis
      using full by (subst memoLoop.simps) (simp add: Let_def)
  next
    case False
    then have "?acc = t @ 0x1A # 0x1A # take (Suc k * MemoBlockSize - (length t + 2)) zs"
      unfolding acc(1) by (auto simp: take_Cons' not_le Suc_le_eq)
    then show ?thesis
      using full find_at_end [OF assms(1)] by (subst memoLoop.simps) (simp add: Let_def)
  qed
qed

lemma dbt_get:
  assumes "dbt_stored m b t"
  shows "memo_Get m b = Inr t"
proof -
  have t: "memo_text t" and e: "block_entry (m_rw m) MemoBlockSize (dbt_used m) (unat b) (t @ [0x1A, 0x1A])"
    using assms by (simp_all add: dbt_stored_def)
  let ?rest = "drop (unat b * MemoBlockSize) (m_rw m)"
  have "seg (unat b * MemoBlockSize) (length t + 2) (m_rw m) = t @ [0x1A, 0x1A]"
    using e by (simp add: block_entry_def)
  then have "[] @ ?rest = t @ 0x1A # 0x1A # drop (unat b * MemoBlockSize + (length t + 2)) (m_rw m)"
    using drop_seg [of "unat b * MemoBlockSize" "m_rw m" "length t + 2"] by simp
  moreover have "dbt_blocks m t * MemoBlockSize \<le> length ([] @ ?rest)"
    using e by (auto simp: block_entry_def dbt_blocks_def add_mult_distrib)
  moreover have "b \<noteq> 0"
    using e by (auto simp: block_entry_def)
  ultimately show ?thesis
    using memoLoop_text [OF t, of "[]" ?rest _ 0 m] by (simp add: memo_Get_def)
qed

lemma dbt_append:
  assumes ok: "dbt_ok m" and t: "memo_text t" and room: "dbt_used m + dbt_blocks m t < 2 ^ 32"
  shows "\<exists>m'. memo_Append t m = (m', Inr (word_of_nat (dbt_used m))) \<and> dbt_ok m'
    \<and> dbt_stored m' (word_of_nat (dbt_used m)) t \<and> dbt_used m' = dbt_used m + dbt_blocks m t \<and> dbt_blocks m' = dbt_blocks m
    \<and> (\<forall>b' t'. dbt_stored m b' t' \<longrightarrow> dbt_stored m' b' t')"
proof -
  let ?n = "m_nextFree m" and ?blocks = "dbt_blocks m t" and ?e = "t @ [0x1A, 0x1A]"
  define buf where "buf = t @ [0x1A, 0x1A] @ replicate (?blocks * MemoBlockSize - (length t + 2)) 0"
  define nxt where "nxt = ?n + word_of_nat ?blocks"
  define rw' where "rw' = writeAt (writeAt (m_rw m) (unat ?n * MemoBlockSize) buf) 0 (put_u32 nxt)"
  have n: "0 < unat ?n"
    using ok by (simp add: dbt_ok_def unat_gt_0)
  have nxt: "unat nxt = unat ?n + ?blocks" "nxt \<noteq> 0"
    using no_wrap [of ?n ?blocks] room n by (auto simp: nxt_def dbt_used_def unat_eq_0 [symmetric])
  have buf: "length buf = blocks_for MemoBlockSize (length ?e) * MemoBlockSize" "take (length ?e) buf = ?e"
    using blocks_bound [of t m] by (simp_all add: buf_def dbt_blocks_def)
  have h: "length (put_u32 nxt) \<le> MemoBlockSize"
    by (simp add: MemoBlockSize_def)
  note a = block_append [OF MemoBlockSize_pos h n _ buf, of rw' "m_rw m", OF _ rw'_def]
  have "readAt rw' 0 4 = Inr (put_u32 nxt)"
    using a(3,5) by (simp add: readAt_def)
  then have "dbt_ok \<lparr>m_rw = rw', m_nextFree = nxt\<rparr>"
    using nxt(2) by (simp add: dbt_ok_def OpenMemo_def get_put_u32 Let_def)
  moreover have "memo_Append t m = (\<lparr>m_rw = rw', m_nextFree = nxt\<rparr>, Inr ?n)"
    by (simp add: memo_Append_def memo_writeHeader_def Let_def rw'_def nxt_def buf_def dbt_blocks_def blocks_for_def)
  ultimately show ?thesis
    using a(1) a(2) [where k = ?blocks] nxt(1) t
    by (intro exI [of _ "\<lparr>m_rw = rw', m_nextFree = nxt\<rparr>"])
      (simp add: dbt_stored_def dbt_used_def dbt_blocks_def [abs_def])
qed

interpretation dbt: memo_store dbt_ok dbt_stored dbt_used dbt_blocks memo_text memo_Get memo_Append
proof
  fix m b t
  assume "dbt_ok m" "dbt_stored m b t"
  then show "memo_Get m b = Inr t"
    by (intro dbt_get)
next
  fix m b t
  assume "dbt_stored m b t"
  then show "b \<noteq> 0 \<and> unat b < dbt_used m \<and> memo_text t"
    using entry_below [OF MemoBlockSize_pos] by (auto simp: dbt_stored_def)
next
  fix m t
  assume "dbt_ok m" "memo_text t" "dbt_used m + dbt_blocks m t < 2 ^ 32"
  then show "\<exists>m'. memo_Append t m = (m', Inr (word_of_nat (dbt_used m))) \<and> dbt_ok m'
    \<and> dbt_stored m' (word_of_nat (dbt_used m)) t \<and> dbt_used m' = dbt_used m + dbt_blocks m t \<and> dbt_blocks m' = dbt_blocks m
    \<and> (\<forall>b' t'. dbt_stored m b' t' \<longrightarrow> dbt_stored m' b' t')"
    by (rule dbt_append)
qed

lemma CreateMemo_ok: "\<exists>m. CreateMemo rw = Inr m \<and> dbt_ok m \<and> dbt_used m = 1"
proof -
  let ?block = "put_at (replicate MemoBlockSize 0) 0 (put_u32 1)"
  have "take 4 ?block = put_u32 1"
    by (simp add: put_at_def MemoBlockSize_def)
  then have "readAt (writeAt rw 0 ?block) 0 4 = Inr (put_u32 1)"
    using seg_writeAt_prefix [of 4 ?block 0 rw] by (auto simp: readAt_def length_writeAt MemoBlockSize_def max_def)
  then show ?thesis
    by (auto simp: CreateMemo_def dbt_ok_def OpenMemo_def get_put_u32 Let_def dbt_used_def)
qed

section \<open>Pointers round trip\<close>

lemma trimSpaces_pad:
  assumes "t \<noteq> []" "hd t \<noteq> 0x20" "last t \<noteq> 0x20"
  shows "trimSpaces (replicate n 0x20 @ t @ replicate k 0x20) = t"
proof -
  have "dropWhile (\<lambda>c. c = 0x20) (replicate n 0x20 @ t @ replicate k 0x20) = t @ replicate k 0x20"
    using assms(1,2) by (cases t) (simp_all add: dropWhile_append)
  moreover have "dropWhile (\<lambda>c. c = 0x20) (replicate k 0x20 @ rev t) = rev t"
    using assms(1,3) by (cases t rule: rev_cases) (simp_all add: dropWhile_append)
  ultimately show ?thesis
    by (simp add: trimSpaces_def)
qed

lemma trimSpaces_blank: "trimSpaces (replicate n 0x20) = []"
  by (simp add: trimSpaces_def dropWhile_eq_Nil_conv)

lemma dec_digits_edges: "hd (dec_digits n) \<noteq> 0x20 \<and> last (dec_digits n) \<noteq> 0x20"
proof -
  have "is_digit c" if "c \<in> set (dec_digits n)" for c
    using dec_digits_digits [of n] that by (simp add: list_all_iff)
  then have "is_digit (hd (dec_digits n))" "is_digit (last (dec_digits n))"
    by simp_all
  then show ?thesis
    by (auto simp: is_digit_def)
qed

lemma dec_digits_length: "n < 10 ^ k \<Longrightarrow> 0 < k \<Longrightarrow> length (dec_digits n) \<le> k"
proof (induction k arbitrary: n)
  case (Suc k)
  show ?case
  proof (cases "n < 10")
    case False
    then have "0 < k" "n div 10 < 10 ^ k"
      using Suc.prems by (auto simp: less_mult_imp_div_less mult.commute intro: Suc_leI gr0I)
    then show ?thesis
      using Suc.IH [of "n div 10"] False by (subst dec_digits.simps) simp
  qed (subst dec_digits.simps, simp)
qed simp

text \<open>A pointer is read back from its field whatever blanks surround it.\<close>

lemma memo_pointer:
  assumes "b \<noteq> 0"
  shows "ParseMemoPointer (FormatMemoPointer b) = Inr (b, True)"
    and "length (FormatMemoPointer b) = memoFieldWidth"
    and "FormatMemoPointer b = replicate (memoFieldWidth - length (dec_digits (unat b))) 0x20 @ dec_digits (unat b)"
proof -
  have "unat b < 2 ^ 32"
    using unsigned_less [of b, where 'a = nat] by simp
  then have "unat b < 10 ^ 10"
    by simp
  then have len: "length (dec_digits (unat b)) \<le> memoFieldWidth"
    unfolding memoFieldWidth_def by (rule dec_digits_length) simp
  then show f: "FormatMemoPointer b = replicate (memoFieldWidth - length (dec_digits (unat b))) 0x20 @ dec_digits (unat b)"
    using assms by (simp add: FormatMemoPointer_def Let_def)
  then show "length (FormatMemoPointer b) = memoFieldWidth"
    using len by simp
  have "trimSpaces (FormatMemoPointer b) = dec_digits (unat b)"
    using trimSpaces_pad [of "dec_digits (unat b)" _ 0] dec_digits_edges f by simp
  moreover have "ParseUint32 (dec_digits (unat b)) = Some b"
    using dec_digits_digits [of "unat b"] dec_value_digits [of "unat b"] unsigned_less [of b, where 'a = nat]
    by (simp add: ParseUint32_def)
  ultimately show "ParseMemoPointer (FormatMemoPointer b) = Inr (b, True)"
    using assms by (simp add: ParseMemoPointer_def Let_def)
qed

end
