(* ===== verification/DbfMemoIV.thy ===== *)
theory DbfMemoIV
  imports DbfMemo
begin

text \<open>
  Memo files of dBASE IV and 5 (\<open>dbf/memo_dbaseiv.go\<close>): the block size is in the header, every memo
  starts with a marker and a little-endian length that counts the eight header bytes.  The format is
  a \<open>memo_store\<close> for block sizes that hold the header.
\<close>

section \<open>The file\<close>

definition dbaseIVMemoHeaderPrefixSize :: nat where "dbaseIVMemoHeaderPrefixSize = 22"

definition dbaseIVBlockHeaderSize :: nat where "dbaseIVBlockHeaderSize = 8"

definition dbaseIVBlockMarker :: bytes where "dbaseIVBlockMarker = [0xFF, 0xFF, 0x08, 0x00]"

definition dbaseIVMemoTableNameSize :: nat where "dbaseIVMemoTableNameSize = 8"

record iv_file =
  v_rw :: bytes
  v_nextFree :: u32
  v_blockSize :: u16
  v_tableName :: bytes

definition encodeDBaseIVMemoTableName :: "bytes \<Rightarrow> bytes" where
  "encodeDBaseIVMemoTableName name = put_at (replicate dbaseIVMemoTableNameSize 0) 0 name"

definition OpenDBaseIVMemo :: "bytes \<Rightarrow> error + iv_file" where
  "OpenDBaseIVMemo rw =
     (case readAt rw 0 dbaseIVMemoHeaderPrefixSize of
        Inl e \<Rightarrow> Inl (Wrap ''reading dBASE IV memo header'' e)
      | Inr head \<Rightarrow>
          let nxt = get_u32 (seg 0 4 head); bs = get_u16 (seg 20 2 head) in
          if nxt = 0 then Inl (Wrap ''memo header claims block 0 is free'' ErrInvalidRecord)
          else if bs = 0 then Inl (Wrap ''memo header declares a zero block size'' ErrInvalidRecord)
          else Inr \<lparr>v_rw = rw, v_nextFree = nxt, v_blockSize = bs, v_tableName = decodeFieldName (seg 8 8 head)\<rparr>)"

text \<open>A block that is too short for the header fields makes a slice expression panic.\<close>

definition iv_header :: "bytes \<Rightarrow> u16 \<Rightarrow> bytes" where
  "iv_header name bs =
     (let block = replicate (unat bs) 0;
          block = put_at block 0 (put_u32 1);
          block = put_at block 8 (encodeDBaseIVMemoTableName name);
          block = put_at block 16 [0x00, 0x00, 0x02, 0x01]
      in put_at block 20 (put_u16 bs))"

definition CreateDBaseIVMemo :: "bytes \<Rightarrow> bytes \<Rightarrow> u16 \<Rightarrow> error + iv_file" where
  "CreateDBaseIVMemo rw name bs =
     (if bs = 0 \<or> bs mod 8 \<noteq> 0 then Inl (Wrap ''block size must be a positive multiple of 8'' ErrInvalidRecord)
      else if unat bs < dbaseIVMemoHeaderPrefixSize then Inl (Panic ''slice bounds out of range'')
      else Inr \<lparr>v_rw = writeAt rw 0 (iv_header name bs), v_nextFree = 1, v_blockSize = bs,
                v_tableName = decodeFieldName (seg 8 8 (iv_header name bs))\<rparr>)"

definition iv_writeHeader :: "iv_file \<Rightarrow> iv_file" where
  "iv_writeHeader m = m\<lparr>v_rw := writeAt (v_rw m) 0 (put_u32 (v_nextFree m))\<rparr>"

definition iv_Append :: "bytes \<Rightarrow> (iv_file, u32) op" where
  "iv_Append t m =
     (let block = v_nextFree m;
          bs = unat (v_blockSize m);
          offset = unat block * bs;
          totalLen = dbaseIVBlockHeaderSize + length t;
          blocks = (totalLen + bs - 1) div bs;
          buf = replicate (blocks * bs) 0;
          buf = put_at buf 0 dbaseIVBlockMarker;
          buf = put_at buf 4 (put_u32 (word_of_nat totalLen));
          buf = put_at buf dbaseIVBlockHeaderSize t;
          m = m\<lparr>v_rw := writeAt (v_rw m) offset buf\<rparr>;
          m = m\<lparr>v_nextFree := block + word_of_nat blocks\<rparr>
      in (iv_writeHeader m, Inr block))"

definition iv_Get :: "iv_file \<Rightarrow> u32 \<Rightarrow> error + bytes" where
  "iv_Get m block =
     (let offset = unat block * unat (v_blockSize m) in
      if block = 0 then Inl (Wrap ''block 0 is the memo header'' ErrInvalidRecord)
      else case readAt (v_rw m) offset dbaseIVBlockHeaderSize of
        Inl e \<Rightarrow> Inl (Wrap ''reading block header'' ErrInvalidRecord)
      | Inr head \<Rightarrow>
          if seg 0 4 head \<noteq> dbaseIVBlockMarker then Inl (Wrap ''block marker'' ErrInvalidRecord)
          else
            let totalLen = unat (get_u32 (seg 4 4 head)) in
            if totalLen < dbaseIVBlockHeaderSize then Inl (Wrap ''declared length'' ErrInvalidRecord)
            else case readAt (v_rw m) (offset + dbaseIVBlockHeaderSize) (totalLen - dbaseIVBlockHeaderSize) of
              Inl e \<Rightarrow> Inl (Wrap ''reading block text'' e)
            | Inr t \<Rightarrow> Inr t)"

section \<open>dBASE IV memos as a store\<close>

definition iv_entry :: "bytes \<Rightarrow> bytes" where
  "iv_entry t = dbaseIVBlockMarker @ put_u32 (word_of_nat (8 + length t)) @ t"

definition iv_need :: "iv_file \<Rightarrow> bytes \<Rightarrow> nat" where
  "iv_need m t = blocks_for (unat (v_blockSize m)) (8 + length t)"

definition iv_ok :: "iv_file \<Rightarrow> bool" where
  "iv_ok m \<longleftrightarrow> dbaseIVMemoHeaderPrefixSize \<le> unat (v_blockSize m) \<and> OpenDBaseIVMemo (v_rw m) = Inr m"

definition iv_used :: "iv_file \<Rightarrow> nat" where
  "iv_used m = unat (v_nextFree m)"

definition iv_text :: "bytes \<Rightarrow> bool" where
  "iv_text t \<longleftrightarrow> 8 + length t < 2 ^ 32"

definition iv_stored :: "iv_file \<Rightarrow> u32 \<Rightarrow> bytes \<Rightarrow> bool" where
  "iv_stored m b t \<longleftrightarrow> iv_text t \<and> 0 < unat (v_blockSize m)
     \<and> block_entry (v_rw m) (unat (v_blockSize m)) (iv_used m) (unat b) (iv_entry t)"

lemma length_iv_entry [simp]: "length (iv_entry t) = 8 + length t"
  by (simp add: iv_entry_def dbaseIVBlockMarker_def)

lemma seg_iv_entry:
  "seg 0 4 (iv_entry t) = dbaseIVBlockMarker" "seg 4 4 (iv_entry t) = put_u32 (word_of_nat (8 + length t))"
  "seg 8 (length t) (iv_entry t) = t"
  by (simp_all add: iv_entry_def seg_def dbaseIVBlockMarker_def)

lemma iv_get:
  assumes "iv_stored m b t"
  shows "iv_Get m b = Inr t"
proof -
  let ?bs = "unat (v_blockSize m)"
  have c: "8 + length t < 2 ^ 32" "0 < ?bs" and e: "block_entry (v_rw m) ?bs (iv_used m) (unat b) (iv_entry t)"
    using assms by (simp_all add: iv_stored_def iv_text_def)
  have head: "readAt (v_rw m) (unat b * ?bs) 8 = Inr (seg 0 8 (iv_entry t))"
    using entry_read [OF e c(2), of 0 8] by simp
  have body: "readAt (v_rw m) (unat b * ?bs + 8) (length t) = Inr t"
    using entry_read [OF e c(2), of 8 "length t"] by (simp add: seg_iv_entry)
  have "seg 0 4 (seg 0 8 (iv_entry t)) = dbaseIVBlockMarker"
    "seg 4 4 (seg 0 8 (iv_entry t)) = put_u32 (word_of_nat (8 + length t))"
    by (simp_all add: seg_seg seg_iv_entry)
  moreover have "unat (word_of_nat (8 + length t) :: u32) = 8 + length t"
    using c(1) unfolding unat_of_nat by simp
  moreover have "b \<noteq> 0"
    using e by (auto simp: block_entry_def)
  ultimately show ?thesis
    using head body by (simp add: iv_Get_def Let_def get_put_u32 dbaseIVBlockHeaderSize_def del: of_nat_add)
qed

lemma OpenIV_head:
  assumes "22 \<le> length rw" "seg 0 4 rw = put_u32 nxt" "seg 20 2 rw = put_u16 bs" "nxt \<noteq> 0" "bs \<noteq> 0"
  shows "OpenDBaseIVMemo rw = Inr \<lparr>v_rw = rw, v_nextFree = nxt, v_blockSize = bs, v_tableName = decodeFieldName (seg 8 8 rw)\<rparr>"
proof -
  have "readAt rw 0 22 = Inr (seg 0 22 rw)"
    using assms(1) by (simp add: readAt_def)
  then show ?thesis
    using assms by (simp add: OpenDBaseIVMemo_def Let_def dbaseIVMemoHeaderPrefixSize_def seg_seg get_put_u16 get_put_u32)
qed

lemma iv_ok_parts:
  assumes "iv_ok m"
  shows "22 \<le> length (v_rw m)" "get_u16 (seg 20 2 (v_rw m)) = v_blockSize m" "v_nextFree m \<noteq> 0"
    "v_tableName m = decodeFieldName (seg 8 8 (v_rw m))" "22 \<le> unat (v_blockSize m)" "v_blockSize m \<noteq> 0"
proof -
  have "22 \<le> length (v_rw m) \<and> get_u16 (seg 20 2 (v_rw m)) = v_blockSize m \<and> v_nextFree m \<noteq> 0
    \<and> v_tableName m = decodeFieldName (seg 8 8 (v_rw m)) \<and> 22 \<le> unat (v_blockSize m) \<and> v_blockSize m \<noteq> 0"
    using assms
    by (cases m) (auto simp: iv_ok_def OpenDBaseIVMemo_def readAt_def dbaseIVMemoHeaderPrefixSize_def Let_def seg_seg
      split: sum.splits if_splits)
  then show "22 \<le> length (v_rw m)" "get_u16 (seg 20 2 (v_rw m)) = v_blockSize m" "v_nextFree m \<noteq> 0"
    "v_tableName m = decodeFieldName (seg 8 8 (v_rw m))" "22 \<le> unat (v_blockSize m)" "v_blockSize m \<noteq> 0"
    by simp_all
qed

lemma iv_append:
  assumes ok: "iv_ok m" and t: "iv_text t" and room: "iv_used m + iv_need m t < 2 ^ 32"
  shows "\<exists>m'. iv_Append t m = (m', Inr (word_of_nat (iv_used m))) \<and> iv_ok m'
    \<and> iv_stored m' (word_of_nat (iv_used m)) t \<and> iv_used m' = iv_used m + iv_need m t \<and> iv_need m' = iv_need m
    \<and> (\<forall>b' t'. iv_stored m b' t' \<longrightarrow> iv_stored m' b' t')"
proof -
  let ?bs = "unat (v_blockSize m)" and ?n = "v_nextFree m" and ?k = "iv_need m t" and ?e = "iv_entry t"
  note p = iv_ok_parts [OF ok]
  have bs: "0 < ?bs"
    using p(5) by simp
  have n: "0 < unat ?n"
    using p(3) by (simp add: unat_gt_0)
  define nxt where "nxt = ?n + word_of_nat ?k"
  have nxt: "unat nxt = unat ?n + ?k" "nxt \<noteq> 0"
    using no_wrap [of ?n ?k] room n by (auto simp: nxt_def iv_used_def unat_eq_0 [symmetric])
  define buf where "buf = put_at (put_at (put_at (replicate (?k * ?bs) 0) 0 dbaseIVBlockMarker) 4 (put_u32 (word_of_nat (8 + length t)))) 8 t"
  have le: "8 + length t \<le> ?k * ?bs"
    using blocks_for_bound [OF bs, of "8 + length t"] by (simp add: iv_need_def)
  have "take (length ?e) buf = ?e"
  proof -
    have m: "length dbaseIVBlockMarker = 4"
      by (simp add: dbaseIVBlockMarker_def)
    show ?thesis
      using le by (simp add: buf_def iv_entry_def put_at_def min_def m)
  qed
  then have buf: "length buf = blocks_for ?bs (length ?e) * ?bs" "take (length ?e) buf = ?e"
    by (simp_all add: buf_def iv_need_def)
  have h: "length (put_u32 nxt) \<le> ?bs"
    using p(5) by simp
  have ne: "?e \<noteq> []"
    by (metis add_gr_0 length_iv_entry length_greater_0_conv zero_less_numeral)
  define rw' where "rw' = writeAt (writeAt (v_rw m) (unat ?n * ?bs) buf) 0 (put_u32 nxt)"
  note a = block_append [OF bs h n ne buf rw'_def]
  have far: "22 \<le> unat ?n * ?bs"
    using n p(5) by (metis One_nat_def Suc_leI mult_le_mono mult_1 order_trans)
  have head: "seg o1 k rw' = seg o1 k (v_rw m)" if "4 \<le> o1" "o1 + k \<le> 22" for o1 k
  proof -
    have "seg o1 k rw' = seg o1 k (writeAt (v_rw m) (unat ?n * ?bs) buf)"
      unfolding rw'_def using that p(1) by (intro seg_writeAt_other) (simp_all add: length_writeAt)
    also have "\<dots> = seg o1 k (v_rw m)"
      using that p(1) far by (intro seg_writeAt_other) simp_all
    finally show ?thesis .
  qed
  let ?m = "m\<lparr>v_rw := rw', v_nextFree := nxt\<rparr>"
  have "readAt rw' 0 22 = Inr (seg 0 22 rw')"
    using a(4) p(1) by (simp add: readAt_def)
  then have "OpenDBaseIVMemo rw' = Inr ?m"
    using a(3) head [of 20 2] head [of 8 8] p nxt(2)
    by (cases m) (simp add: OpenDBaseIVMemo_def Let_def dbaseIVMemoHeaderPrefixSize_def seg_seg get_put_u32)
  then have "iv_ok ?m"
    using p(5) by (simp add: iv_ok_def dbaseIVMemoHeaderPrefixSize_def)
  moreover have "iv_Append t m = (?m, Inr ?n)"
    by (simp add: iv_Append_def iv_writeHeader_def Let_def rw'_def nxt_def buf_def iv_need_def blocks_for_def
        dbaseIVBlockHeaderSize_def)
  moreover have "block_entry rw' ?bs (iv_used ?m) (unat ?n) ?e"
    using a(1) nxt(1) by (simp add: iv_used_def iv_need_def)
  ultimately show ?thesis
    using a(2) [where k = ?k] nxt(1) t bs
    by (intro exI [of _ ?m]) (simp add: iv_stored_def iv_used_def iv_need_def [abs_def])
qed

interpretation iv: memo_store iv_ok iv_stored iv_used iv_need iv_text iv_Get iv_Append
proof
  fix m b t
  assume "iv_stored m b t"
  then show "b \<noteq> 0 \<and> unat b < iv_used m \<and> iv_text t"
    using entry_below [of "unat (v_blockSize m)" "v_rw m"] unfolding iv_stored_def by fastforce
next
  fix m t
  assume "iv_ok m" "iv_text t" "iv_used m + iv_need m t < 2 ^ 32"
  then show "\<exists>m'. iv_Append t m = (m', Inr (word_of_nat (iv_used m))) \<and> iv_ok m'
    \<and> iv_stored m' (word_of_nat (iv_used m)) t \<and> iv_used m' = iv_used m + iv_need m t \<and> iv_need m' = iv_need m
    \<and> (\<forall>b' t'. iv_stored m b' t' \<longrightarrow> iv_stored m' b' t')"
    by (rule iv_append)
qed (rule iv_get)

lemma CreateIV_ok:
  assumes "bs mod 8 = 0" "24 \<le> unat bs"
  shows "\<exists>m. CreateDBaseIVMemo rw name bs = Inr m \<and> iv_ok m \<and> v_blockSize m = bs \<and> iv_used m = 1"
proof -
  have b: "bs \<noteq> 0"
    using assms(2) by auto
  let ?h = "iv_header name bs"
  have l: "length ?h = unat bs" "length (encodeDBaseIVMemoTableName name) = 8"
    by (simp_all add: iv_header_def Let_def encodeDBaseIVMemoTableName_def dbaseIVMemoTableNameSize_def)
  have h: "seg 0 4 ?h = put_u32 1" "seg 20 2 ?h = put_u16 bs"
    using assms(2) l(2) by (simp_all add: iv_header_def Let_def seg_put_at_other seg_put_at_same)
  have w: "seg o1 n (writeAt rw 0 ?h) = seg o1 n ?h" if "o1 + n \<le> length ?h" for o1 n
  proof -
    have "seg 0 (length ?h) (writeAt rw 0 ?h) = ?h"
      by (rule seg_writeAt_same) simp
    then show ?thesis
      using seg_seg [OF that, of 0 "writeAt rw 0 ?h"] by simp
  qed
  have "OpenDBaseIVMemo (writeAt rw 0 ?h) = Inr \<lparr>v_rw = writeAt rw 0 ?h, v_nextFree = 1, v_blockSize = bs,
      v_tableName = decodeFieldName (seg 8 8 (writeAt rw 0 ?h))\<rparr>"
    using assms(2) b h w l(1) by (intro OpenIV_head) (simp_all add: length_writeAt)
  then show ?thesis
    using assms b w [of 8 8] l(1) by (simp add: CreateDBaseIVMemo_def iv_ok_def iv_used_def dbaseIVMemoHeaderPrefixSize_def)
qed

section \<open>The property\<close>

text \<open>C30: on a dBASE IV memo file \<open>Append\<close> returns the next free block, \<open>Get\<close> returns the text from it, the
  file reopens to the same handle, and every memo stored before is still returned.\<close>

theorem IV_append_get:
  assumes "iv_ok m" "iv_text t" "iv_used m + iv_need m t < 2 ^ 32"
  shows "\<exists>m'. iv_Append t m = (m', Inr (v_nextFree m)) \<and> iv_Get m' (v_nextFree m) = Inr t
    \<and> OpenDBaseIVMemo (v_rw m') = Inr m' \<and> iv_ok m'
    \<and> (\<forall>b u. iv_stored m b u \<longrightarrow> iv_Get m' b = Inr u \<and> iv_stored m' b u)"
proof -
  obtain m' where m': "iv_Append t m = (m', Inr (word_of_nat (iv_used m)))" "iv_ok m'" "iv_stored m' (word_of_nat (iv_used m)) t"
      "\<forall>b u. iv_stored m b u \<longrightarrow> iv_stored m' b u"
    using iv.append_stored [OF assms] by blast
  moreover have "word_of_nat (iv_used m) = v_nextFree m"
    by (simp add: iv_used_def)
  ultimately show ?thesis
    using iv.get_stored [OF m'(2)] by (intro exI [of _ m']) (auto simp: iv_ok_def)
qed

theorem IV_append_get_witness:
  "\<exists>m m'. CreateDBaseIVMemo [] [0x41] 512 = Inr m \<and> iv_Append [0x42] m = (m', Inr 1) \<and> iv_Get m' 1 = Inr [0x42]"
proof -
  obtain m where m: "CreateDBaseIVMemo [] [0x41] 512 = Inr m" "iv_ok m" "v_blockSize m = 512" "iv_used m = 1"
    using CreateIV_ok [of 512 "[]" "[0x41]"] by auto
  then have "v_nextFree m = 1"
    by (metis iv_used_def unat_1 word_unat_eq_iff)
  moreover have "iv_need m [0x42] = 1"
    using m(3) by (simp add: iv_need_def blocks_for_def)
  ultimately show ?thesis
    using IV_append_get [OF m(2), of "[0x42]"] m(1,4) by (auto simp: iv_text_def)
qed

end
