(* ===== verification/DbfFpt.thy ===== *)
theory DbfFpt
  imports DbfMemo
begin

text \<open>
  FoxPro memo files (\<open>dbf/fpt.go\<close>): a 512-byte header, a block size of the file's own, and memos
  that carry their type and length in eight big-endian bytes.  The format is a \<open>memo_store\<close> for
  block sizes up to 512; beyond, the first block is block 0, which is not a valid memo pointer.
\<close>

section \<open>The file\<close>

definition put_be32 :: "u32 \<Rightarrow> bytes" where "put_be32 v = rev (put_u32 v)"

definition get_be32 :: "bytes \<Rightarrow> u32" where "get_be32 b = get_u32 (rev (take 4 b))"

definition put_be16 :: "u16 \<Rightarrow> bytes" where "put_be16 v = rev (put_u16 v)"

definition get_be16 :: "bytes \<Rightarrow> u16" where "get_be16 b = get_u16 (rev (take 2 b))"

definition FPTHeaderSize :: nat where "FPTHeaderSize = 512"

definition FPTDefaultBlockSize :: u16 where "FPTDefaultBlockSize = 64"

definition FPTMinBlockSize :: u16 where "FPTMinBlockSize = 32"

definition FPTMaxBlockSize :: u16 where "FPTMaxBlockSize = 1024"

definition MemoPicture :: u32 where "MemoPicture = 0"

definition MemoText :: u32 where "MemoText = 1"

definition MemoObject :: u32 where "MemoObject = 2"

record fpt_file =
  p_rw :: bytes
  p_blockSize :: u16
  p_nextFree :: u32

definition block_size_ok :: "u16 \<Rightarrow> error + unit" where
  "block_size_ok bs =
     (if bs < FPTMinBlockSize \<or> bs > FPTMaxBlockSize then Inl (Errorf ''FPT block size out of range'')
      else if bs mod 32 \<noteq> 0 then Inl (Errorf ''FPT block size not a multiple of 32'')
      else Inr ())"

definition firstUsable :: "u16 \<Rightarrow> u32" where
  "firstUsable bs = 512 div ucast bs"

definition OpenFPT :: "bytes \<Rightarrow> error + fpt_file" where
  "OpenFPT rw =
     (case readAt rw 0 FPTHeaderSize of
        Inl e \<Rightarrow> Inl (Wrap ''reading FPT header'' e)
      | Inr head \<Rightarrow>
          let nxt = get_be32 (seg 0 4 head); bs = get_be16 (seg 6 2 head) in
          case block_size_ok bs of
            Inl e \<Rightarrow> Inl (Wrap ''FPT block size'' ErrInvalidRecord)
          | Inr _ \<Rightarrow>
              if nxt < firstUsable bs then Inl (Wrap ''FPT next-free points inside header'' ErrInvalidRecord)
              else Inr \<lparr>p_rw = rw, p_blockSize = bs, p_nextFree = nxt\<rparr>)"

definition CreateFPT :: "bytes \<Rightarrow> u16 \<Rightarrow> error + fpt_file" where
  "CreateFPT rw blockSize =
     (let bs = (if blockSize = 0 then FPTDefaultBlockSize else blockSize) in
      case block_size_ok bs of
        Inl e \<Rightarrow> Inl e
      | Inr _ \<Rightarrow>
          let first = firstUsable bs;
              block = put_at (put_at (replicate FPTHeaderSize 0) 0 (put_be32 first)) 6 (put_be16 bs)
          in Inr \<lparr>p_rw = writeAt rw 0 block, p_blockSize = bs, p_nextFree = first\<rparr>)"

definition blockOffset :: "fpt_file \<Rightarrow> u32 \<Rightarrow> nat" where
  "blockOffset f block = unat block * unat (p_blockSize f)"

definition firstMemoBlock :: "fpt_file \<Rightarrow> u32" where
  "firstMemoBlock f = firstUsable (p_blockSize f)"

definition fpt_Get :: "fpt_file \<Rightarrow> u32 \<Rightarrow> error + bytes \<times> u32" where
  "fpt_Get f block =
     (if block = 0 then Inl (Wrap ''block 0 is not a valid memo pointer'' ErrInvalidRecord)
      else case readAt (p_rw f) (blockOffset f block) 8 of
        Inl e \<Rightarrow> Inl (Wrap ''reading FPT entry header'' e)
      | Inr head \<Rightarrow>
          let memoType = get_be32 (seg 0 4 head); len = unat (get_be32 (seg 4 4 head)) in
          if len = 0 then Inr ([], memoType)
          else case readAt (p_rw f) (blockOffset f block + 8) len of
            Inl e \<Rightarrow> Inl (Wrap ''reading FPT content'' e)
          | Inr buf \<Rightarrow> Inr (buf, memoType))"

definition fpt_writeHeader :: "fpt_file \<Rightarrow> fpt_file" where
  "fpt_writeHeader f =
     f\<lparr>p_rw := writeAt (p_rw f) 0 (put_be32 (p_nextFree f) @ [0, 0] @ put_be16 (p_blockSize f))\<rparr>"

definition fpt_Append :: "bytes \<times> u32 \<Rightarrow> (fpt_file, u32) op" where
  "fpt_Append = (\<lambda>(content, memoType) f.
     let entryLen = 8 + length content;
         bs = unat (p_blockSize f);
         blocksNeeded = (word_of_nat ((entryLen + bs - 1) div bs) :: u32);
         blocksNeeded = (if blocksNeeded = 0 then 1 else blocksNeeded);
         block = p_nextFree f;
         off = blockOffset f block;
         buf = replicate (unat blocksNeeded * bs) 0;
         buf = put_at buf 0 (put_be32 memoType);
         buf = put_at buf 4 (put_be32 (word_of_nat (length content)));
         buf = put_at buf 8 content;
         f = f\<lparr>p_rw := writeAt (p_rw f) off buf\<rparr>;
         f = f\<lparr>p_nextFree := p_nextFree f + blocksNeeded\<rparr>
     in (fpt_writeHeader f, Inr block))"

section \<open>FoxPro memos as a store\<close>

lemma length_put_be [simp]: "length (put_be32 v) = 4" "length (put_be16 w) = 2"
  by (simp_all add: put_be32_def put_be16_def)

lemma get_put_be [codec]: "get_be32 (put_be32 v) = v" "get_be16 (put_be16 w) = w"
  using get_put_u32 [of v] get_put_u16 [of w] by (simp_all add: put_be32_def get_be32_def put_be16_def get_be16_def)

definition fpt_entry :: "bytes \<times> u32 \<Rightarrow> bytes" where
  "fpt_entry c = put_be32 (snd c) @ put_be32 (word_of_nat (length (fst c))) @ fst c"

definition fpt_need :: "fpt_file \<Rightarrow> bytes \<times> u32 \<Rightarrow> nat" where
  "fpt_need f c = blocks_for (unat (p_blockSize f)) (8 + length (fst c))"

definition fpt_ok :: "fpt_file \<Rightarrow> bool" where
  "fpt_ok f \<longleftrightarrow> p_nextFree f \<noteq> 0 \<and> OpenFPT (p_rw f) = Inr f"

definition fpt_used :: "fpt_file \<Rightarrow> nat" where
  "fpt_used f = unat (p_nextFree f)"

definition fpt_content :: "bytes \<times> u32 \<Rightarrow> bool" where
  "fpt_content c \<longleftrightarrow> length (fst c) < 2 ^ 32"

definition fpt_stored :: "fpt_file \<Rightarrow> u32 \<Rightarrow> bytes \<times> u32 \<Rightarrow> bool" where
  "fpt_stored f b c \<longleftrightarrow> fpt_content c \<and> 32 \<le> unat (p_blockSize f)
     \<and> block_entry (p_rw f) (unat (p_blockSize f)) (fpt_used f) (unat b) (fpt_entry c)"

lemma length_fpt_entry [simp]: "length (fpt_entry c) = 8 + length (fst c)"
  by (simp add: fpt_entry_def)

lemma seg_fpt_entry:
  "seg 0 4 (fpt_entry c) = put_be32 (snd c)" "seg 4 4 (fpt_entry c) = put_be32 (word_of_nat (length (fst c)))"
  "seg 8 (length (fst c)) (fpt_entry c) = fst c"
  by (simp_all add: fpt_entry_def seg_def)

lemma fpt_ok_size: "fpt_ok f \<Longrightarrow> 32 \<le> unat (p_blockSize f)"
  by (cases f) (auto simp: fpt_ok_def OpenFPT_def block_size_ok_def FPTMinBlockSize_def Let_def word_less_nat_alt not_less
      split: sum.splits if_splits)

lemma fpt_get:
  assumes "fpt_stored f b c"
  shows "fpt_Get f b = Inr c"
proof -
  let ?bs = "unat (p_blockSize f)"
  have c: "length (fst c) < 2 ^ 32" "0 < ?bs" and e: "block_entry (p_rw f) ?bs (fpt_used f) (unat b) (fpt_entry c)"
    using assms by (simp_all add: fpt_stored_def fpt_content_def)
  have head: "readAt (p_rw f) (unat b * ?bs) 8 = Inr (seg 0 8 (fpt_entry c))"
    using entry_read [OF e c(2), of 0 8] by simp
  have body: "readAt (p_rw f) (unat b * ?bs + 8) (length (fst c)) = Inr (fst c)"
    using entry_read [OF e c(2), of 8 "length (fst c)"] by (simp add: seg_fpt_entry)
  have "seg 0 4 (seg 0 8 (fpt_entry c)) = put_be32 (snd c)"
    "seg 4 4 (seg 0 8 (fpt_entry c)) = put_be32 (word_of_nat (length (fst c)))"
    by (simp_all add: seg_seg seg_fpt_entry)
  moreover have "unat (word_of_nat (length (fst c)) :: u32) = length (fst c)"
    using c(1) by (simp add: unat_of_nat)
  moreover have "b \<noteq> 0"
    using e by (auto simp: block_entry_def)
  ultimately show ?thesis
    using head body by (cases c) (auto simp: fpt_Get_def blockOffset_def Let_def get_put_be)
qed

lemma OpenFPT_head:
  assumes "FPTHeaderSize \<le> length rw" "seg 0 8 rw = put_be32 nxt @ [0, 0] @ put_be16 bs"
    and "block_size_ok bs = Inr ()" "firstUsable bs \<le> nxt"
  shows "OpenFPT rw = Inr \<lparr>p_rw = rw, p_blockSize = bs, p_nextFree = nxt\<rparr>"
proof -
  have "readAt rw 0 FPTHeaderSize = Inr (seg 0 FPTHeaderSize rw)"
    using assms(1) by (simp add: readAt_def)
  moreover have "seg 0 4 (seg 0 FPTHeaderSize rw) = seg 0 4 (seg 0 8 rw)" "seg 6 2 (seg 0 FPTHeaderSize rw) = seg 6 2 (seg 0 8 rw)"
    by (simp_all add: seg_seg FPTHeaderSize_def)
  moreover have "seg 0 4 (seg 0 8 rw) = put_be32 nxt" "seg 6 2 (seg 0 8 rw) = put_be16 bs"
    unfolding assms(2) by (simp_all add: seg_def)
  ultimately show ?thesis
    using assms(3,4) by (simp add: OpenFPT_def Let_def get_put_be)
qed

lemma fpt_ok_parts:
  assumes "fpt_ok f"
  shows "FPTHeaderSize \<le> length (p_rw f)" "block_size_ok (p_blockSize f) = Inr ()" "firstUsable (p_blockSize f) \<le> p_nextFree f"
proof -
  have "FPTHeaderSize \<le> length (p_rw f) \<and> block_size_ok (p_blockSize f) = Inr () \<and> firstUsable (p_blockSize f) \<le> p_nextFree f"
    using assms
    by (cases f) (auto simp: fpt_ok_def OpenFPT_def readAt_def FPTHeaderSize_def Let_def not_less split: sum.splits if_splits)
  then show "FPTHeaderSize \<le> length (p_rw f)" "block_size_ok (p_blockSize f) = Inr ()"
    "firstUsable (p_blockSize f) \<le> p_nextFree f"
    by simp_all
qed

lemma fpt_append:
  assumes ok: "fpt_ok f" and c: "fpt_content c" and room: "fpt_used f + fpt_need f c < 2 ^ 32"
  shows "\<exists>f'. fpt_Append c f = (f', Inr (word_of_nat (fpt_used f))) \<and> fpt_ok f'
    \<and> fpt_stored f' (word_of_nat (fpt_used f)) c \<and> fpt_used f' = fpt_used f + fpt_need f c \<and> fpt_need f' = fpt_need f
    \<and> (\<forall>b' c'. fpt_stored f b' c' \<longrightarrow> fpt_stored f' b' c')"
proof -
  obtain t ty where ct: "c = (t, ty)"
    by fastforce
  let ?bs = "unat (p_blockSize f)" and ?n = "p_nextFree f" and ?k = "fpt_need f c" and ?e = "fpt_entry c"
  have bs: "32 \<le> ?bs" "0 < ?bs"
    using fpt_ok_size [OF ok] by simp_all
  have n: "0 < unat ?n"
    using ok by (simp add: fpt_ok_def unat_gt_0)
  have k: "0 < ?k" "unat (word_of_nat ?k :: u32) = ?k"
    using blocks_for_pos [OF bs(2)] room by (simp_all add: fpt_need_def unat_of_nat)
  define nxt where "nxt = ?n + word_of_nat ?k"
  have nxt: "unat nxt = unat ?n + ?k" "nxt \<noteq> 0"
    using no_wrap [of ?n ?k] room n by (auto simp: nxt_def fpt_used_def unat_eq_0 [symmetric])
  define buf where "buf = put_at (put_at (put_at (replicate (?k * ?bs) 0) 0 (put_be32 ty)) 4 (put_be32 (word_of_nat (length t)))) 8 t"
  have le: "8 + length t \<le> ?k * ?bs"
    using blocks_for_bound [OF bs(2), of "8 + length t"] ct by (simp add: fpt_need_def)
  have "take (length ?e) buf = ?e"
    using le by (simp add: buf_def ct fpt_entry_def put_at_def min_def)
  then have buf: "length buf = blocks_for ?bs (length ?e) * ?bs" "take (length ?e) buf = ?e"
    by (simp_all add: buf_def fpt_need_def)
  define h where "h = put_be32 nxt @ [0, 0] @ put_be16 (p_blockSize f)"
  define rw' where "rw' = writeAt (writeAt (p_rw f) (unat ?n * ?bs) buf) 0 h"
  have h: "length h = 8" "length h \<le> ?bs"
    using bs(1) by (simp_all add: h_def)
  have ne: "?e \<noteq> []"
    by (metis add_gr_0 length_fpt_entry length_greater_0_conv zero_less_numeral)
  note a = block_append [OF bs(2) h(2) n ne buf rw'_def]
  let ?f = "\<lparr>p_rw = rw', p_blockSize = p_blockSize f, p_nextFree = nxt\<rparr>"
  have "firstUsable (p_blockSize f) \<le> nxt"
    using fpt_ok_parts(3) [OF ok] nxt(1) by (simp add: word_le_nat_alt)
  then have "OpenFPT rw' = Inr ?f"
    using fpt_ok_parts(1,2) [OF ok] a(3,4) h(1) by (intro OpenFPT_head) (simp_all add: h_def)
  then have "fpt_ok ?f"
    using nxt(2) by (simp add: fpt_ok_def)
  moreover have "(8 + length t + ?bs - 1) div ?bs = ?k"
    by (simp add: fpt_need_def blocks_for_def ct)
  then have "fpt_Append c f = (?f, Inr ?n)"
    using k by (auto simp: ct fpt_Append_def Let_def fpt_writeHeader_def rw'_def h_def buf_def nxt_def blockOffset_def)
  moreover have "block_entry rw' ?bs (fpt_used ?f) (unat ?n) ?e"
    using a(1) nxt(1) by (simp add: fpt_used_def fpt_need_def)
  ultimately show ?thesis
    using a(2) [where k = ?k] nxt(1) c bs(1)
    by (intro exI [of _ ?f]) (simp add: fpt_stored_def fpt_used_def fpt_need_def [abs_def])
qed

interpretation fpt: memo_store fpt_ok fpt_stored fpt_used fpt_need fpt_content fpt_Get fpt_Append
proof
  fix f b c
  assume "fpt_stored f b c"
  then show "b \<noteq> 0 \<and> unat b < fpt_used f \<and> fpt_content c"
    using entry_below [of "unat (p_blockSize f)" "p_rw f"] unfolding fpt_stored_def by fastforce
next
  fix f c
  assume "fpt_ok f" "fpt_content c" "fpt_used f + fpt_need f c < 2 ^ 32"
  then show "\<exists>f'. fpt_Append c f = (f', Inr (word_of_nat (fpt_used f))) \<and> fpt_ok f'
    \<and> fpt_stored f' (word_of_nat (fpt_used f)) c \<and> fpt_used f' = fpt_used f + fpt_need f c \<and> fpt_need f' = fpt_need f
    \<and> (\<forall>b' c'. fpt_stored f b' c' \<longrightarrow> fpt_stored f' b' c')"
    by (rule fpt_append)
qed (rule fpt_get)

lemma CreateFPT_ok:
  assumes "block_size_ok bs = Inr ()" "bs \<le> 512"
  shows "\<exists>f. CreateFPT rw bs = Inr f \<and> fpt_ok f \<and> p_blockSize f = bs \<and> fpt_used f = 512 div unat bs"
proof -
  have bs: "bs \<noteq> 0" "0 < unat bs" "unat bs \<le> 512"
    using assms by (auto simp: block_size_ok_def FPTMinBlockSize_def word_le_nat_alt word_less_nat_alt split: if_splits)
  have first: "unat (firstUsable bs) = 512 div unat bs"
    using bs(3) by (simp add: firstUsable_def unat_div unsigned_ucast_eq take_bit_nat_eq_self)
  let ?block = "put_at (put_at (replicate FPTHeaderSize 0) 0 (put_be32 (firstUsable bs))) 6 (put_be16 bs)"
  have "take 8 ?block = put_be32 (firstUsable bs) @ [0, 0] @ put_be16 bs"
    by (simp add: put_at_def FPTHeaderSize_def numeral_2_eq_2)
  then have "seg 0 8 (writeAt rw 0 ?block) = put_be32 (firstUsable bs) @ [0, 0] @ put_be16 bs"
    by (subst seg_writeAt_prefix) (simp_all add: FPTHeaderSize_def)
  then have "OpenFPT (writeAt rw 0 ?block) = Inr \<lparr>p_rw = writeAt rw 0 ?block, p_blockSize = bs, p_nextFree = firstUsable bs\<rparr>"
    using assms(1) by (intro OpenFPT_head) (simp_all add: length_writeAt)
  moreover have "firstUsable bs \<noteq> 0"
    using first bs by (auto simp: unat_eq_0 [symmetric] div_eq_0_iff)
  ultimately show ?thesis
    using assms(1) bs(1) first by (simp add: CreateFPT_def Let_def fpt_ok_def fpt_used_def)
qed

section \<open>Wide blocks\<close>

text \<open>C31: \<open>CreateFPT\<close> accepts block sizes above the 512 bytes of the header, but computes the first free
  block as 512 divided by the block size, which is then block 0: the first memo appended is written
  over the header, and its block number 0 is refused by \<open>Get\<close> and stored in a record as blanks.\<close>

theorem CreateFPT_wide_blocks:
  assumes "block_size_ok bs = Inr ()" "512 < bs"
  shows "\<exists>f f'. CreateFPT rw bs = Inr f \<and> fpt_Append c f = (f', Inr 0)
    \<and> fpt_Get f' 0 = Inl (Wrap ''block 0 is not a valid memo pointer'' ErrInvalidRecord)
    \<and> FormatMemoPointer 0 = replicate 10 0x20"
proof -
  have "bs \<noteq> 0" "512 < unat bs"
    using assms(2) by (auto simp: word_less_nat_alt)
  moreover have "unat bs < 2 ^ 32"
    using unsigned_less [of bs, where 'a = nat] by simp
  ultimately have "unat (firstUsable bs) = 0"
    by (simp add: firstUsable_def unat_div unsigned_ucast_eq take_bit_nat_eq_self)
  then have "firstUsable bs = 0"
    by (simp add: unat_eq_0)
  then show ?thesis
    using assms(1) \<open>bs \<noteq> 0\<close>
    by (cases c) (simp add: CreateFPT_def Let_def fpt_Append_def fpt_writeHeader_def fpt_Get_def FormatMemoPointer_def memoFieldWidth_def)
qed

theorem CreateFPT_wide_blocks_witness:
  "\<exists>f f'. CreateFPT [] 1024 = Inr f \<and> fpt_Append ([0x41], MemoText) f = (f', Inr 0)
    \<and> fpt_Get f' 0 = Inl (Wrap ''block 0 is not a valid memo pointer'' ErrInvalidRecord)"
proof -
  have "block_size_ok 1024 = Inr ()"
    by (simp add: block_size_ok_def FPTMinBlockSize_def FPTMaxBlockSize_def)
  then show ?thesis
    using CreateFPT_wide_blocks [of 1024 "[]" "([0x41], MemoText)"] by auto
qed

end
