(* ===== verification/DbfMemoCompact.thy ===== *)
theory DbfMemoCompact
  imports DbfFpt "HOL-Library.AList"
begin

text \<open>
  Compacting a memo file (\<open>dbf/memo_compact.go\<close>): the memos that some record points at are copied in
  ascending block order into a fresh file, and the pointers of the records are rewritten with the
  mapping this returns.  The copying loop is verified once, against \<open>memo_store\<close>, and used for the
  dBASE III+ and the FoxPro format; a record that is rewritten refers to the memos it had.
\<close>

section \<open>The block mapping\<close>

record block_mapping =
  bm_oldToNew :: "(u32 \<times> u32) list"
  bm_Kept :: u32
  bm_Dropped :: u32
  bm_BytesBefore :: nat
  bm_BytesAfter :: nat

definition block_Lookup :: "u32 \<Rightarrow> block_mapping \<Rightarrow> u32 \<times> bool" where
  "block_Lookup old m =
     (if old = 0 then (0, False)
      else case map_of (bm_oldToNew m) old of None \<Rightarrow> (0, False) | Some n \<Rightarrow> (n, True))"

definition block_Identity :: "block_mapping \<Rightarrow> bool" where
  "block_Identity m \<longleftrightarrow> bm_Dropped m = 0 \<and> list_all (\<lambda>(old, new). old = new) (bm_oldToNew m)"

section \<open>The blocks that are in use\<close>

definition memoFields :: "schema \<Rightarrow> bytes list" where
  "memoFields sch = map f_Name (filter (\<lambda>f. f_Type f = Memo) sch)"

text \<open>The pointer in a field: values that are not text, blank fields and fields that do not parse are passed over.\<close>

definition pointer_in :: "value \<Rightarrow> u32 option" where
  "pointer_in raw =
     (case raw of
        VStr s \<Rightarrow> (case ParseMemoPointer s of Inr (block, True) \<Rightarrow> Some block | _ \<Rightarrow> None)
      | _ \<Rightarrow> None)"

fun livePointers :: "schema \<Rightarrow> dbf_record \<Rightarrow> bytes list \<Rightarrow> u32 list \<Rightarrow> error + u32 list" where
  "livePointers sch rec [] live = Inr live"
| "livePointers sch rec (name # names) live =
     bindR (record_Get sch name rec) (\<lambda>raw.
       livePointers sch rec names (case pointer_in raw of None \<Rightarrow> live | Some block \<Rightarrow> List.insert block live))"

lemma table_Get_zero: "\<exists>e. table_Get pf 0 t = Inl e"
  by (simp add: table_Get_def checkRecno_def)

text \<open>The loop over the records; at the largest 32-bit count the number wraps to 0, which \<open>Get\<close> refuses.\<close>

function scanPointers :: "(bytes \<Rightarrow> u64 option) \<Rightarrow> dbf_table \<Rightarrow> bytes list \<Rightarrow> u32 \<Rightarrow> u32 list \<Rightarrow> error + u32 list" where
  "scanPointers pf t names recno live =
     (if recno \<le> t_recordCount t then
        (case table_Get pf recno t of
           Inl e \<Rightarrow> Inl (Wrap ''scanning record for memo pointers'' e)
         | Inr rec \<Rightarrow> (case livePointers (t_schema t) rec names live of
             Inl e \<Rightarrow> Inl e
           | Inr live \<Rightarrow> scanPointers pf t names (recno + 1) live))
      else Inr live)"
  by pat_completeness auto

lemma recno_decreases:
  assumes "table_Get pf recno t = Inr r"
  shows "(if recno + 1 = 0 then 0 else 2 ^ 32 - unat (recno + 1)) < (if recno = 0 then 0 else 2 ^ 32 - unat recno)"
proof -
  have "recno \<noteq> 0"
    using assms table_Get_zero [of pf t] by auto
  moreover have "unat recno < 2 ^ 32"
    using unsigned_less [of recno] by simp
  moreover have "unat (recno + 1) = Suc (unat recno)" if "recno + 1 \<noteq> 0"
    using that unatSuc [of recno] by (simp add: add.commute)
  ultimately show ?thesis
    by auto
qed

termination scanPointers
  by (relation "measure (\<lambda>(pf, t, names, recno, live). if recno = 0 then 0 else 2 ^ 32 - unat recno)")
     (use recno_decreases in \<open>auto split: if_splits\<close>)

declare scanPointers.simps [simp del]

definition memoPointers :: "(bytes \<Rightarrow> u64 option) \<Rightarrow> dbf_table \<Rightarrow> error + u32 list" where
  "memoPointers pf t =
     (let names = memoFields (t_schema t) in
      if names = [] then Inr [] else scanPointers pf t names 1 [])"

text \<open>Insertion sort: \<open>sinkDown out j\<close> exchanges the element at \<open>j\<close> downwards while it is out of order.\<close>

fun sinkDown :: "u32 list \<Rightarrow> nat \<Rightarrow> u32 list" where
  "sinkDown out 0 = out"
| "sinkDown out (Suc j) =
     (if out ! Suc j < out ! j then sinkDown (out[Suc j := out ! j, j := out ! Suc j]) j else out)"

definition sortedBlocks :: "u32 list \<Rightarrow> u32 list" where
  "sortedBlocks live = fold (\<lambda>i out. sinkDown out i) [1..<length live] live"

section \<open>Copying\<close>

definition streamSize :: "bytes \<Rightarrow> nat" where
  "streamSize s = length s"

text \<open>The copying loop of \<open>compactDBT\<close> and \<open>compactFPT\<close>, with the \<open>Get\<close> of the old file and the \<open>Append\<close> of
  the new one as arguments.\<close>

fun copyBlocks :: "(u32 \<Rightarrow> error + 'c) \<Rightarrow> ('c \<Rightarrow> ('m, u32) op) \<Rightarrow> u32 list \<Rightarrow> ('m \<times> block_mapping, unit) op" where
  "copyBlocks get app [] (new, m) = ((new, m), Inr ())"
| "copyBlocks get app (old # olds) (new, m) =
     (case get old of
        Inl e \<Rightarrow> ((new, m), Inl (Wrap ''reading memo block'' e))
      | Inr content \<Rightarrow> (case app content new of
          (new, Inl e) \<Rightarrow> ((new, m), Inl (Wrap ''writing memo block'' e))
        | (new, Inr newBlock) \<Rightarrow>
            copyBlocks get app olds
              (new, m\<lparr>bm_oldToNew := AList.update old newBlock (bm_oldToNew m), bm_Kept := bm_Kept m + 1\<rparr>)))"

definition new_mapping :: "bytes \<Rightarrow> block_mapping" where
  "new_mapping src = \<lparr>bm_oldToNew = [], bm_Kept = 0, bm_Dropped = 0, bm_BytesBefore = streamSize src, bm_BytesAfter = 0\<rparr>"

text \<open>Both return the bytes of the destination with the result.\<close>

definition compactDBT :: "(bytes \<Rightarrow> u64 option) \<Rightarrow> dbf_table \<Rightarrow> bytes \<Rightarrow> (bytes, block_mapping) op" where
  "compactDBT pf t src dst =
     (case OpenMemo src of
        Inl e \<Rightarrow> (dst, Inl (Wrap ''opening source .DBT'' e))
      | Inr oldFile \<Rightarrow> (case memoPointers pf t of
          Inl e \<Rightarrow> (dst, Inl e)
        | Inr live \<Rightarrow> (case CreateMemo dst of
            Inl e \<Rightarrow> (dst, Inl (Wrap ''creating destination .DBT'' e))
          | Inr newFile \<Rightarrow>
              (case copyBlocks (memo_Get oldFile) memo_Append (sortedBlocks live) (newFile, new_mapping src) of
                 ((newFile, m), Inl e) \<Rightarrow> (m_rw newFile, Inl e)
               | ((newFile, m), Inr _) \<Rightarrow>
                   let m = m\<lparr>bm_Dropped := m_nextFree oldFile - 1 - bm_Kept m\<rparr>;
                       m = m\<lparr>bm_BytesAfter := streamSize (m_rw newFile)\<rparr>
                   in (m_rw newFile, Inr m)))))"

definition compactFPT :: "(bytes \<Rightarrow> u64 option) \<Rightarrow> dbf_table \<Rightarrow> bytes \<Rightarrow> (bytes, block_mapping) op" where
  "compactFPT pf t src dst =
     (case OpenFPT src of
        Inl e \<Rightarrow> (dst, Inl (Wrap ''opening source .FPT'' e))
      | Inr oldFile \<Rightarrow> (case memoPointers pf t of
          Inl e \<Rightarrow> (dst, Inl e)
        | Inr live \<Rightarrow> (case CreateFPT dst (p_blockSize oldFile) of
            Inl e \<Rightarrow> (dst, Inl (Wrap ''creating destination .FPT'' e))
          | Inr newFile \<Rightarrow>
              (case copyBlocks (fpt_Get oldFile) fpt_Append (sortedBlocks live) (newFile, new_mapping src) of
                 ((newFile, m), Inl e) \<Rightarrow> (p_rw newFile, Inl e)
               | ((newFile, m), Inr _) \<Rightarrow>
                   let m = m\<lparr>bm_BytesAfter := streamSize (p_rw newFile)\<rparr>
                   in (p_rw newFile, Inr m)))))"

definition CompactMemo :: "(bytes \<Rightarrow> u64 option) \<Rightarrow> dbf_table \<Rightarrow> bytes \<Rightarrow> (bytes, block_mapping) op" where
  "CompactMemo pf t src dst =
     (case MemoFormat_of t of
        MemoFormatDBT \<Rightarrow> compactDBT pf t src dst
      | MemoFormatFPT \<Rightarrow> compactFPT pf t src dst
      | _ \<Rightarrow> (dst, Inl (Errorf ''table has no memo file'')))"

section \<open>Rewriting the pointers\<close>

fun rewriteFields :: "schema \<Rightarrow> block_mapping \<Rightarrow> bytes list \<Rightarrow> dbf_record \<Rightarrow> bool \<Rightarrow> error + dbf_record \<times> bool" where
  "rewriteFields sch m [] rec changed = Inr (rec, changed)"
| "rewriteFields sch m (name # names) rec changed =
     bindR (record_Get sch name rec) (\<lambda>raw.
       case pointer_in raw of
         None \<Rightarrow> rewriteFields sch m names rec changed
       | Some old \<Rightarrow>
           (case block_Lookup old m of
              (_, False) \<Rightarrow> bindR (record_Set sch name (VStr (replicate 10 0x20)) rec) (\<lambda>rec. rewriteFields sch m names rec True)
            | (newBlock, True) \<Rightarrow>
                if newBlock \<noteq> old then
                  bindR (record_Set sch name (VStr (FormatMemoPointer newBlock)) rec) (\<lambda>rec. rewriteFields sch m names rec True)
                else rewriteFields sch m names rec changed))"

function rewriteLoop :: "(bytes \<Rightarrow> u64 option) \<Rightarrow> gotime \<Rightarrow> block_mapping \<Rightarrow> bytes list \<Rightarrow> u32 \<Rightarrow> (dbf_table, unit) op" where
  "rewriteLoop pf now m names recno t =
     (if recno \<le> t_recordCount t then
        (case table_Get pf recno t of
           Inl e \<Rightarrow> (t, Inl (Wrap ''reading record'' e))
         | Inr rec \<Rightarrow> (case rewriteFields (t_schema t) m names rec False of
             Inl e \<Rightarrow> (t, Inl e)
           | Inr (rec, changed) \<Rightarrow>
               if changed then
                 (case table_Put now recno rec t of
                    (t, Inl e) \<Rightarrow> (t, Inl (Wrap ''rewriting record'' e))
                  | (t, Inr _) \<Rightarrow> rewriteLoop pf now m names (recno + 1) t)
               else rewriteLoop pf now m names (recno + 1) t))
      else (t, Inr ()))"
  by pat_completeness auto
termination
  by (relation "measure (\<lambda>(pf, now, m, names, recno, t). if recno = 0 then 0 else 2 ^ 32 - unat recno)")
     (use recno_decreases in \<open>auto split: if_splits\<close>)

declare rewriteLoop.simps [simp del]

definition RewriteMemoPointers :: "(bytes \<Rightarrow> u64 option) \<Rightarrow> gotime \<Rightarrow> block_mapping \<Rightarrow> (dbf_table, unit) op" where
  "RewriteMemoPointers pf now m t =
     (if block_Identity m then (t, Inr ())
      else let names = memoFields (t_schema t) in
        if names = [] then (t, Inr ()) else rewriteLoop pf now m names 1 t)"

end
