(* ===== verification/DbfMemoSpec.thy ===== *)
theory DbfMemoSpec
  imports DbfMemoCompact "HOL-Library.Multiset"
begin

text \<open>
  What compaction does: the sort of the live blocks, the scan that collects them, the copying loop
  over any \<open>memo_store\<close>, and the rewriting of the pointers in the records.
\<close>

section \<open>The insertion sort\<close>

lemma sinkDown_insert:
  assumes "sorted xs"
  shows "\<exists>zs. sinkDown (xs @ x # ys) (length xs) = zs @ ys \<and> sorted zs \<and> mset zs = mset (x # xs)"
  using assms
proof (induction xs arbitrary: ys rule: rev_induct)
  case (snoc y xs)
  have s: "sorted xs" "\<forall>a \<in> set xs. a \<le> y"
    using snoc.prems by (simp_all add: sorted_append)
  let ?out = "(xs @ [y]) @ x # ys"
  have at: "?out ! Suc (length xs) = x" "?out ! length xs = y"
    "?out[Suc (length xs) := y, length xs := x] = xs @ x # y # ys"
    by (simp_all add: nth_append list_update_append)
  show ?case
  proof (cases "x < y")
    case True
    obtain zs where zs: "sinkDown (xs @ x # y # ys) (length xs) = zs @ y # ys" "sorted zs" "mset zs = mset (x # xs)"
      using snoc.IH [OF s(1), of "y # ys"] by blast
    have "set zs = insert x (set xs)"
      using mset_eq_setD [OF zs(3)] by simp
    then have "sorted (zs @ [y])"
      using zs(2) s(2) True by (auto simp: sorted_append)
    then show ?thesis
      using zs(1,3) True at by (intro exI [of _ "zs @ [y]"]) simp
  next
    case False
    then have "sorted (xs @ [y, x])"
      using s by (auto simp: sorted_append intro: order_trans)
    then show ?thesis
      using False at by (intro exI [of _ "xs @ [y, x]"]) simp
  qed
qed simp

lemma sortedBlocks_sort: "sortedBlocks live = sort live"
proof -
  have "\<exists>zs. fold (\<lambda>i out. sinkDown out i) [1..<Suc n] live = zs @ drop (Suc n) live \<and> sorted zs
      \<and> mset zs = mset (take (Suc n) live)" if "Suc n \<le> length live" for n
    using that
  proof (induction n)
    case 0
    then show ?case
      by (cases live) simp_all
  next
    case (Suc n)
    obtain zs where zs: "fold (\<lambda>i out. sinkDown out i) [1..<Suc n] live = zs @ drop (Suc n) live" "sorted zs"
        "mset zs = mset (take (Suc n) live)"
      using Suc by auto
    have len: "length zs = Suc n"
      using arg_cong [OF zs(3), of size] Suc.prems by simp
    have "drop (Suc n) live = live ! Suc n # drop (Suc (Suc n)) live"
      using Suc.prems by (intro Cons_nth_drop_Suc [symmetric]) simp
    then obtain zs' where "sinkDown (zs @ drop (Suc n) live) (length zs) = zs' @ drop (Suc (Suc n)) live" "sorted zs'"
        "mset zs' = mset (live ! Suc n # zs)"
      using sinkDown_insert [OF zs(2), of "live ! Suc n" "drop (Suc (Suc n)) live"] by auto
    moreover have "fold (\<lambda>i out. sinkDown out i) [1..<Suc (Suc n)] live = sinkDown (zs @ drop (Suc n) live) (Suc n)"
      using zs(1) by (simp add: upt_Suc_append del: upt_Suc sinkDown.simps)
    moreover have "take (Suc (Suc n)) live = take (Suc n) live @ [live ! Suc n]"
      using Suc.prems by (intro take_Suc_conv_app_nth) simp
    ultimately show ?case
      using zs(3) len by (intro exI [of _ zs']) (simp del: sinkDown.simps upt_Suc)
  qed
  note all = this
  show ?thesis
  proof (cases "length live")
    case (Suc n)
    then obtain zs where "sortedBlocks live = zs" "sorted zs" "mset zs = mset live"
      using all [of n] by (auto simp: sortedBlocks_def simp del: upt_Suc)
    then show ?thesis
      by (metis properties_for_sort)
  qed (simp add: sortedBlocks_def)
qed

section \<open>The fields by position\<close>

definition distinct_names :: "schema \<Rightarrow> bool" where
  "distinct_names sch \<longleftrightarrow> distinct (map (\<lambda>f. ToUpper (f_Name f)) sch)"

definition memo_at :: "schema \<Rightarrow> nat list" where
  "memo_at sch = filter (\<lambda>i. f_Type (sch ! i) = Memo) [0..<length sch]"

lemma memoFields_at: "memoFields sch = map (\<lambda>i. f_Name (sch ! i)) (memo_at sch)"
proof -
  have "filter (\<lambda>f. f_Type f = Memo) (map ((!) sch) [0..<length sch]) = map ((!) sch) (memo_at sch)"
    by (simp add: memo_at_def filter_map comp_def)
  then show ?thesis
    by (simp add: memoFields_def map_nth)
qed

lemma memo_at_set: "i \<in> set (memo_at sch) \<longleftrightarrow> i < length sch \<and> f_Type (sch ! i) = Memo" "distinct (memo_at sch)"
  by (auto simp: memo_at_def)

lemma memo_at_range: "set (memo_at sch) \<subseteq> {..<length sch}"
  by (auto simp: memo_at_def)

lemma field_index_at:
  "distinct_names sch \<Longrightarrow> i < length sch \<Longrightarrow> field_index sch (ToUpper (f_Name (sch ! i))) = Some i"
proof (induction sch arbitrary: i)
  case (Cons f fs)
  show ?case
  proof (cases i)
    case (Suc j)
    then have "ToUpper (f_Name (fs ! j)) \<in> set (map (\<lambda>f. ToUpper (f_Name f)) fs)"
      using Cons.prems(2) by simp
    then show ?thesis
      using Cons Suc by (auto simp: distinct_names_def)
  qed simp
qed simp

lemma record_at:
  assumes "distinct_names sch" "i < length sch" "length (r_Values r) = length sch"
  shows "record_Get sch (f_Name (sch ! i)) r = Inr (r_Values r ! i)"
    and "validValue (sch ! i) v \<Longrightarrow> record_Set sch (f_Name (sch ! i)) v r = Inr (r\<lparr>r_Values := (r_Values r)[i := v]\<rparr>)"
  using assms field_index_at [OF assms(1,2)]
  by (simp_all add: record_Get_def record_Set_def schemaFieldIndex_def GetIndex_def SetIndex_def)

section \<open>The scan for live blocks\<close>

definition refers :: "schema \<Rightarrow> dbf_record \<Rightarrow> u32 set" where
  "refers sch r = {b. \<exists>i \<in> set (memo_at sch). pointer_in (r_Values r ! i) = Some b}"

lemma livePointers_at:
  assumes "distinct_names sch" "length (r_Values r) = length sch" "set is \<subseteq> {..<length sch}"
  shows "\<exists>live'. livePointers sch r (map (\<lambda>i. f_Name (sch ! i)) is) live = Inr live'
    \<and> set live' = set live \<union> {b. \<exists>i \<in> set is. pointer_in (r_Values r ! i) = Some b} \<and> (distinct live \<longrightarrow> distinct live')"
  using assms(3)
proof (induction "is" arbitrary: live)
  case (Cons i "is")
  let ?live = "case pointer_in (r_Values r ! i) of None \<Rightarrow> live | Some block \<Rightarrow> List.insert block live"
  have g: "record_Get sch (f_Name (sch ! i)) r = Inr (r_Values r ! i)"
    using record_at(1) [OF assms(1) _ assms(2)] Cons.prems by simp
  obtain live' where "livePointers sch r (map (\<lambda>i. f_Name (sch ! i)) is) ?live = Inr live'"
    "set live' = set ?live \<union> {b. \<exists>i \<in> set is. pointer_in (r_Values r ! i) = Some b}" "distinct ?live \<longrightarrow> distinct live'"
    using Cons.IH [of ?live] Cons.prems by auto
  then show ?case
    using g by (intro exI [of _ live']) (auto split: option.splits)
qed simp

definition records_ok :: "(bytes \<Rightarrow> u64 option) \<Rightarrow> dbf_table \<Rightarrow> bool" where
  "records_ok pf t \<longleftrightarrow> (\<forall>n. n \<noteq> 0 \<longrightarrow> n \<le> t_recordCount t \<longrightarrow>
     (\<exists>r. table_Get pf n t = Inr r \<and> length (r_Values r) = length (t_schema t)))"

definition live_blocks :: "(bytes \<Rightarrow> u64 option) \<Rightarrow> dbf_table \<Rightarrow> u32 set" where
  "live_blocks pf t = {b. \<exists>n r. table_Get pf n t = Inr r \<and> b \<in> refers (t_schema t) r}"

lemma unat_next: "(n :: u32) \<le> m \<Longrightarrow> m \<noteq> - 1 \<Longrightarrow> n + 1 \<noteq> 0 \<and> unat (n + 1) = Suc (unat n)"
  using unatSuc [of n] by (metis add.commute add_eq_0_iff2 max_word_max order_antisym)

lemma table_Get_range: "wf_table t \<Longrightarrow> table_Get pf n t = Inr r \<Longrightarrow> n \<noteq> 0 \<and> n \<le> t_recordCount t"
  using Get_rows [of t pf n] by (auto simp: word_le_nat_alt row_count_def not_less split: if_splits)

lemma scanPointers_ok:
  assumes t: "distinct_names (t_schema t)" "records_ok pf t" "t_recordCount t \<noteq> - 1" and n: "n \<noteq> 0"
    and d: "distinct live"
  shows "\<exists>live'. scanPointers pf t (memoFields (t_schema t)) n live = Inr live' \<and> distinct live'
    \<and> set live' = set live \<union> {b. \<exists>k r. n \<le> k \<and> k \<le> t_recordCount t \<and> table_Get pf k t = Inr r \<and> b \<in> refers (t_schema t) r}"
  using n d
proof (induction "2 ^ 32 - unat n" arbitrary: n live rule: less_induct)
  case less
  show ?case
  proof (cases "n \<le> t_recordCount t")
    case False
    then show ?thesis
      using less.prems by (subst scanPointers.simps) auto
  next
    case True
    obtain r where r: "table_Get pf n t = Inr r" "length (r_Values r) = length (t_schema t)"
      using t(2) True less.prems(1) by (auto simp: records_ok_def)
    obtain live1 where l1: "livePointers (t_schema t) r (memoFields (t_schema t)) live = Inr live1"
      "set live1 = set live \<union> refers (t_schema t) r" "distinct live1"
      using livePointers_at [OF t(1) r(2) memo_at_range, of live] less.prems(2)
      unfolding memoFields_at refers_def by blast
    note nx = unat_next [OF True t(3)]
    have "2 ^ 32 - unat (n + 1) < 2 ^ 32 - unat n"
      using nx unsigned_less [of n, where 'a = nat] by simp
    then obtain live' where l': "scanPointers pf t (memoFields (t_schema t)) (n + 1) live1 = Inr live'" "distinct live'"
      "set live' = set live1 \<union> {b. \<exists>k r. n + 1 \<le> k \<and> k \<le> t_recordCount t \<and> table_Get pf k t = Inr r \<and> b \<in> refers (t_schema t) r}"
      using less.hyps [of "n + 1" live1] nx l1(3) by blast
    have "n \<le> k \<longleftrightarrow> k = n \<or> n + 1 \<le> k" for k
      using nx by (auto simp: word_le_nat_alt word_unat_eq_iff)
    then show ?thesis
      using True r(1) l1 l' by (subst scanPointers.simps) auto
  qed
qed

lemma memoPointers_ok:
  assumes wf: "wf_table t" and t: "distinct_names (t_schema t)" "records_ok pf t" "t_recordCount t \<noteq> - 1"
  shows "\<exists>live. memoPointers pf t = Inr live \<and> distinct live \<and> set live = live_blocks pf t"
proof (cases "memoFields (t_schema t) = []")
  case True
  then have "live_blocks pf t = {}"
    by (simp add: live_blocks_def refers_def memoFields_at)
  then show ?thesis
    using True by (simp add: memoPointers_def)
next
  case False
  have "1 \<le> k" if "k \<noteq> 0" for k :: u32
    using that by (metis word_gt_0 inc_le add_0)
  then have "{b. \<exists>k r. 1 \<le> k \<and> k \<le> t_recordCount t \<and> table_Get pf k t = Inr r \<and> b \<in> refers (t_schema t) r} = live_blocks pf t"
    using table_Get_range [OF wf] unfolding live_blocks_def by blast
  then show ?thesis
    using scanPointers_ok [OF t, of 1 "[]"] False by (simp add: memoPointers_def)
qed

section \<open>Copying\<close>

text \<open>The copying loop over any two memo files: every block that is stored is copied, the mapping sends it
  to a block of the new file that holds the same memo, and the loop ends without an error.\<close>

definition copied :: "('m \<Rightarrow> u32 \<Rightarrow> 'c \<Rightarrow> bool) \<Rightarrow> u32 set \<Rightarrow> 'm \<Rightarrow> (u32 \<Rightarrow> error + 'c) \<Rightarrow> block_mapping \<Rightarrow> bool" where
  "copied stored olds new get m \<longleftrightarrow> (\<forall>b \<in> olds. \<exists>n c. map_of (bm_oldToNew m) b = Some n \<and> get b = Inr c \<and> stored new n c)"

definition copy_of :: "('m \<Rightarrow> u32 \<Rightarrow> 'c \<Rightarrow> bool) \<Rightarrow> 'm \<Rightarrow> (u32 \<Rightarrow> error + 'c) \<Rightarrow> u32 \<Rightarrow> u32 \<Rightarrow> bool" where
  "copy_of stored new get b n \<longleftrightarrow> (\<exists>c. get b = Inr c \<and> stored new n c)"

context memo_store
begin

lemma copyBlocks_ok:
  assumes "ok old" "ok new" "distinct bs" "\<forall>b \<in> set bs. \<exists>c. stored old b c"
    and "used new + (\<Sum>b \<leftarrow> bs. need new (projr (mget old b))) < 2 ^ 32"
  shows "\<exists>new' m'. copyBlocks (mget old) mappend bs (new, m) = ((new', m'), Inr ()) \<and> ok new'
    \<and> copied stored (set bs) new' (mget old) m' \<and> (\<forall>b. b \<notin> set bs \<longrightarrow> map_of (bm_oldToNew m') b = map_of (bm_oldToNew m) b)
    \<and> (\<forall>b c. stored new b c \<longrightarrow> stored new' b c) \<and> need new' = need new"
  using assms(2-5)
proof (induction bs arbitrary: new m)
  case (Cons b bs)
  obtain c where c: "stored old b c"
    using Cons.prems(3) by auto
  note get = get_stored [OF assms(1) c]
  have room: "used new + need new c < 2 ^ 32"
    using Cons.prems(4) get by simp
  obtain new1 where n1: "mappend c new = (new1, Inr (word_of_nat (used new)))" "ok new1"
      "stored new1 (word_of_nat (used new)) c" "used new1 = used new + need new c" "need new1 = need new"
      "\<forall>b' c'. stored new b' c' \<longrightarrow> stored new1 b' c'"
    using append_stored [OF Cons.prems(1) _ room] stored_block [OF c] by blast
  define m1 where "m1 = m\<lparr>bm_oldToNew := AList.update b (word_of_nat (used new)) (bm_oldToNew m), bm_Kept := bm_Kept m + 1\<rparr>"
  have "used new1 + (\<Sum>b \<leftarrow> bs. need new1 (projr (mget old b))) < 2 ^ 32"
    using Cons.prems(4) get n1(4,5) by simp
  then obtain new' m' where r: "copyBlocks (mget old) mappend bs (new1, m1) = ((new', m'), Inr ())" "ok new'"
      "copied stored (set bs) new' (mget old) m'" "\<forall>b. b \<notin> set bs \<longrightarrow> map_of (bm_oldToNew m') b = map_of (bm_oldToNew m1) b"
      "\<forall>b c. stored new1 b c \<longrightarrow> stored new' b c" "need new' = need new1"
    using Cons.IH [of new1 m1] Cons.prems(2,3) n1(2) by auto
  have "map_of (bm_oldToNew m') b = Some (word_of_nat (used new))"
    using r(4) Cons.prems(2) by (simp add: m1_def update_conv)
  moreover have "copyBlocks (mget old) mappend (b # bs) (new, m) = ((new', m'), Inr ())"
    using get n1(1) r(1) by (simp add: m1_def)
  moreover have "\<forall>b'. b' \<notin> set (b # bs) \<longrightarrow> map_of (bm_oldToNew m') b' = map_of (bm_oldToNew m) b'"
    using r(4) by (simp add: m1_def update_conv)
  ultimately show ?case
    using get n1(3,5,6) r(2,3,5,6) by (auto simp: copied_def)
qed (simp add: copied_def)

text \<open>What the pointers then refer to.\<close>

lemma copied_get:
  assumes "copied stored olds new get m" "b \<in> olds" "b \<noteq> 0"
  shows "\<exists>n. block_Lookup b m = (n, True) \<and> n \<noteq> 0 \<and> copy_of stored new get b n"
  using assms stored_block unfolding copied_def copy_of_def block_Lookup_def by fastforce

end

section \<open>Rewriting a record\<close>

text \<open>A memo value under the mapping, and the record with its memo fields sent through it.\<close>

definition redirect :: "block_mapping \<Rightarrow> value \<Rightarrow> value" where
  "redirect m v =
     (case pointer_in v of
        None \<Rightarrow> v
      | Some old \<Rightarrow> (case block_Lookup old m of
          (_, False) \<Rightarrow> VStr (replicate 10 0x20)
        | (n, True) \<Rightarrow> if n \<noteq> old then VStr (FormatMemoPointer n) else v))"

definition redirected :: "block_mapping \<Rightarrow> nat list \<Rightarrow> dbf_record \<Rightarrow> dbf_record" where
  "redirected m is r =
     r\<lparr>r_Values := map (\<lambda>i. if i \<in> set is then redirect m (r_Values r ! i) else r_Values r ! i) [0..<length (r_Values r)]\<rparr>"

lemma redirected_nth:
  "i < length (r_Values r) \<Longrightarrow>
   r_Values (redirected m is r) ! i = (if i \<in> set is then redirect m (r_Values r ! i) else r_Values r ! i)"
  and redirected_length [simp]: "length (r_Values (redirected m is r)) = length (r_Values r)"
  and redirected_deleted [simp]: "r_Deleted (redirected m is r) = r_Deleted r"
  by (simp_all add: redirected_def)

lemma redirected_Nil [simp]: "redirected m [] r = r"
  by (simp add: redirected_def map_nth)

lemma redirected_Cons:
  assumes "i \<notin> set is" "i < length (r_Values r)"
  shows "redirected m is (r\<lparr>r_Values := (r_Values r)[i := redirect m (r_Values r ! i)]\<rparr>) = redirected m (i # is) r"
  using assms by (auto simp: redirected_def nth_list_update intro!: dbf_record.equality nth_equalityI)

lemma rewriteFields_at:
  assumes "distinct_names sch" "length (r_Values r) = length sch" "distinct is" "set is \<subseteq> set (memo_at sch)"
  shows "\<exists>ch'. rewriteFields sch m (map (\<lambda>i. f_Name (sch ! i)) is) r ch = Inr (redirected m is r, ch')
    \<and> (\<not> ch' \<longrightarrow> \<not> ch \<and> redirected m is r = r)"
  using assms(2-4)
proof (induction "is" arbitrary: r ch)
  case (Cons i "is")
  let ?v = "r_Values r ! i" and ?r = "r\<lparr>r_Values := (r_Values r)[i := redirect m (r_Values r ! i)]\<rparr>"
  have i: "i < length sch" "f_Type (sch ! i) = Memo"
    using Cons.prems(3) by (auto simp: memo_at_def)
  note at = record_at [OF assms(1) i(1) Cons.prems(1)]
  have put: "record_Set sch (f_Name (sch ! i)) (VStr s) r = Inr (r\<lparr>r_Values := (r_Values r)[i := VStr s]\<rparr>)" for s
    using i(2) by (intro at(2)) (simp add: validValue_def Let_def field_types)
  have "redirected m is ?r = redirected m (i # is) r"
    using Cons.prems i(1) by (intro redirected_Cons) simp_all
  then obtain ch1 ch2 where
    same: "rewriteFields sch m (map (\<lambda>i. f_Name (sch ! i)) is) r ch = Inr (redirected m is r, ch1)"
      "\<not> ch1 \<longrightarrow> \<not> ch \<and> redirected m is r = r"
    and new: "rewriteFields sch m (map (\<lambda>i. f_Name (sch ! i)) is) ?r True = Inr (redirected m (i # is) r, ch2)" "ch2"
    using Cons.IH [of r ch] Cons.IH [of ?r True] Cons.prems by auto
  show ?case
  proof (cases "redirect m ?v = ?v")
    case True
    then have "redirected m is r = redirected m (i # is) r"
      using \<open>redirected m is ?r = redirected m (i # is) r\<close> by simp
    then show ?thesis
      using same new True at(1) put
      by (auto simp: redirect_def split: option.splits prod.splits bool.splits if_splits)
  next
    case False
    then show ?thesis
      using new at(1) put by (auto simp: redirect_def split: option.splits prod.splits bool.splits if_splits)
  qed
qed simp

section \<open>Rewriting the table\<close>

definition mapped :: "schema \<Rightarrow> block_mapping \<Rightarrow> dbf_record \<Rightarrow> bool" where
  "mapped sch m r \<longleftrightarrow> record_storable sch r \<and> (\<forall>b \<in> refers sch r. \<exists>n. block_Lookup b m = (n, True) \<and> n \<noteq> 0)"

definition memo_widths :: "schema \<Rightarrow> bool" where
  "memo_widths sch \<longleftrightarrow> list_all (\<lambda>f. f_Type f = Memo \<longrightarrow> memoFieldWidth \<le> unat (f_Length f)) sch"

text \<open>The tables whose records are read and written without a text codec or null flags.\<close>

definition plain :: "dbf_table \<Rightarrow> bool" where
  "plain t \<longleftrightarrow> wf_table t \<and> t_codec t = None \<and> nullFlagsFieldIndex (t_schema t) = None \<and> distinct_names (t_schema t)
     \<and> memo_widths (t_schema t) \<and> t_recordCount t \<noteq> - 1"

lemma redirect_pointer:
  assumes "pointer_in v = Some b" "block_Lookup b m = (n, True)" "n \<noteq> 0"
  shows "pointer_in (redirect m v) = Some n"
  using assms memo_pointer(1) [OF assms(3)] by (auto simp: redirect_def pointer_in_def)

lemma redirect_storable:
  assumes "storable f v" "f_Type f = Memo" "memoFieldWidth \<le> unat (f_Length f)"
    and "\<And>b. pointer_in v = Some b \<Longrightarrow> \<exists>n. block_Lookup b m = (n, True) \<and> n \<noteq> 0"
  shows "storable f (redirect m v)"
proof (cases "pointer_in v")
  case (Some b)
  then obtain n where n: "block_Lookup b m = (n, True)" "n \<noteq> 0"
    using assms(4) by blast
  have "last (FormatMemoPointer n) \<noteq> 0x20"
    using memo_pointer(3) [OF n(2)] dec_digits_edges by simp
  then have "storable f (VStr (FormatMemoPointer n))"
    using assms(2,3) memo_pointer(2) [OF n(2)] by (simp add: storable_def Let_def)
  then show ?thesis
    using assms(1) Some n by (simp add: redirect_def)
qed (use assms(1) in \<open>simp add: redirect_def\<close>)

lemma redirected_storable:
  assumes "mapped sch m r" "memo_widths sch"
  shows "record_storable sch (redirected m (memo_at sch) r)"
proof -
  have len: "length (r_Values r) = length sch" and st: "\<And>i. i < length sch \<Longrightarrow> storable (sch ! i) (r_Values r ! i)"
    using assms(1) by (auto simp: mapped_def record_storable_def list_all2_conv_all_nth)
  have "storable (sch ! i) (redirect m (r_Values r ! i))" if "i \<in> set (memo_at sch)" for i
  proof (rule redirect_storable)
    show "storable (sch ! i) (r_Values r ! i)" "f_Type (sch ! i) = Memo" "memoFieldWidth \<le> unat (f_Length (sch ! i))"
      using that st assms(2) by (auto simp: memo_at_set memo_widths_def list_all_length)
    show "\<exists>n. block_Lookup b m = (n, True) \<and> n \<noteq> 0" if "pointer_in (r_Values r ! i) = Some b" for b
      using that \<open>i \<in> set (memo_at sch)\<close> assms(1) unfolding mapped_def refers_def by blast
  qed
  then show ?thesis
    using len st by (auto simp: record_storable_def list_all2_conv_all_nth redirected_nth)
qed

lemma rewriteLoop_ok:
  assumes "plain t" "persisted tables t" "clock_ok now" "k \<noteq> 0"
    and "\<And>n. k \<le> n \<Longrightarrow> n \<le> t_recordCount t \<Longrightarrow> \<exists>r. table_Get pf n t = Inr r \<and> mapped (t_schema t) m r"
  shows "\<exists>t'. rewriteLoop pf now m (memoFields (t_schema t)) k t = (t', Inr ()) \<and> plain t' \<and> persisted tables t' \<and> kept t t'
    \<and> t_recordCount t' = t_recordCount t
    \<and> (\<forall>n. table_Get pf n t' = (if k \<le> n then map_sum id (redirected m (memo_at (t_schema t))) (table_Get pf n t)
        else table_Get pf n t))"
  using assms
proof (induction "2 ^ 32 - unat k" arbitrary: k t rule: less_induct)
  case less
  let ?sch = "t_schema t" and ?red = "redirected m (memo_at (t_schema t))"
  have wf: "wf_table t"
    using less.prems(1) by (simp add: plain_def)
  show ?case
  proof (cases "k \<le> t_recordCount t")
    case False
    have "table_Get pf n t = map_sum id ?red (table_Get pf n t)" if "k \<le> n" for n
      using table_Get_range [OF wf, of pf n] False that by (cases "table_Get pf n t") force+
    then show ?thesis
      using False less.prems by (subst rewriteLoop.simps) auto
  next
    case True
    obtain r where r: "table_Get pf k t = Inr r" "mapped ?sch m r"
      using less.prems(5) True by blast
    have len: "length (r_Values r) = length ?sch"
      using r(2) by (auto simp: mapped_def record_storable_def dest: list_all2_lengthD)
    obtain ch where ch: "rewriteFields ?sch m (memoFields ?sch) r False = Inr (?red r, ch)" "\<not> ch \<longrightarrow> ?red r = r"
      using rewriteFields_at [OF _ len memo_at_set(2) order_refl, of m False] less.prems(1)
      by (auto simp: memoFields_at plain_def)
    have w: "writes t (?red r) (?red r)"
      using redirected_storable [OF r(2)] less.prems(1) by (simp add: writes_def applyEncode_def plain_def)
    obtain t1 where t1: "(if ch then table_Put now k (?red r) t else (t, Inr ())) = (t1, Inr ())" "wf_table t1" "persisted tables t1"
        "kept t t1" "t_recordCount t1 = t_recordCount t" "table_Get pf k t1 = Inr (?red r)"
        "\<forall>n. n \<noteq> k \<longrightarrow> table_Get pf n t1 = table_Get pf n t"
      using Put_Get [OF wf less.prems(2,3) w less.prems(4) True, of pf] less.prems(1,2) r(1) ch(2) wf
      by (cases ch) (auto simp: plain_def applyDecode_def)
    have p1: "plain t1" "t_schema t1 = ?sch"
      using t1(2,4,5) less.prems(1) by (simp_all add: plain_def kept_def)
    note nx = unat_next [OF True]
    have k1: "k + 1 \<noteq> 0" "unat (k + 1) = Suc (unat k)"
      using nx less.prems(1) by (simp_all add: plain_def)
    then have le: "k \<le> n \<longleftrightarrow> n = k \<or> k + 1 \<le> n" "k + 1 \<le> n \<Longrightarrow> n \<noteq> k" for n
      by (auto simp: word_le_nat_alt word_unat_eq_iff)
    have "2 ^ 32 - unat (k + 1) < 2 ^ 32 - unat k"
      using k1 unsigned_less [of k, where 'a = nat] by simp
    then obtain t' where t': "rewriteLoop pf now m (memoFields ?sch) (k + 1) t1 = (t', Inr ())" "plain t'" "persisted tables t'"
        "kept t1 t'" "t_recordCount t' = t_recordCount t1"
        "\<forall>n. table_Get pf n t' = (if k + 1 \<le> n then map_sum id ?red (table_Get pf n t1) else table_Get pf n t1)"
      using less.hyps [of "k + 1" t1] p1 t1(3,5,7) k1(1) less.prems(3,5) le by auto
    have "rewriteLoop pf now m (memoFields ?sch) k t = (t', Inr ())"
      using True r(1) ch(1) t1(1) t'(1) by (subst rewriteLoop.simps) (cases ch; simp)
    moreover have "\<forall>n. table_Get pf n t' = (if k \<le> n then map_sum id ?red (table_Get pf n t) else table_Get pf n t)"
      using t'(6) t1(6,7) r(1) le by auto
    ultimately show ?thesis
      using t'(2,3,5) t1(5) kept_trans [OF t1(4) t'(4)] by auto
  qed
qed

section \<open>The whole compaction\<close>

text \<open>Two records whose memo pointers are related by \<open>R\<close>, or absent in both, with the same other values.\<close>

definition same_memos :: "(u32 \<Rightarrow> u32 \<Rightarrow> bool) \<Rightarrow> schema \<Rightarrow> dbf_record \<Rightarrow> dbf_record \<Rightarrow> bool" where
  "same_memos R sch r r' \<longleftrightarrow> r_Deleted r' = r_Deleted r \<and> length (r_Values r') = length (r_Values r)
     \<and> (\<forall>i < length sch. if f_Type (sch ! i) = Memo
          then rel_option R (pointer_in (r_Values r ! i)) (pointer_in (r_Values r' ! i))
            \<and> (pointer_in (r_Values r ! i) = None \<longrightarrow> r_Values r' ! i = r_Values r ! i)
          else r_Values r' ! i = r_Values r ! i)"

definition all_storable :: "(bytes \<Rightarrow> u64 option) \<Rightarrow> dbf_table \<Rightarrow> bool" where
  "all_storable pf t \<longleftrightarrow> (\<forall>n. n \<noteq> 0 \<longrightarrow> n \<le> t_recordCount t \<longrightarrow> (\<exists>r. table_Get pf n t = Inr r \<and> record_storable (t_schema t) r))"

lemma all_storable_records: "all_storable pf t \<Longrightarrow> records_ok pf t"
  unfolding all_storable_def records_ok_def record_storable_def by (metis list_all2_lengthD)

lemma pointer_nonzero: "pointer_in v = Some b \<Longrightarrow> b \<noteq> 0"
  by (cases v) (auto simp: pointer_in_def ParseMemoPointer_def Let_def split: sum.splits prod.splits bool.splits if_splits option.splits)

context memo_store
begin

lemma redirected_memos:
  assumes "copied stored olds new get m" "refers sch r \<subseteq> olds" "record_storable sch r"
  shows "mapped sch m r" and "same_memos (copy_of stored new get) sch r (redirected m (memo_at sch) r)"
proof -
  have at: "\<exists>n. block_Lookup b m = (n, True) \<and> n \<noteq> 0 \<and> copy_of stored new get b n" if "b \<in> refers sch r" for b
    using that assms(2) pointer_nonzero by (intro copied_get [OF assms(1)]) (auto simp: refers_def)
  then show "mapped sch m r"
    using assms(3) unfolding mapped_def by blast
  have len: "length (r_Values r) = length sch"
    using assms(3) by (auto simp: record_storable_def dest: list_all2_lengthD)
  have "rel_option (copy_of stored new get) (pointer_in (r_Values r ! i)) (pointer_in (redirect m (r_Values r ! i)))
    \<and> (pointer_in (r_Values r ! i) = None \<longrightarrow> redirect m (r_Values r ! i) = r_Values r ! i)"
    if "i \<in> set (memo_at sch)" for i
  proof (cases "pointer_in (r_Values r ! i)")
    case None
    then show ?thesis
      by (simp add: redirect_def)
  next
    case (Some b)
    then have "b \<in> refers sch r"
      using that by (auto simp: refers_def)
    then obtain n where "block_Lookup b m = (n, True)" "n \<noteq> 0" "copy_of stored new get b n"
      using at by blast
    then show ?thesis
      using redirect_pointer [OF Some] Some by simp
  qed
  then show "same_memos (copy_of stored new get) sch r (redirected m (memo_at sch) r)"
    using len by (auto simp: same_memos_def redirected_nth memo_at_set)
qed

text \<open>The identity mapping leaves every pointer, so leaving the table alone is rewriting it.\<close>

lemma redirected_identity:
  assumes "block_Identity m \<or> memoFields sch = []" "mapped sch m r"
  shows "redirected m (memo_at sch) r = r"
proof -
  have "redirect m (r_Values r ! i) = r_Values r ! i" if i: "i \<in> set (memo_at sch)" for i
  proof (cases "pointer_in (r_Values r ! i)")
    case (Some b)
    have "block_Identity m"
      using assms(1) i by (auto simp: memoFields_at)
    then have "n = b" if "block_Lookup b m = (n, True)" for n
      using that by (auto simp: block_Identity_def block_Lookup_def list_all_iff dest!: map_of_SomeD split: if_splits option.splits)
    then show ?thesis
      using assms(2) i Some unfolding mapped_def refers_def redirect_def by fastforce
  qed (simp add: redirect_def)
  then have "redirected m (memo_at sch) r = r\<lparr>r_Values := map ((!) (r_Values r)) [0..<length (r_Values r)]\<rparr>"
    unfolding redirected_def by (intro dbf_record.fold_congs refl) (auto intro!: map_cong)
  then show ?thesis
    by (simp add: map_nth)
qed

lemma RewriteMemoPointers_ok:
  assumes t: "plain t" "persisted tables t" "clock_ok now" "all_storable pf t"
    and m: "copied stored (live_blocks pf t) new get m"
  shows "\<exists>t'. RewriteMemoPointers pf now m t = (t', Inr ()) \<and> plain t' \<and> persisted tables t' \<and> kept t t'
    \<and> t_recordCount t' = t_recordCount t
    \<and> (\<forall>n r. table_Get pf n t = Inr r \<longrightarrow>
         (\<exists>r'. table_Get pf n t' = Inr r' \<and> same_memos (copy_of stored new get) (t_schema t) r r'))"
proof -
  let ?red = "redirected m (memo_at (t_schema t))"
  have wf: "wf_table t"
    using t(1) by (simp add: plain_def)
  have rec: "mapped (t_schema t) m r \<and> same_memos (copy_of stored new get) (t_schema t) r (?red r)"
    if "table_Get pf n t = Inr r" for n r
  proof -
    have "record_storable (t_schema t) r"
      using t(4) table_Get_range [OF wf that] that by (auto simp: all_storable_def)
    moreover have "refers (t_schema t) r \<subseteq> live_blocks pf t"
      using that by (auto simp: live_blocks_def)
    ultimately show ?thesis
      using redirected_memos [OF m] by blast
  qed
  have all: "\<exists>r. table_Get pf n t = Inr r \<and> mapped (t_schema t) m r" if "n \<noteq> 0" "n \<le> t_recordCount t" for n
    using t(4) that rec unfolding all_storable_def by blast
  have "\<exists>t'. RewriteMemoPointers pf now m t = (t', Inr ()) \<and> plain t' \<and> persisted tables t' \<and> kept t t'
    \<and> t_recordCount t' = t_recordCount t \<and> (\<forall>n r. table_Get pf n t = Inr r \<longrightarrow> table_Get pf n t' = Inr (?red r))"
  proof (cases "block_Identity m \<or> memoFields (t_schema t) = []")
    case True
    then have "RewriteMemoPointers pf now m t = (t, Inr ())"
      by (auto simp: RewriteMemoPointers_def Let_def)
    then show ?thesis
      using t(1,2) redirected_identity [OF True] rec by auto
  next
    case False
    then have "RewriteMemoPointers pf now m t = rewriteLoop pf now m (memoFields (t_schema t)) 1 t"
      by (simp add: RewriteMemoPointers_def Let_def)
    moreover obtain t' where t': "rewriteLoop pf now m (memoFields (t_schema t)) 1 t = (t', Inr ())" "plain t'" "persisted tables t'"
        "kept t t'" "t_recordCount t' = t_recordCount t"
        "\<forall>n. table_Get pf n t' = (if 1 \<le> n then map_sum id ?red (table_Get pf n t) else table_Get pf n t)"
    proof -
      have "n \<noteq> 0" if "1 \<le> n" for n :: u32
        using that by auto
      then show ?thesis
        using rewriteLoop_ok [OF t(1-3), of 1 pf m] all that by blast
    qed
    moreover have "1 \<le> n" if "table_Get pf n t = Inr r" for n r
      using table_Get_range [OF wf that] by (metis word_gt_0 inc_le add_0)
    ultimately show ?thesis
      by (intro exI [of _ t']) simp
  qed
  then show ?thesis
    using rec by blast
qed

end

section \<open>The two formats\<close>

context memo_store
begin

lemma copy_live:
  assumes "ok old" "ok new0" "distinct live" "\<forall>b \<in> set live. \<exists>c. stored old b c"
    and "used new0 + (\<Sum>b \<in> set live. need new0 (projr (mget old b))) < 2 ^ 32"
  shows "\<exists>new m. copyBlocks (mget old) mappend (sortedBlocks live) (new0, m0) = ((new, m), Inr ()) \<and> ok new
    \<and> copied stored (set live) new (mget old) m"
proof -
  have "(\<Sum>b \<leftarrow> sort live. need new0 (projr (mget old b))) = (\<Sum>b \<in> set live. need new0 (projr (mget old b)))"
    using assms(3) by (subst sum_list_distinct_conv_sum_set) simp_all
  then have "\<exists>new m. copyBlocks (mget old) mappend (sort live) (new0, m0) = ((new, m), Inr ()) \<and> ok new
    \<and> copied stored (set (sort live)) new (mget old) m"
    using copyBlocks_ok [OF assms(1,2), of "sort live" m0] assms(3-5) by auto
  then show ?thesis
    by (simp add: sortedBlocks_sort)
qed

end

lemma copied_update [simp]:
  "copied stored olds new get (m\<lparr>bm_Dropped := d\<rparr>) = copied stored olds new get m"
  "copied stored olds new get (m\<lparr>bm_BytesAfter := a\<rparr>) = copied stored olds new get m"
  by (simp_all add: copied_def)

lemma compactDBT_ok:
  assumes "plain t" "all_storable pf t" "OpenMemo src = Inr old"
    and "\<forall>b \<in> live_blocks pf t. \<exists>c. dbt_stored old b c"
    and "1 + (\<Sum>b \<in> live_blocks pf t. dbt_blocks old (projr (memo_Get old b))) < 2 ^ 32"
  shows "\<exists>dst' m new. compactDBT pf t src dst = (dst', Inr m) \<and> OpenMemo dst' = Inr new \<and> dbt_ok new
    \<and> copied dbt_stored (live_blocks pf t) new (memo_Get old) m"
proof -
  have old: "dbt_ok old"
    using assms(3) by (auto simp: dbt_ok_def OpenMemo_def Let_def split: sum.splits if_splits)
  obtain live where live: "memoPointers pf t = Inr live" "distinct live" "set live = live_blocks pf t"
    using memoPointers_ok [of t pf] assms(1) all_storable_records [OF assms(2)] by (auto simp: plain_def)
  obtain new0 where new0: "CreateMemo dst = Inr new0" "dbt_ok new0" "dbt_used new0 = 1"
    using CreateMemo_ok by blast
  have "dbt_blocks new0 = dbt_blocks old"
    by (intro ext) (simp add: dbt_blocks_def)
  then obtain new m where c: "copyBlocks (memo_Get old) memo_Append (sortedBlocks live) (new0, new_mapping src) = ((new, m), Inr ())"
      "dbt_ok new" "copied dbt_stored (set live) new (memo_Get old) m"
    using dbt.copy_live [OF old new0(2) live(2)] assms(4,5) new0(3) live(3) by metis
  have "OpenMemo (m_rw new) = Inr new"
    using c(2) by (simp add: dbt_ok_def)
  then show ?thesis
    using assms(3) live(1,3) new0(1) c by (simp add: compactDBT_def Let_def)
qed

lemma compactFPT_ok:
  assumes "plain t" "all_storable pf t" "OpenFPT src = Inr old" "p_blockSize old \<le> 512"
    and "\<forall>b \<in> live_blocks pf t. \<exists>c. fpt_stored old b c"
    and "512 div unat (p_blockSize old) + (\<Sum>b \<in> live_blocks pf t. fpt_need old (projr (fpt_Get old b))) < 2 ^ 32"
  shows "\<exists>dst' m new. compactFPT pf t src dst = (dst', Inr m) \<and> OpenFPT dst' = Inr new \<and> fpt_ok new
    \<and> copied fpt_stored (live_blocks pf t) new (fpt_Get old) m"
proof -
  have o: "OpenFPT (p_rw old) = Inr old" "block_size_ok (p_blockSize old) = Inr ()" "firstUsable (p_blockSize old) \<le> p_nextFree old"
    using assms(3) by (auto simp: OpenFPT_def Let_def not_less split: sum.splits if_splits)
  have bs: "32 \<le> unat (p_blockSize old)" "unat (p_blockSize old) \<le> 512"
    using o(2) assms(4) by (auto simp: block_size_ok_def FPTMinBlockSize_def word_le_nat_alt word_less_nat_alt not_less split: if_splits)
  have "0 < unat (firstUsable (p_blockSize old))"
    using bs by (simp add: firstUsable_def unat_div unsigned_ucast_eq take_bit_nat_eq_self div_greater_zero_iff)
  then have old: "fpt_ok old"
    using o by (auto simp: fpt_ok_def)
  obtain live where live: "memoPointers pf t = Inr live" "distinct live" "set live = live_blocks pf t"
    using memoPointers_ok [of t pf] assms(1) all_storable_records [OF assms(2)] by (auto simp: plain_def)
  obtain new0 where new0: "CreateFPT dst (p_blockSize old) = Inr new0" "fpt_ok new0" "p_blockSize new0 = p_blockSize old"
      "fpt_used new0 = 512 div unat (p_blockSize old)"
    using CreateFPT_ok [OF o(2) assms(4)] by blast
  have "fpt_need new0 = fpt_need old"
    using new0(3) by (intro ext) (simp add: fpt_need_def)
  then obtain new m where c: "copyBlocks (fpt_Get old) fpt_Append (sortedBlocks live) (new0, new_mapping src) = ((new, m), Inr ())"
      "fpt_ok new" "copied fpt_stored (set live) new (fpt_Get old) m"
    using fpt.copy_live [OF old new0(2) live(2)] assms(5,6) new0(4) live(3) by metis
  have "OpenFPT (p_rw new) = Inr new"
    using c(2) by (simp add: fpt_ok_def)
  then show ?thesis
    using assms(3) live(1,3) new0(1) c by (simp add: compactFPT_def Let_def)
qed

end
