(* ===== verification/AreaMemo.thy ===== *)
theory AreaMemo
  imports AreaRebuild DbfMemoSpec
begin

text \<open>
  The memo file of a work area (\<open>blipperdb/memo_area.go\<close> and \<open>PackAll\<close> in \<open>blipperdb/pack.go\<close>):
  attaching and creating it by the format of the table, reading and writing the memo of the current
  record, and packing the table together with its memo file.  \<open>memo_area\<close> is an area with its
  attachment; the stream of an attachment is the stream of the memo file inside it.
\<close>

section \<open>The attachment\<close>

record attached_memo =
  am_format :: MemoFormat
  am_dbt :: "memo_file option"
  am_fpt :: "fpt_file option"

record memo_area =
  ma_area :: area
  ma_memo :: "attached_memo option"

text \<open>\<open>openDBT\<close> and \<open>openFPT\<close> are \<open>OpenMemo\<close> and \<open>OpenFPT\<close>, or the two constructors.\<close>

definition attachWith :: "(bytes \<Rightarrow> error + memo_file) \<Rightarrow> (bytes \<Rightarrow> error + fpt_file) \<Rightarrow> bytes \<Rightarrow> (memo_area, attached_memo) op" where
  "attachWith openDBT openFPT rw a =
     (if ma_memo a \<noteq> None then (a, Inl (Errorf ''memo already attached''))
      else let format = MemoFormat_of (a_table (ma_area a)) in
        case format of
          MemoFormatNone \<Rightarrow> (a, Inl (Errorf ''table has no memo field''))
        | MemoFormatDBT \<Rightarrow>
            (case openDBT rw of
               Inl e \<Rightarrow> (a, Inl (Wrap ''.DBT'' e))
             | Inr mf \<Rightarrow> let am = \<lparr>am_format = format, am_dbt = Some mf, am_fpt = None\<rparr> in (a\<lparr>ma_memo := Some am\<rparr>, Inr am))
        | MemoFormatFPT \<Rightarrow>
            (case openFPT rw of
               Inl e \<Rightarrow> (a, Inl (Wrap ''.FPT'' e))
             | Inr fp \<Rightarrow> let am = \<lparr>am_format = format, am_dbt = None, am_fpt = Some fp\<rparr> in (a\<lparr>ma_memo := Some am\<rparr>, Inr am))
        | MemoFormatDBaseIV \<Rightarrow> (a, Inl (Errorf ''unknown memo format'')))"

definition AttachMemo :: "bytes \<Rightarrow> (memo_area, attached_memo) op" where
  "AttachMemo = attachWith OpenMemo OpenFPT"

definition area_CreateMemo :: "bytes \<Rightarrow> u16 \<Rightarrow> (memo_area, attached_memo) op" where
  "area_CreateMemo rw blockSize = attachWith DbfMemo.CreateMemo (\<lambda>rw. CreateFPT rw blockSize) rw"

section \<open>Reading and writing the memo of the current record\<close>

definition memoAt :: "attached_memo \<Rightarrow> u32 \<Rightarrow> error + bytes" where
  "memoAt am block =
     (case am_format am of
        MemoFormatDBT \<Rightarrow> (case am_dbt am of None \<Rightarrow> Inl (Panic ''nil pointer'') | Some m \<Rightarrow> memo_Get m block)
      | MemoFormatFPT \<Rightarrow> (case am_fpt am of None \<Rightarrow> Inl (Panic ''nil pointer'') | Some f \<Rightarrow> bindR (fpt_Get f block) (\<lambda>(content, _). Inr content))
      | _ \<Rightarrow> Inl (Errorf ''memo format not handled''))"

definition MemoGet :: "(bytes \<Rightarrow> u64 option) \<Rightarrow> bytes \<Rightarrow> memo_area \<Rightarrow> error + bytes" where
  "MemoGet pf field a =
     (case ma_memo a of
        None \<Rightarrow> Inl (Errorf ''no memo attached'')
      | Some am \<Rightarrow>
          (case area_Record pf (ma_area a) of
             Inl e \<Rightarrow> Inl (Wrap ''current record'' e)
           | Inr rec \<Rightarrow>
               (case record_Get (t_schema (a_table (ma_area a))) field rec of
                  Inl e \<Rightarrow> Inl (Wrap ''read field'' e)
                | Inr (VStr ptr) \<Rightarrow>
                    (case ParseMemoPointer ptr of
                       Inl e \<Rightarrow> Inl (Wrap ''parse memo pointer'' e)
                     | Inr (block, False) \<Rightarrow> Inr []
                     | Inr (block, True) \<Rightarrow> memoAt am block)
                | Inr _ \<Rightarrow> Inl (Errorf ''field is not a memo pointer''))))"

definition appendMemo :: "bytes \<Rightarrow> (attached_memo, u32) op" where
  "appendMemo content am =
     (case am_format am of
        MemoFormatDBT \<Rightarrow>
          (case am_dbt am of None \<Rightarrow> (am, Inl (Panic ''nil pointer''))
           | Some m \<Rightarrow> (case memo_Append content m of
               (m, Inl e) \<Rightarrow> (am\<lparr>am_dbt := Some m\<rparr>, Inl (Wrap ''append .DBT'' e))
             | (m, Inr b) \<Rightarrow> (am\<lparr>am_dbt := Some m\<rparr>, Inr b)))
      | MemoFormatFPT \<Rightarrow>
          (case am_fpt am of None \<Rightarrow> (am, Inl (Panic ''nil pointer''))
           | Some f \<Rightarrow> (case fpt_Append (content, MemoText) f of
               (f, Inl e) \<Rightarrow> (am\<lparr>am_fpt := Some f\<rparr>, Inl (Wrap ''append .FPT'' e))
             | (f, Inr b) \<Rightarrow> (am\<lparr>am_fpt := Some f\<rparr>, Inr b)))
      | _ \<Rightarrow> (am, Inl (Errorf ''memo format not handled'')))"

definition MemoSet :: "gotime \<Rightarrow> (bytes \<Rightarrow> u64 option) \<Rightarrow> bytes \<Rightarrow> bytes \<Rightarrow> (memo_area, unit) op" where
  "MemoSet now pf field content a =
     (case ma_memo a of
        None \<Rightarrow> (a, Inl (Errorf ''no memo attached''))
      | Some am \<Rightarrow>
          let ar = ma_area a in
          (case checkWritable ar (a_recno ar) of
             Inl e \<Rightarrow> (a, Inl e)
           | Inr _ \<Rightarrow>
               (case appendMemo content am of
                  (am, Inl e) \<Rightarrow> (a\<lparr>ma_memo := Some am\<rparr>, Inl e)
                | (am, Inr block) \<Rightarrow>
                    let a = a\<lparr>ma_memo := Some am\<rparr> in
                    (case area_Record pf ar of
                       Inl e \<Rightarrow> (a, Inl (Wrap ''current record'' e))
                     | Inr rec \<Rightarrow>
                         (case record_Set (t_schema (a_table ar)) field (VStr (FormatMemoPointer block)) rec of
                            Inl e \<Rightarrow> (a, Inl (Wrap ''set field'' e))
                          | Inr rec \<Rightarrow>
                              (case table_Put now (a_recno ar) rec (a_table ar) of
                                 (t, Inl e) \<Rightarrow> (a\<lparr>ma_area := ar\<lparr>a_table := t\<rparr>\<rparr>, Inl (Wrap ''put record'' e))
                               | (t, Inr _) \<Rightarrow> (a\<lparr>ma_area := ar\<lparr>a_table := t\<rparr>\<rparr>, Inr ())))))))"

section \<open>Packing table and memo file\<close>

definition memo_src :: "attached_memo \<Rightarrow> bytes" where
  "memo_src am =
     (case am_dbt am of Some m \<Rightarrow> m_rw m | None \<Rightarrow> (case am_fpt am of Some f \<Rightarrow> p_rw f | None \<Rightarrow> []))"

text \<open>The state is the area and the destination stream; \<open>Attach\<close> then reads the destination.  The source of an
  attachment is never nil: both ways to make one store it.\<close>

definition PackAll :: "bool \<Rightarrow> gotime \<Rightarrow> (bytes \<Rightarrow> u64 option) \<Rightarrow> (memo_area \<times> bytes, record_mapping \<times> block_mapping) op" where
  "PackAll truncates now pf = (\<lambda>(a, dst).
     (case ma_memo a of
        None \<Rightarrow> ((a, dst), Inl (Errorf ''no memo attached; use Pack''))
      | Some am \<Rightarrow>
          (case area_Pack truncates now pf (ma_area a) of
             (ar, Inl e) \<Rightarrow> ((a\<lparr>ma_area := ar\<rparr>, dst), Inl e)
           | (ar, Inr recMap) \<Rightarrow>
               (case CompactMemo pf (a_table ar) (memo_src am) dst of
                  (dst, Inl e) \<Rightarrow> ((a\<lparr>ma_area := ar\<rparr>, dst), Inl (Wrap ''compacting memo'' e))
                | (dst, Inr blockMap) \<Rightarrow>
                    (case RewriteMemoPointers pf now blockMap (a_table ar) of
                       (t, Inl e) \<Rightarrow> ((a\<lparr>ma_area := ar\<lparr>a_table := t\<rparr>\<rparr>, dst), Inl (Wrap ''rewriting memo pointers'' e))
                     | (t, Inr _) \<Rightarrow>
                         (case AttachMemo dst (a\<lparr>ma_area := ar\<lparr>a_table := t\<rparr>, ma_memo := None\<rparr>) of
                            (a, Inl e) \<Rightarrow> ((a, dst), Inl (Wrap ''reattaching compacted memo'' e))
                          | (a, Inr _) \<Rightarrow> ((a, dst), Inr (recMap, blockMap))))))))"

end
