(* ===== verification/AreaMemoSpec.thy ===== *)
theory AreaMemoSpec
  imports AreaMemo AreaRun
begin

text \<open>
  What the memo operations of an area promise.  \<open>memo_holds pf a k g c\<close> says that field \<open>g\<close> of record
  \<open>k\<close> refers to a memo with content \<open>c\<close> that lies in the attached file, or to no memo and \<open>c\<close> is
  empty; \<open>MemoGet\<close> returns what is held.  \<open>MemoSet\<close> and \<open>PackAll\<close> are stated by what they do to it.
\<close>

section \<open>What an area holds\<close>

definition memo_ok :: "attached_memo \<Rightarrow> bool" where
  "memo_ok am \<longleftrightarrow> (\<exists>m. am = \<lparr>am_format = MemoFormatDBT, am_dbt = Some m, am_fpt = None\<rparr> \<and> dbt_ok m)
     \<or> (\<exists>f. am = \<lparr>am_format = MemoFormatFPT, am_dbt = None, am_fpt = Some f\<rparr> \<and> fpt_ok f)"

definition memo_stored :: "attached_memo \<Rightarrow> u32 \<Rightarrow> bytes \<Rightarrow> bool" where
  "memo_stored am b c \<longleftrightarrow> (\<exists>m. am_dbt am = Some m \<and> dbt_stored m b c) \<or> (\<exists>f ty. am_fpt am = Some f \<and> fpt_stored f b (c, ty))"

definition memo_room :: "attached_memo \<Rightarrow> bytes \<Rightarrow> bool" where
  "memo_room am c \<longleftrightarrow> (\<forall>m. am_dbt am = Some m \<longrightarrow> memo_text c \<and> dbt_used m + dbt_blocks m c < 2 ^ 32)
     \<and> (\<forall>f. am_fpt am = Some f \<longrightarrow> length c < 2 ^ 32 \<and> fpt_used f + fpt_need f (c, MemoText) < 2 ^ 32)"

definition memo_holds :: "(bytes \<Rightarrow> u64 option) \<Rightarrow> memo_area \<Rightarrow> u32 \<Rightarrow> bytes \<Rightarrow> bytes \<Rightarrow> bool" where
  "memo_holds pf a k g c \<longleftrightarrow> (\<exists>am r ptr b. ma_memo a = Some am \<and> table_Get pf k (a_table (ma_area a)) = Inr r
     \<and> record_Get (t_schema (a_table (ma_area a))) g r = Inr (VStr ptr)
     \<and> (ParseMemoPointer ptr = Inr (b, False) \<and> c = [] \<or> ParseMemoPointer ptr = Inr (b, True) \<and> memo_stored am b c))"

lemma memo_ok_cases:
  assumes "memo_ok am"
  obtains (dbt) m where "am = \<lparr>am_format = MemoFormatDBT, am_dbt = Some m, am_fpt = None\<rparr>" "dbt_ok m"
  | (fpt) f where "am = \<lparr>am_format = MemoFormatFPT, am_dbt = None, am_fpt = Some f\<rparr>" "fpt_ok f"
  using assms unfolding memo_ok_def by blast

lemma MemoFormat_kept: "kept t t' \<Longrightarrow> MemoFormat_of t' = MemoFormat_of t"
  by (simp add: MemoFormat_of_def kept_def)

lemma memoAt_stored: "memo_ok am \<Longrightarrow> memo_stored am b c \<Longrightarrow> memoAt am b = Inr c"
  using dbt.get_stored fpt.get_stored by (auto simp: memo_ok_def memo_stored_def memoAt_def)

lemma memo_holds_Get:
  assumes "memo_holds pf a k g c" "ma_memo a = Some am" "memo_ok am" "a_recno (ma_area a) = k" "\<not> a_atEOF (ma_area a)"
  shows "MemoGet pf g a = Inr c"
proof -
  have "k \<noteq> 0"
    using assms(1) table_Get_zero [of pf "a_table (ma_area a)"] by (auto simp: memo_holds_def)
  then show ?thesis
    using assms memoAt_stored [OF assms(3)] by (auto simp: memo_holds_def MemoGet_def area_Record_def)
qed

lemma memo_stored_nonzero: "memo_stored am b c \<Longrightarrow> b \<noteq> 0"
  by (auto simp: memo_stored_def dest: dbt.stored_block fpt.stored_block)

section \<open>Setting a memo\<close>

lemma appendMemo_ok:
  assumes "memo_ok am" "memo_room am c"
  shows "\<exists>am' b. appendMemo c am = (am', Inr b) \<and> memo_ok am' \<and> am_format am' = am_format am
    \<and> memo_stored am' b c \<and> (\<forall>b c. memo_stored am b c \<longrightarrow> memo_stored am' b c)"
  using assms(1)
proof (cases rule: memo_ok_cases)
  case m: (dbt m)
  then obtain m' where "memo_Append c m = (m', Inr (word_of_nat (dbt_used m)))" "dbt_ok m'"
      "dbt_stored m' (word_of_nat (dbt_used m)) c" "\<forall>b' c'. dbt_stored m b' c' \<longrightarrow> dbt_stored m' b' c'"
    using dbt.append_stored [of m c] assms(2) by (auto simp: memo_room_def)
  then show ?thesis
    using m by (auto simp: appendMemo_def memo_ok_def memo_stored_def)
next
  case f: (fpt f)
  then obtain f' where "fpt_Append (c, MemoText) f = (f', Inr (word_of_nat (fpt_used f)))" "fpt_ok f'"
      "fpt_stored f' (word_of_nat (fpt_used f)) (c, MemoText)" "\<forall>b' c'. fpt_stored f b' c' \<longrightarrow> fpt_stored f' b' c'"
    using fpt.append_stored [of f "(c, MemoText)"] assms(2) by (auto simp: memo_room_def fpt_content_def)
  then show ?thesis
    using f by (fastforce simp: appendMemo_def memo_ok_def memo_stored_def)
qed

text \<open>A memo field of the table under any spelling of its name.\<close>

definition memo_field :: "schema \<Rightarrow> bytes \<Rightarrow> nat \<Rightarrow> bool" where
  "memo_field sch g i \<longleftrightarrow> i < length sch \<and> f_Type (sch ! i) = Memo \<and> ToUpper g = ToUpper (f_Name (sch ! i))"

lemma record_Get_upper: "ToUpper g = ToUpper h \<Longrightarrow> record_Get sch g = record_Get sch h"
  and record_Set_upper: "ToUpper g = ToUpper h \<Longrightarrow> record_Set sch g = record_Set sch h"
  by (intro ext, simp add: record_Get_def record_Set_def schemaFieldIndex_def)+

lemma field_index_name: "field_index sch name = Some i \<Longrightarrow> i < length sch \<and> ToUpper (f_Name (sch ! i)) = name"
  by (induction sch arbitrary: i) (auto split: if_splits)

lemma record_Get_other:
  assumes "distinct_names sch" "i < length sch" "ToUpper g \<noteq> ToUpper (f_Name (sch ! i))"
  shows "record_Get sch g (r\<lparr>r_Values := (r_Values r)[i := v]\<rparr>) = record_Get sch g r"
proof (cases "field_index sch (ToUpper g)")
  case (Some j)
  then have "j \<noteq> i"
    using field_index_name [OF Some] assms(3) by auto
  then show ?thesis
    using Some by (simp add: record_Get_def schemaFieldIndex_def GetIndex_def)
qed (simp add: record_Get_def schemaFieldIndex_def)

lemma MemoSet_ok:
  assumes t: "plain (a_table (ma_area a))" "persisted tables (a_table (ma_area a))" and now: "clock_ok now"
    and w: "checkWritable (ma_area a) (a_recno (ma_area a)) = Inr ()" and cur: "\<not> a_atEOF (ma_area a)"
    and r: "table_Get pf (a_recno (ma_area a)) (a_table (ma_area a)) = Inr r" "record_storable (t_schema (a_table (ma_area a))) r"
    and f: "memo_field (t_schema (a_table (ma_area a))) g i"
    and am: "ma_memo a = Some am" "memo_ok am" "memo_room am c"
  shows "\<exists>a' am'. MemoSet now pf g c a = (a', Inr ()) \<and> MemoGet pf g a' = Inr c
    \<and> ma_memo a' = Some am' \<and> memo_ok am' \<and> persisted tables (a_table (ma_area a'))
    \<and> (\<forall>k h d. k \<noteq> a_recno (ma_area a) \<or> ToUpper h \<noteq> ToUpper g \<longrightarrow> memo_holds pf a k h d \<longrightarrow> memo_holds pf a' k h d)"
proof -
  let ?ar = "ma_area a" and ?t = "a_table (ma_area a)" and ?n = "a_recno (ma_area a)" and ?sch = "t_schema (a_table (ma_area a))"
  obtain am' b where am': "appendMemo c am = (am', Inr b)" "memo_ok am'" "memo_stored am' b c"
      "\<forall>b c. memo_stored am b c \<longrightarrow> memo_stored am' b c"
    using appendMemo_ok [OF am(2,3)] by blast
  have b: "b \<noteq> 0"
    by (rule memo_stored_nonzero [OF am'(3)])
  have wf: "wf_table ?t" and i: "i < length ?sch" "f_Type (?sch ! i) = Memo" "ToUpper g = ToUpper (f_Name (?sch ! i))"
    and len: "length (r_Values r) = length ?sch" and dn: "distinct_names ?sch"
    using t(1) f r(2) by (auto simp: plain_def memo_field_def record_storable_def dest: list_all2_lengthD)
  define r' where "r' = r\<lparr>r_Values := (r_Values r)[i := VStr (FormatMemoPointer b)]\<rparr>"
  have set: "record_Set ?sch g (VStr (FormatMemoPointer b)) r = Inr r'"
    using record_at(2) [OF dn i(1) len] record_Set_upper [OF i(3)] i(2)
    by (simp add: r'_def validValue_def Let_def field_types)
  have "last (FormatMemoPointer b) \<noteq> 0x20"
    using memo_pointer(3) [OF b] dec_digits_edges by simp
  then have "storable (?sch ! i) (VStr (FormatMemoPointer b))"
    using t(1) i(1,2) memo_pointer(2) [OF b] by (simp add: storable_def Let_def plain_def memo_widths_def list_all_length)
  then have "record_storable ?sch r'"
    using r(2) i(1) len by (auto simp: r'_def record_storable_def list_all2_conv_all_nth nth_list_update)
  then have wr: "writes ?t r' r'"
    using t(1) by (simp add: writes_def applyEncode_def plain_def)
  obtain t' where t': "table_Put now ?n r' ?t = (t', Inr ())" "persisted tables t'" "kept ?t t'"
      "table_Get pf ?n t' = Inr r'" "\<forall>k. k \<noteq> ?n \<longrightarrow> table_Get pf k t' = table_Get pf k ?t"
    using Put_Get [OF wf t(2) now wr, of ?n pf] table_Get_range [OF wf r(1)] t(1) by (auto simp: plain_def applyDecode_def)
  let ?a = "a\<lparr>ma_memo := Some am', ma_area := ?ar\<lparr>a_table := t'\<rparr>\<rparr>"
  have n: "?n \<noteq> 0"
    using table_Get_range [OF wf r(1)] by simp
  then have "area_Record pf ?ar = Inr r"
    using cur r(1) by (simp add: area_Record_def)
  then have s: "MemoSet now pf g c a = (?a, Inr ())"
    using am(1) w am'(1) set t'(1) by (simp add: MemoSet_def Let_def)
  have sch: "t_schema t' = ?sch"
    using t'(3) by (simp add: kept_def)
  have "record_Get ?sch g r' = Inr (VStr (FormatMemoPointer b))"
    using record_at(1) [OF dn i(1), of r'] record_Get_upper [OF i(3)] len i(1) by (simp add: r'_def)
  then have "memo_holds pf ?a ?n g c"
    using t'(4) sch am'(3) memo_pointer(1) [OF b] by (simp add: memo_holds_def)
  then have get: "MemoGet pf g ?a = Inr c"
    by (rule memo_holds_Get) (use am'(2) cur in simp_all)
  have "memo_holds pf ?a k h d" if other: "k \<noteq> ?n \<or> ToUpper h \<noteq> ToUpper g" and held: "memo_holds pf a k h d" for k h d
  proof -
    obtain rk ptr bk where k: "table_Get pf k ?t = Inr rk" "record_Get ?sch h rk = Inr (VStr ptr)"
        "ParseMemoPointer ptr = Inr (bk, False) \<and> d = [] \<or> ParseMemoPointer ptr = Inr (bk, True) \<and> memo_stored am bk d"
      using held am(1) by (auto simp: memo_holds_def)
    have "\<exists>rk. table_Get pf k t' = Inr rk \<and> record_Get ?sch h rk = Inr (VStr ptr)"
    proof (cases "k = ?n")
      case True
      then have "record_Get ?sch h r' = record_Get ?sch h r"
        using other i(3) record_Get_other [OF dn i(1), of h r] by (simp add: r'_def)
      then show ?thesis
        using True t'(4) k(1,2) r(1) by simp
    qed (use t'(5) k(1,2) in simp)
    then show ?thesis
      using k(3) am'(4) sch by (auto simp: memo_holds_def)
  qed
  then show ?thesis
    using s get am'(2) t'(2) by (intro exI [of _ ?a] exI [of _ am']) simp
qed

section \<open>Packing with the memo file\<close>

lemma goEnd_table: "a_table (fst (goEnd pick n a)) = a_table a"
  by (auto simp: goEnd_def Let_def setEmpty_def split: sum.splits option.splits)

lemma area_Pack_table:
  assumes "area_Pack trunc now pf a = (a', Inr m)"
  shows "Pack trunc now (a_table a) = (a_table a', Inr m)"
proof -
  have top: "bindS GoTop (\<lambda>_. returnS m') b = (a', Inr m) \<Longrightarrow> m' = m \<and> a_table a' = a_table b" for m' b
    using goEnd_table [of Min 1 b] by (auto simp: GoTop_def bindS_def returnS_def split: prod.splits sum.splits)
  show ?thesis
    using assms by (auto simp: area_Pack_def Let_def split: sum.splits prod.splits if_splits dest!: top)
qed

lemma area_Pack_Lookup:
  assumes "area_Pack trunc now pf a = (a', Inr m)" "wf_table (a_table a)" "persisted tables (a_table a)"
    "t_recordCount (a_table a) \<noteq> - 1" "clock_ok now"
  shows "snd (Lookup n m) \<longleftrightarrow> n \<noteq> 0 \<and> unat n \<le> row_count (a_table a) \<and> alive (rows (a_table a) ! (unat n - 1))"
  using Pack_Get [OF assms(2-5), of trunc pf] area_Pack_table [OF assms(1)] by auto

lemma alive_record:
  assumes "wf_table t" "table_Get pf n t = Inr r"
  shows "alive (rows t ! (unat n - 1)) \<longleftrightarrow> \<not> r_Deleted r"
proof -
  have "record_of pf t (rows t ! (unat n - 1)) = Inr r"
    using assms(2) Get_rows [OF assms(1), of pf n] by (auto split: if_splits)
  then show ?thesis
    by (auto simp: record_of_def decodeRecord_def applyDecode_def alive_def bindR_Inr_iff split: sum.splits if_splits)
qed

lemma packed_row:
  assumes "rows t1 = filter alive (rows t)" "n1 \<noteq> 0" "unat n1 \<le> row_count t1"
  shows "\<exists>i < row_count t. rows t ! i = rows t1 ! (unat n1 - 1)"
proof -
  have "unat n1 - 1 < length (rows t1)"
    using assms(2,3) unat_gt_0 [of n1] by simp
  then have "rows t1 ! (unat n1 - 1) \<in> set (rows t1)"
    by (rule nth_mem)
  then show ?thesis
    unfolding assms(1) by (auto simp: in_set_conv_nth)
qed

lemma packed_records:
  assumes t: "wf_table t" "wf_table t1" "kept t t1" "rows t1 = filter alive (rows t)" and g: "table_Get pf n1 t1 = Inr r"
  shows "\<exists>n. table_Get pf n t = Inr r"
proof -
  have n1: "n1 \<noteq> 0" "unat n1 \<le> row_count t1" "record_of pf t (rows t1 ! (unat n1 - 1)) = Inr r"
    using g Get_rows [OF t(2), of pf n1] record_of_kept [OF t(3)] by (auto simp: not_less split: if_splits)
  obtain i where "i < row_count t" "rows t ! i = rows t1 ! (unat n1 - 1)"
    using packed_row [OF t(4) n1(1,2)] by blast
  then show ?thesis
    using table_Get_row [OF t(1), of i pf] n1(3) by metis
qed

lemma packed_plain:
  assumes "plain t" "all_storable pf t" "wf_table t1" "kept t t1" "rows t1 = filter alive (rows t)"
  shows "plain t1" "all_storable pf t1" "live_blocks pf t1 \<subseteq> live_blocks pf t"
proof -
  have wf: "wf_table t" and sch: "t_schema t1 = t_schema t"
    using assms(1,4) by (simp_all add: plain_def kept_def)
  have "row_count t1 \<le> row_count t"
    using arg_cong [OF assms(5), of length] length_filter_le [of alive "rows t"] by simp
  then have "t_recordCount t1 \<le> t_recordCount t"
    by (simp add: row_count_def word_le_nat_alt)
  then have "t_recordCount t1 \<noteq> - 1"
    using assms(1) word_order.extremum_uniqueI [of "t_recordCount t"] by (auto simp: plain_def)
  then show "plain t1"
    using assms(1,3,4) by (simp add: plain_def kept_def)
  note rec = packed_records [OF wf assms(3,4,5)]
  have st: "record_storable (t_schema t) r" if "table_Get pf n1 t1 = Inr r" for n1 r
    using rec [OF that] table_Get_range [OF wf] assms(2) by (fastforce simp: all_storable_def)
  have "\<exists>r. table_Get pf n1 t1 = Inr r" if nz: "n1 \<noteq> 0" and le: "n1 \<le> t_recordCount t1" for n1
  proof -
    have n: "0 < unat n1" "unat n1 \<le> row_count t1"
      using nz le by (simp_all add: unat_gt_0 row_count_def word_le_nat_alt)
    obtain i where i: "i < row_count t" "rows t ! i = rows t1 ! (unat n1 - 1)"
      using packed_row [OF assms(5) nz n(2)] by blast
    have "unat (word_of_nat (Suc i) :: u32) = Suc i"
      by (rule recno_of [OF i(1)])
    then have k: "(word_of_nat (Suc i) :: u32) \<noteq> 0" "(word_of_nat (Suc i) :: u32) \<le> t_recordCount t"
      using i(1) by (auto simp: word_le_nat_alt row_count_def simp del: of_nat_Suc)
    obtain r where "table_Get pf (word_of_nat (Suc i)) t = Inr r"
      using assms(2) k unfolding all_storable_def by blast
    then have "record_of pf t1 (rows t1 ! (unat n1 - 1)) = Inr r"
      using table_Get_row [OF wf i(1)] i(2) record_of_kept [OF assms(4)] by simp
    then show ?thesis
      using n nz Get_rows [OF assms(3), of pf n1] by auto
  qed
  then show "all_storable pf t1"
    using st sch unfolding all_storable_def by metis
  show "live_blocks pf t1 \<subseteq> live_blocks pf t"
    using rec sch unfolding live_blocks_def by fastforce
qed

text \<open>The memos that the records refer to are in the file, and a fresh file has room for them.\<close>

definition memos_ready :: "(bytes \<Rightarrow> u64 option) \<Rightarrow> dbf_table \<Rightarrow> attached_memo \<Rightarrow> bool" where
  "memos_ready pf t am \<longleftrightarrow> memo_ok am \<and> am_format am = MemoFormat_of t
     \<and> (\<forall>b \<in> live_blocks pf t. \<exists>c. memo_stored am b c)
     \<and> (\<forall>m. am_dbt am = Some m \<longrightarrow> 1 + (\<Sum>b \<in> live_blocks pf t. dbt_blocks m (projr (memo_Get m b))) < 2 ^ 32)
     \<and> (\<forall>f. am_fpt am = Some f \<longrightarrow> p_blockSize f \<le> 512
          \<and> 512 div unat (p_blockSize f) + (\<Sum>b \<in> live_blocks pf t. fpt_need f (projr (fpt_Get f b))) < 2 ^ 32)"

lemma memos_ready_mono:
  assumes "memos_ready pf t am" "live_blocks pf t1 \<subseteq> live_blocks pf t" "kept t t1"
  shows "memos_ready pf t1 am"
proof -
  have le: "(\<Sum>b \<in> live_blocks pf t1. g b) \<le> (\<Sum>b \<in> live_blocks pf t. g b)" for g :: "u32 \<Rightarrow> nat"
    using assms(2) by (intro sum_mono2) simp_all
  have "MemoFormat_of t1 = MemoFormat_of t"
    by (rule MemoFormat_kept [OF assms(3)])
  then show ?thesis
    using assms(1,2) unfolding memos_ready_def by (auto intro: le_less_trans [OF add_left_mono [OF le]] le_less_trans [OF le])
qed

text \<open>One block stands for another when they hold the same memo.\<close>

definition moved_memo :: "attached_memo \<Rightarrow> attached_memo \<Rightarrow> u32 \<Rightarrow> u32 \<Rightarrow> bool" where
  "moved_memo am am' b n \<longleftrightarrow> n \<noteq> 0 \<and> (\<forall>c. memo_stored am b c \<longrightarrow> memo_stored am' n c)"

lemma CompactMemo_ok:
  assumes t: "plain t" "persisted tables t" "clock_ok now" "all_storable pf t" and r: "memos_ready pf t am"
  shows "\<exists>dst' bm t' am'. CompactMemo pf t (memo_src am) dst = (dst', Inr bm) \<and> RewriteMemoPointers pf now bm t = (t', Inr ())
    \<and> persisted tables t' \<and> kept t t' \<and> t_recordCount t' = t_recordCount t
    \<and> (\<forall>a. a_table (ma_area a) = t' \<longrightarrow> ma_memo a = None \<longrightarrow> AttachMemo dst' a = (a\<lparr>ma_memo := Some am'\<rparr>, Inr am'))
    \<and> memo_ok am' \<and> memo_src am' = dst'
    \<and> (\<forall>n r. table_Get pf n t = Inr r \<longrightarrow>
         (\<exists>r'. table_Get pf n t' = Inr r' \<and> same_memos (moved_memo am am') (t_schema t) r r'))"
proof -
  have ok: "memo_ok am" and fmt: "am_format am = MemoFormat_of t" and st: "\<forall>b \<in> live_blocks pf t. \<exists>c. memo_stored am b c"
    using r by (simp_all add: memos_ready_def)
  have same: "same_memos R sch r r' \<Longrightarrow> (\<And>b n. R b n \<Longrightarrow> R' b n) \<Longrightarrow> same_memos R' sch r r'" for R R' sch r r'
    unfolding same_memos_def by (auto intro: option.rel_mono_strong split: if_splits)
  show ?thesis
    using ok
  proof (cases rule: memo_ok_cases)
    case (dbt m)
    have m: "OpenMemo (m_rw m) = Inr m" "\<forall>b \<in> live_blocks pf t. \<exists>c. dbt_stored m b c"
      using dbt st by (auto simp: dbt_ok_def memo_stored_def)
    obtain dst' bm new where c: "compactDBT pf t (m_rw m) dst = (dst', Inr bm)" "OpenMemo dst' = Inr new" "dbt_ok new"
        "copied dbt_stored (live_blocks pf t) new (memo_Get m) bm"
      using compactDBT_ok [OF t(1,4) m, of dst] r dbt(1) unfolding memos_ready_def by fastforce
    obtain t' where t': "RewriteMemoPointers pf now bm t = (t', Inr ())" "persisted tables t'" "kept t t'"
        "t_recordCount t' = t_recordCount t" "\<forall>n r. table_Get pf n t = Inr r \<longrightarrow>
         (\<exists>r'. table_Get pf n t' = Inr r' \<and> same_memos (copy_of dbt_stored new (memo_Get m)) (t_schema t) r r')"
      using dbt.RewriteMemoPointers_ok [OF t c(4)] by blast
    define am' where "am' = \<lparr>am_format = MemoFormatDBT, am_dbt = Some new, am_fpt = None\<rparr>"
    have "moved_memo am am' b n" if "copy_of dbt_stored new (memo_Get m) b n" for b n
      using that dbt dbt.get_stored dbt.stored_block by (fastforce simp: moved_memo_def memo_stored_def am'_def copy_of_def)
    then have "\<exists>r'. table_Get pf n t' = Inr r' \<and> same_memos (moved_memo am am') (t_schema t) r r'" if "table_Get pf n t = Inr r" for n r
      using t'(5) that same by blast
    moreover have "m_rw new = dst'"
      using c(2) by (auto simp: OpenMemo_def Let_def split: sum.splits if_splits)
    ultimately show ?thesis
      using c t'(1-4) dbt(1) fmt MemoFormat_kept [OF t'(3)]
      by (intro exI [of _ dst'] exI [of _ bm] exI [of _ t'] exI [of _ am'])
        (simp add: CompactMemo_def memo_src_def AttachMemo_def attachWith_def am'_def memo_ok_def Let_def)
  next
    case (fpt f)
    have f: "OpenFPT (p_rw f) = Inr f" "\<forall>b \<in> live_blocks pf t. \<exists>c. fpt_stored f b c"
      using fpt st by (auto simp: fpt_ok_def memo_stored_def)
    obtain dst' bm new where c: "compactFPT pf t (p_rw f) dst = (dst', Inr bm)" "OpenFPT dst' = Inr new" "fpt_ok new"
        "copied fpt_stored (live_blocks pf t) new (fpt_Get f) bm"
      using compactFPT_ok [OF t(1,4) f(1) _ f(2), of dst] r fpt(1) unfolding memos_ready_def by fastforce
    obtain t' where t': "RewriteMemoPointers pf now bm t = (t', Inr ())" "persisted tables t'" "kept t t'"
        "t_recordCount t' = t_recordCount t" "\<forall>n r. table_Get pf n t = Inr r \<longrightarrow>
         (\<exists>r'. table_Get pf n t' = Inr r' \<and> same_memos (copy_of fpt_stored new (fpt_Get f)) (t_schema t) r r')"
      using fpt.RewriteMemoPointers_ok [OF t c(4)] by blast
    define am' where "am' = \<lparr>am_format = MemoFormatFPT, am_dbt = None, am_fpt = Some new\<rparr>"
    have "moved_memo am am' b n" if "copy_of fpt_stored new (fpt_Get f) b n" for b n
      using that fpt fpt.get_stored fpt.stored_block by (fastforce simp: moved_memo_def memo_stored_def am'_def copy_of_def)
    then have "\<exists>r'. table_Get pf n t' = Inr r' \<and> same_memos (moved_memo am am') (t_schema t) r r'" if "table_Get pf n t = Inr r" for n r
      using t'(5) that same by blast
    moreover have "p_rw new = dst'"
      using c(2) by (auto simp: OpenFPT_def Let_def split: sum.splits if_splits)
    ultimately show ?thesis
      using c t'(1-4) fpt(1) fmt MemoFormat_kept [OF t'(3)]
      by (intro exI [of _ dst'] exI [of _ bm] exI [of _ t'] exI [of _ am'])
        (simp add: CompactMemo_def memo_src_def AttachMemo_def attachWith_def am'_def memo_ok_def Let_def)
  qed
qed

lemma pointer_in_Some: "pointer_in v = Some b \<longleftrightarrow> (\<exists>s. v = VStr s \<and> ParseMemoPointer s = Inr (b, True))"
  by (cases v) (auto simp: pointer_in_def split: sum.splits prod.splits bool.splits)

lemma same_memos_holds:
  assumes h: "memo_holds pf a n g c" "ma_memo a = Some am" and f: "memo_field sch g i" "distinct_names sch"
    and r: "table_Get pf n (a_table (ma_area a)) = Inr r" "t_schema (a_table (ma_area a)) = sch" "length (r_Values r) = length sch"
    and a': "ma_memo a' = Some am'" "table_Get pf n' (a_table (ma_area a')) = Inr r'" "t_schema (a_table (ma_area a')) = sch"
    and same: "same_memos (moved_memo am am') sch r r'"
  shows "memo_holds pf a' n' g c"
proof -
  have i: "i < length sch" "f_Type (sch ! i) = Memo" "ToUpper g = ToUpper (f_Name (sch ! i))"
    using f(1) by (simp_all add: memo_field_def)
  have get: "record_Get sch g q = Inr (r_Values q ! i)" if "length (r_Values q) = length sch" for q
    using record_at(1) [OF f(2) i(1) that] record_Get_upper [OF i(3)] by simp
  have len: "length (r_Values r') = length sch"
    using same r(3) by (simp add: same_memos_def)
  obtain ptr b where p: "r_Values r ! i = VStr ptr"
      "ParseMemoPointer ptr = Inr (b, False) \<and> c = [] \<or> ParseMemoPointer ptr = Inr (b, True) \<and> memo_stored am b c"
    using h r get [OF r(3)] by (auto simp: memo_holds_def)
  have rel: "rel_option (moved_memo am am') (pointer_in (r_Values r ! i)) (pointer_in (r_Values r' ! i))"
      "pointer_in (r_Values r ! i) = None \<longrightarrow> r_Values r' ! i = r_Values r ! i"
    using same i(1,2) by (auto simp: same_memos_def)
  show ?thesis
    using p(2)
  proof
    assume b: "ParseMemoPointer ptr = Inr (b, False) \<and> c = []"
    then have "r_Values r' ! i = VStr ptr"
      using rel(2) p(1) by (simp add: pointer_in_def)
    then show ?thesis
      using a' b get [OF len] by (auto simp: memo_holds_def)
  next
    assume b: "ParseMemoPointer ptr = Inr (b, True) \<and> memo_stored am b c"
    then have "pointer_in (r_Values r ! i) = Some b"
      using p(1) by (simp add: pointer_in_Some)
    then obtain k where "pointer_in (r_Values r' ! i) = Some k" "memo_stored am' k c"
      using rel(1) b by (auto simp: option_rel_Some1 moved_memo_def)
    then show ?thesis
      using a' get [OF len] by (auto simp: memo_holds_def pointer_in_Some)
  qed
qed

lemma PackAll_ok:
  assumes ok: "area_ok tables pf (ma_area a)" and w: "checkWritable (ma_area a) 0 = Inr ()" and now: "clock_ok now"
    and room: "row_count (a_table (ma_area a)) \<le> max_entries"
    and t: "plain (a_table (ma_area a))" "all_storable pf (a_table (ma_area a))"
    and am: "ma_memo a = Some am" "memos_ready pf (a_table (ma_area a)) am"
  shows "\<exists>a' dst' m bm am'. PackAll trunc now pf (a, dst) = ((a', dst'), Inr (m, bm))
    \<and> ma_memo a' = Some am' \<and> memo_ok am' \<and> memo_src am' = dst'
    \<and> persisted tables (a_table (ma_area a')) \<and> row_count (a_table (ma_area a')) = length (filter alive (rows (a_table (ma_area a))))
    \<and> (\<forall>n. snd (Lookup n m) \<longleftrightarrow> n \<noteq> 0 \<and> unat n \<le> row_count (a_table (ma_area a)) \<and> alive (rows (a_table (ma_area a)) ! (unat n - 1)))
    \<and> (\<forall>n n' r. Lookup n m = (n', True) \<longrightarrow> table_Get pf n (a_table (ma_area a)) = Inr r \<longrightarrow>
         (\<exists>r'. table_Get pf n' (a_table (ma_area a')) = Inr r'
           \<and> same_memos (moved_memo am am') (t_schema (a_table (ma_area a))) r r'))
    \<and> (\<forall>n n' g i c. Lookup n m = (n', True) \<longrightarrow> memo_field (t_schema (a_table (ma_area a))) g i \<longrightarrow>
         memo_holds pf a n g c \<longrightarrow> memo_holds pf a' n' g c)"
proof -
  let ?t = "a_table (ma_area a)" and ?sch = "t_schema (a_table (ma_area a))"
  obtain ar m where pk: "area_Pack trunc now pf (ma_area a) = (ar, Inr m)" "area_ok tables pf ar"
      "rows (a_table ar) = filter alive (rows ?t)" "renumbers pf ?t (a_table ar) m"
    using Pack_area [OF ok w now room, of trunc] by blast
  have t1: "wf_table (a_table ar)" "kept ?t (a_table ar)" "persisted tables (a_table ar)"
    using Pack_rows [of ?t now trunc] t(1) now area_Pack_table [OF pk(1)] pk(2) by (auto simp: plain_def area_ok_def)
  have lk: "snd (Lookup n m) \<longleftrightarrow> n \<noteq> 0 \<and> unat n \<le> row_count ?t \<and> alive (rows ?t ! (unat n - 1))" for n
    using area_Pack_Lookup [OF pk(1), of tables n] ok t(1) now by (simp add: area_ok_def plain_def)
  note p1 = packed_plain [OF t t1(1,2) pk(3)]
  obtain dst' bm t' am' where c: "CompactMemo pf (a_table ar) (memo_src am) dst = (dst', Inr bm)"
      "RewriteMemoPointers pf now bm (a_table ar) = (t', Inr ())" "persisted tables t'" "kept (a_table ar) t'"
      "t_recordCount t' = t_recordCount (a_table ar)"
      "\<forall>a. a_table (ma_area a) = t' \<longrightarrow> ma_memo a = None \<longrightarrow> AttachMemo dst' a = (a\<lparr>ma_memo := Some am'\<rparr>, Inr am')"
      "memo_ok am'" "memo_src am' = dst'" "\<forall>n r. table_Get pf n (a_table ar) = Inr r \<longrightarrow>
         (\<exists>r'. table_Get pf n t' = Inr r' \<and> same_memos (moved_memo am am') (t_schema (a_table ar)) r r')"
    using CompactMemo_ok [OF p1(1) t1(3) now p1(2) memos_ready_mono [OF am(2) p1(3) t1(2)], of dst] by blast
  let ?a = "a\<lparr>ma_area := ar\<lparr>a_table := t'\<rparr>, ma_memo := Some am'\<rparr>"
  have run: "PackAll trunc now pf (a, dst) = ((?a, dst'), Inr (m, bm))"
    using am(1) pk(1) c(1,2,6) by (simp add: PackAll_def)
  have sch: "t_schema t' = ?sch" "t_schema (a_table ar) = ?sch"
    using c(4) t1(2) by (simp_all add: kept_def)
  have rec: "\<exists>r'. table_Get pf n' t' = Inr r' \<and> same_memos (moved_memo am am') ?sch r r'"
    if "Lookup n m = (n', True)" "table_Get pf n ?t = Inr r" for n n' r
    using that pk(4) c(9) sch(2) by (auto simp: renumbers_def)
  have "memo_holds pf ?a n' g d" if lk: "Lookup n m = (n', True)" and fd: "memo_field ?sch g i" and held: "memo_holds pf a n g d" for n n' g i d
  proof -
    obtain r where r: "table_Get pf n ?t = Inr r"
      using held by (auto simp: memo_holds_def)
    moreover have "length (r_Values r) = length ?sch"
      using all_storable_records [OF t(2)] table_Get_range [OF _ r] t(1) r by (auto simp: records_ok_def plain_def)
    moreover obtain r' where "table_Get pf n' t' = Inr r'" "same_memos (moved_memo am am') ?sch r r'"
      using rec [OF lk r] by blast
    ultimately show ?thesis
      using t(1) sch(1) by (intro same_memos_holds [OF held am(1) fd]) (simp_all add: plain_def)
  qed
  moreover have "row_count t' = length (filter alive (rows ?t))"
    using c(5) arg_cong [OF pk(3), of length] by (simp add: row_count_def)
  ultimately show ?thesis
    using run rec c(3,7,8) lk by (intro exI [of _ ?a] exI [of _ dst'] exI [of _ m] exI [of _ bm] exI [of _ am']) simp
qed

section \<open>Pointers that do not fit, and pointers that are not scanned\<close>

lemma encodeFields_same:
  assumes "i < length fs" "encodeValue (unat (f_Length (fs ! i))) (fs ! i) v = encodeValue (unat (f_Length (fs ! i))) (fs ! i) v'"
  shows "encodeFields fs (vs[i := v]) = encodeFields fs (vs[i := v'])"
  using assms
proof (induction fs arbitrary: vs i)
  case (Cons f fs)
  then show ?case
    by (cases vs; cases i) (auto split: sum.splits)
qed simp

lemma encode_narrow:
  assumes "f_Type f = Memo" "f_Length f = 4" "b \<noteq> 0" "unat b < 10 ^ 6"
  shows "encodeValue (unat (f_Length f)) f (VStr (FormatMemoPointer b)) = encodeValue (unat (f_Length f)) f (VStr [])"
proof -
  have "length (dec_digits (unat b)) \<le> 6"
    using assms(4) by (intro dec_digits_length) simp_all
  then have "take 4 (FormatMemoPointer b) = replicate 4 0x20" "4 \<le> length (FormatMemoPointer b)"
    using memo_pointer(2,3) [OF assms(3)] by (simp_all add: memoFieldWidth_def)
  then show ?thesis
    using assms(1,2) by (simp add: encodeValue_def encodeVFPValue_def encodePadded_def field_types Let_def)
qed

lemma MemoSet_narrow:
  assumes t: "wf_table (a_table (ma_area a))" "t_codec (a_table (ma_area a)) = None"
      "nullFlagsFieldIndex (t_schema (a_table (ma_area a))) = None" "distinct_names (t_schema (a_table (ma_area a)))"
      "persisted tables (a_table (ma_area a))" "clock_ok now"
    and w: "checkWritable (ma_area a) (a_recno (ma_area a)) = Inr ()" "\<not> a_atEOF (ma_area a)"
    and r: "table_Get pf (a_recno (ma_area a)) (a_table (ma_area a)) = Inr r" "record_storable (t_schema (a_table (ma_area a))) r"
    and f: "memo_field (t_schema (a_table (ma_area a))) g i" "f_Length (t_schema (a_table (ma_area a)) ! i) = 4"
    and am: "ma_memo a = Some am" "appendMemo c am = (am', Inr b)" "b \<noteq> 0" "unat b < 10 ^ 6"
  shows "\<exists>a'. MemoSet now pf g c a = (a', Inr ()) \<and> ma_memo a' = Some am' \<and> MemoGet pf g a' = Inr []"
proof -
  let ?ar = "ma_area a" and ?t = "a_table (ma_area a)" and ?n = "a_recno (ma_area a)" and ?sch = "t_schema (a_table (ma_area a))"
  have i: "i < length ?sch" "f_Type (?sch ! i) = Memo" "ToUpper g = ToUpper (f_Name (?sch ! i))"
    and len: "length (r_Values r) = length ?sch"
    using f(1) r(2) by (auto simp: memo_field_def record_storable_def dest: list_all2_lengthD)
  define rec where "rec v = r\<lparr>r_Values := (r_Values r)[i := v]\<rparr>" for v
  have set: "record_Set ?sch g (VStr s) r = Inr (rec (VStr s))" for s
    using record_at(2) [OF t(4) i(1) len] record_Set_upper [OF i(3)] i(2)
    by (simp add: rec_def validValue_def Let_def field_types)
  have "encodeRecord ?sch (rec (VStr (FormatMemoPointer b))) = encodeRecord ?sch (rec (VStr []))"
    using encodeFields_same [OF i(1) encode_narrow [OF i(2) f(2) am(3,4)]] by (simp add: encodeRecord_def rec_def)
  then have "encodeFor ?t (rec (VStr (FormatMemoPointer b))) = encodeFor ?t (rec (VStr []))"
    using t(2) by (simp add: encodeFor_def applyEncode_def)
  then have same: "table_Put now ?n (rec (VStr (FormatMemoPointer b))) ?t = table_Put now ?n (rec (VStr [])) ?t"
    by (simp add: table_Put_def split: sum.split)
  have "storable (?sch ! i) (VStr [])"
    using i(2) by (simp add: storable_def Let_def)
  then have "record_storable ?sch (rec (VStr []))"
    using r(2) i(1) len by (auto simp: rec_def record_storable_def list_all2_conv_all_nth nth_list_update)
  then have wr: "writes ?t (rec (VStr [])) (rec (VStr []))"
    using t(2,3) by (simp add: writes_def applyEncode_def)
  have n: "?n \<noteq> 0" "?n \<le> t_recordCount ?t"
    using table_Get_range [OF t(1) r(1)] by simp_all
  obtain t' where t': "table_Put now ?n (rec (VStr [])) ?t = (t', Inr ())" "kept ?t t'" "table_Get pf ?n t' = Inr (rec (VStr []))"
    using Put_Get [OF t(1,5,6) wr n, of pf] t(2) by (auto simp: applyDecode_def)
  let ?a = "a\<lparr>ma_memo := Some am', ma_area := ?ar\<lparr>a_table := t'\<rparr>\<rparr>"
  have "area_Record pf ?ar = Inr r"
    using w(2) n(1) r(1) by (simp add: area_Record_def)
  then have "MemoSet now pf g c a = (?a, Inr ())"
    using am(1,2) w(1) set t'(1) same by (simp add: MemoSet_def Let_def)
  moreover have "record_Get ?sch g (rec (VStr [])) = Inr (VStr [])"
    using record_at(1) [OF t(4) i(1), of "rec (VStr [])"] record_Get_upper [OF i(3)] len i(1) by (simp add: rec_def)
  then have "MemoGet pf g ?a = Inr []"
    using t'(2,3) w(2) n(1)
    by (simp add: MemoGet_def area_Record_def kept_def ParseMemoPointer_def trimSpaces_def)
  ultimately show ?thesis
    by (intro exI [of _ ?a]) simp
qed

lemma CompactMemo_none:
  assumes "memoFields (t_schema t) = []" "MemoFormat_of t = MemoFormatDBT" "OpenMemo src = Inr m"
  shows "\<exists>bm new. CompactMemo pf t src [] = (m_rw new, Inr bm) \<and> RewriteMemoPointers pf now bm t = (t, Inr ())
    \<and> OpenMemo (m_rw new) = Inr new \<and> length (m_rw new) = MemoBlockSize"
proof -
  obtain new where new: "CreateMemo [] = Inr new" "dbt_ok new"
    using CreateMemo_ok by blast
  have "length (m_rw new) = MemoBlockSize"
    using new(1) by (auto simp: CreateMemo_def Let_def length_writeAt)
  moreover have "memoPointers pf t = Inr []" "sortedBlocks [] = []"
    using assms(1) by (simp_all add: memoPointers_def sortedBlocks_def)
  moreover have "RewriteMemoPointers pf now bm t = (t, Inr ())" for bm
    using assms(1) by (simp add: RewriteMemoPointers_def Let_def)
  ultimately show ?thesis
    using assms(2,3) new
    by (intro exI [of _ "(new_mapping src)\<lparr>bm_Dropped := m_nextFree m - 1, bm_BytesAfter := MemoBlockSize\<rparr>"] exI [of _ new])
      (simp add: CompactMemo_def compactDBT_def Let_def dbt_ok_def new_mapping_def streamSize_def)
qed

lemma PackAll_unscanned:
  assumes ok: "area_ok tables pf (ma_area a)" and w: "checkWritable (ma_area a) 0 = Inr ()" and now: "clock_ok now"
    and room: "row_count (a_table (ma_area a)) \<le> max_entries"
    and none: "memoFields (t_schema (a_table (ma_area a))) = []"
    and am: "ma_memo a = Some \<lparr>am_format = MemoFormatDBT, am_dbt = Some m, am_fpt = None\<rparr>" "dbt_ok m"
      "MemoFormat_of (a_table (ma_area a)) = MemoFormatDBT"
  shows "\<exists>a' dst' rm bm. PackAll trunc now pf (a, []) = ((a', dst'), Inr (rm, bm))
    \<and> (\<forall>n. snd (Lookup n rm) \<longleftrightarrow> n \<noteq> 0 \<and> unat n \<le> row_count (a_table (ma_area a)) \<and> alive (rows (a_table (ma_area a)) ! (unat n - 1)))
    \<and> (\<forall>n n' r g ptr b. Lookup n rm = (n', True) \<longrightarrow> table_Get pf n (a_table (ma_area a)) = Inr r \<longrightarrow>
         record_Get (t_schema (a_table (ma_area a))) g r = Inr (VStr ptr) \<longrightarrow> ParseMemoPointer ptr = Inr (b, True) \<longrightarrow>
         MemoGet pf g (a'\<lparr>ma_area := (ma_area a')\<lparr>a_recno := n', a_atEOF := False\<rparr>\<rparr>)
           = Inl (Wrap ''memo block is past end of file'' ErrEOF))"
proof -
  let ?t = "a_table (ma_area a)" and ?sch = "t_schema (a_table (ma_area a))"
  obtain ar rm where pk: "area_Pack trunc now pf (ma_area a) = (ar, Inr rm)" "renumbers pf ?t (a_table ar) rm"
    using Pack_area [OF ok w now room, of trunc] by blast
  have "t_recordCount ?t \<noteq> - 1"
  proof
    assume "t_recordCount ?t = - 1"
    then have "unat (t_recordCount ?t) = 2 ^ 32 - 1"
      by (simp add: unsigned_minus_1_eq_mask mask_eq_exp_minus_1)
    then show False
      using room by (simp add: row_count_def max_entries_def)
  qed
  then have k: "kept ?t (a_table ar)"
    and found: "snd (Lookup n rm) \<longleftrightarrow> n \<noteq> 0 \<and> unat n \<le> row_count ?t \<and> alive (rows ?t ! (unat n - 1))" for n
    using Pack_rows [of ?t now trunc] area_Pack_Lookup [OF pk(1), of tables] ok now area_Pack_table [OF pk(1)] by (auto simp: area_ok_def)
  then have s: "t_schema (a_table ar) = ?sch" "MemoFormat_of (a_table ar) = MemoFormatDBT"
    using am(3) MemoFormat_kept [OF k] by (simp_all add: kept_def)
  obtain bm new where c: "CompactMemo pf (a_table ar) (m_rw m) [] = (m_rw new, Inr bm)"
      "RewriteMemoPointers pf now bm (a_table ar) = (a_table ar, Inr ())" "OpenMemo (m_rw new) = Inr new"
      "length (m_rw new) = MemoBlockSize"
    using CompactMemo_none [of "a_table ar" "m_rw m" m pf now] none s am(2) by (auto simp: dbt_ok_def)
  define am' where "am' = \<lparr>am_format = MemoFormatDBT, am_dbt = Some new, am_fpt = None\<rparr>"
  let ?a = "a\<lparr>ma_area := ar, ma_memo := Some am'\<rparr>"
  have run: "PackAll trunc now pf (a, []) = ((?a, m_rw new), Inr (rm, bm))"
    using am(1) pk(1) c s(2) by (simp add: PackAll_def memo_src_def AttachMemo_def attachWith_def am'_def Let_def)
  have gone: "memo_Get new b = Inl (Wrap ''memo block is past end of file'' ErrEOF)" if "b \<noteq> 0" for b
  proof -
    have "MemoBlockSize \<le> unat b * MemoBlockSize"
      using that by (cases "unat b") (simp_all add: unat_eq_0)
    then have "drop (unat b * MemoBlockSize) (m_rw new) = []"
      using c(4) by simp
    then show ?thesis
      using that by (simp add: memo_Get_def memoLoop.simps [of "[]" "[]"])
  qed
  have "MemoGet pf g (?a\<lparr>ma_area := ar\<lparr>a_recno := n', a_atEOF := False\<rparr>\<rparr>) = Inl (Wrap ''memo block is past end of file'' ErrEOF)"
    if lk: "Lookup n rm = (n', True)" and g: "table_Get pf n ?t = Inr r" "record_Get ?sch g r = Inr (VStr ptr)"
      and p: "ParseMemoPointer ptr = Inr (b, True)" for n n' r g ptr b
  proof -
    have get: "table_Get pf n' (a_table ar) = Inr r"
      using lk g(1) pk(2) by (auto simp: renumbers_def)
    then have "n' \<noteq> 0"
      using table_Get_zero [of pf "a_table ar"] by auto
    moreover have "b \<noteq> 0"
      using p pointer_nonzero [of "VStr ptr" b] by (simp add: pointer_in_Some)
    ultimately show ?thesis
      using get g(2) p s(1) gone by (simp add: MemoGet_def area_Record_def memoAt_def am'_def)
  qed
  then show ?thesis
    using run found by (intro exI [of _ ?a] exI [of _ "m_rw new"] exI [of _ rm] exI [of _ bm]) simp
qed

section \<open>A sample area with a memo\<close>

lemma one_record_table:
  assumes "Validate sch = Inr ()" "list_all (field_storable True) sch" "nullFlagsFieldIndex sch = None" "record_storable sch r"
  shows "\<exists>t. wf_table t \<and> persisted sample_tables t \<and> t_schema t = sch \<and> t_codec t = None \<and> MemoFormat_of t = MemoFormatDBT
    \<and> t_recordCount t = 1 \<and> table_Get (\<lambda>_. None) 1 t = Inr r"
proof -
  have vb: "dbfVersionMemo \<in> set known_versions" "isDBaseLineage dbfVersionMemo"
    by (simp_all add: isDBaseLineage_def known_versions_def dbf_versions)
  obtain t0 where t0: "wf_table t0" "persisted sample_tables t0" "t_schema t0 = sch" "t_recordCount t0 = 0"
      "t_codec t0 = None" "t_versionByte t0 = dbfVersionMemo"
    using createAs_ok [OF assms(1) _ vb(1) sample_clock, of sample_tables "[]"] assms(2) vb(2) by auto
  have "writes t0 r r"
    using t0(3,5) assms(3,4) by (simp add: writes_def applyEncode_def)
  then obtain t where "wf_table t" "persisted sample_tables t" "kept t0 t" "t_recordCount t = 1" "table_Get (\<lambda>_. None) 1 t = Inr r"
    using Append_Get [OF t0(1,2) _ sample_clock, of r r "\<lambda>_. None"] t0(4,5) by (auto simp: applyDecode_def)
  then show ?thesis
    using t0(3,5,6) by (intro exI [of _ t]) (simp add: kept_def MemoFormat_of_def dbf_versions)
qed

definition sample_memo_schema :: schema where
  "sample_memo_schema = [sample_field 0x4D Memo 10]"

definition sample_narrow_schema :: schema where
  "sample_narrow_schema = [sample_field 0x4D Memo 4]"

definition sample_binary_schema :: schema where
  "sample_binary_schema = [sample_field 0x42 DBaseBinary 10]"

definition sample_memo_record :: dbf_record where
  "sample_memo_record = \<lparr>r_Deleted = False, r_Values = [VStr (FormatMemoPointer 1)]\<rparr>"

text \<open>An exclusive area on one record whose only field points at block 1, where \<open>A\<close> is stored.\<close>

definition sample_memo_area :: "memo_area \<Rightarrow> bool" where
  "sample_memo_area a \<longleftrightarrow> area_ok sample_tables (\<lambda>_. None) (ma_area a) \<and> plain (a_table (ma_area a))
     \<and> MemoFormat_of (a_table (ma_area a)) = MemoFormatDBT
     \<and> t_schema (a_table (ma_area a)) = sample_memo_schema \<and> t_recordCount (a_table (ma_area a)) = 1
     \<and> table_Get (\<lambda>_. None) 1 (a_table (ma_area a)) = Inr sample_memo_record
     \<and> a_mode (ma_area a) = Exclusive \<and> a_recno (ma_area a) = 1 \<and> \<not> a_atEOF (ma_area a)
     \<and> (\<exists>m. ma_memo a = Some \<lparr>am_format = MemoFormatDBT, am_dbt = Some m, am_fpt = None\<rparr> \<and> dbt_ok m
          \<and> dbt_used m = 2 \<and> dbt_stored m 1 [0x41])"

lemma sample_memo_text: "memo_text [0x41]" "memo_text [0x42]" "memo_text []"
  by (simp_all add: memo_text_def)

lemma sample_memo_blocks: "dbt_blocks m [c] = 1"
  by (simp add: dbt_blocks_def blocks_for_def MemoBlockSize_def)

lemma sample_memo_append:
  assumes "memo_text [c]"
  shows "\<exists>m m'. memo_Append [c] m = (m', Inr 1) \<and> dbt_ok m' \<and> dbt_used m' = 2 \<and> dbt_stored m' 1 [c]"
proof -
  obtain m where m: "dbt_ok m" "dbt_used m = 1"
    using CreateMemo_ok by blast
  have "dbt_used m + dbt_blocks m [c] < 2 ^ 32"
    using m(2) by (simp add: sample_memo_blocks)
  from dbt.append_stored [OF m(1) assms this] obtain m' where
    "memo_Append [c] m = (m', Inr (word_of_nat (dbt_used m)))" "dbt_ok m'" "dbt_stored m' (word_of_nat (dbt_used m)) [c]"
    "dbt_used m' = dbt_used m + dbt_blocks m [c]"
    by blast
  then show ?thesis
    using m(2) by (intro exI [of _ m] exI [of _ m']) (simp add: sample_memo_blocks)
qed

lemma sample_memo_valid:
  "Validate sample_memo_schema = Inr ()" "list_all (field_storable True) sample_memo_schema"
  "Validate sample_narrow_schema = Inr ()" "list_all (field_storable True) sample_narrow_schema"
  "Validate sample_binary_schema = Inr ()" "list_all (field_storable True) sample_binary_schema"
  by (simp_all add: sample_memo_schema_def sample_narrow_schema_def sample_binary_schema_def sample_field_def Validate_def
      schema_validate_def MaxFields_def MaxRecordSize_def record_size_def TrimSpace_def is_space_def ToUpper_def upper_def
      MaxFieldNameLength_def validate_type_def field_types Let_def field_storable_def headerTerminator_def isSupportedType_def
      remapDBaseLineageType_def unmapDBaseLineageType_def)

lemma sample_memo_storable:
  "record_storable sample_memo_schema sample_memo_record" "record_storable sample_binary_schema sample_memo_record"
  using memo_pointer(2,3) [of 1] dec_digits_edges [of 1]
  by (simp_all add: record_storable_def sample_memo_schema_def sample_binary_schema_def sample_memo_record_def storable_def
      sample_field_def memoFieldWidth_def Let_def)

lemma sample_narrow_record: "record_storable sample_narrow_schema \<lparr>r_Deleted = False, r_Values = [VStr []]\<rparr>"
  by (simp add: record_storable_def sample_narrow_schema_def storable_def sample_field_def Let_def)

lemma sample_flags:
  "nullFlagsFieldIndex sample_memo_schema = None" "nullFlagsFieldIndex sample_narrow_schema = None"
  "nullFlagsFieldIndex sample_binary_schema = None"
  by (simp_all add: sample_memo_schema_def sample_narrow_schema_def sample_binary_schema_def sample_field_def)

lemma sample_memo_exists: "\<exists>a. sample_memo_area a"
proof -
  obtain t where t: "wf_table t" "persisted sample_tables t" "t_schema t = sample_memo_schema" "t_codec t = None"
      "MemoFormat_of t = MemoFormatDBT" "t_recordCount t = 1" "table_Get (\<lambda>_. None) 1 t = Inr sample_memo_record"
    using one_record_table [OF sample_memo_valid(1,2) sample_flags(1) sample_memo_storable(1)] by blast
  have "plain t"
    using t sample_flags(1) by (simp add: plain_def sample_memo_schema_def sample_field_def distinct_names_def memo_widths_def memoFieldWidth_def)
  moreover obtain m where "dbt_ok m" "dbt_used m = 2" "dbt_stored m 1 [0x41]"
    using sample_memo_append [OF sample_memo_text(1)] by blast
  ultimately have "sample_memo_area \<lparr>ma_area = (newArea [0x54] t None)\<lparr>a_recno := 1\<rparr>,
      ma_memo = Some \<lparr>am_format = MemoFormatDBT, am_dbt = Some m, am_fpt = None\<rparr>\<rparr>"
    using t by (simp add: sample_memo_area_def area_ok_def newArea_def)
  then show ?thesis
    by blast
qed

lemma sample_memo_live:
  assumes "sample_memo_area a"
  shows "live_blocks (\<lambda>_. None) (a_table (ma_area a)) \<subseteq> {1}" "all_storable (\<lambda>_. None) (a_table (ma_area a))"
proof -
  let ?t = "a_table (ma_area a)"
  have wf: "wf_table ?t" and c: "t_recordCount ?t = 1" and g: "table_Get (\<lambda>_. None) 1 ?t = Inr sample_memo_record"
    and sch: "t_schema ?t = sample_memo_schema"
    using assms by (simp_all add: sample_memo_area_def area_ok_def)
  have one: "n = 1" if "n \<noteq> 0" "n \<le> t_recordCount ?t" for n
  proof -
    have "unat n = 1"
      using that c by (metis One_nat_def Suc_leI le_antisym unat_1 unat_gt_0 word_le_nat_alt)
    then show ?thesis
      by (metis unat_1 word_unat_eq_iff)
  qed
  then show "all_storable (\<lambda>_. None) ?t"
    using g sample_memo_storable(1) sch unfolding all_storable_def by metis
  have "r = sample_memo_record" if "table_Get (\<lambda>_. None) n ?t = Inr r" for n r
  proof -
    have "n = 1"
      using one table_Get_range [OF wf that] by blast
    then show ?thesis
      using that g by simp
  qed
  moreover have "refers sample_memo_schema sample_memo_record \<subseteq> {1}"
    using memo_pointer(1) [of 1] by (auto simp: refers_def memo_at_def sample_memo_schema_def sample_memo_record_def pointer_in_def)
  ultimately show "live_blocks (\<lambda>_. None) ?t \<subseteq> {1}"
    using sch by (auto simp: live_blocks_def)
qed

lemma sample_memo_ready:
  assumes "sample_memo_area a"
  shows "\<exists>am. ma_memo a = Some am \<and> memos_ready (\<lambda>_. None) (a_table (ma_area a)) am \<and> memo_room am [0x42]"
proof -
  obtain m where m: "ma_memo a = Some \<lparr>am_format = MemoFormatDBT, am_dbt = Some m, am_fpt = None\<rparr>" "dbt_ok m" "dbt_used m = 2"
      "dbt_stored m 1 [0x41]"
    using assms by (auto simp: sample_memo_area_def)
  have "dbt_blocks m (projr (memo_Get m 1)) = 1"
    using dbt.get_stored [OF m(2,4)] by (simp add: sample_memo_blocks)
  then have "(\<Sum>b \<in> live_blocks (\<lambda>_. None) (a_table (ma_area a)). dbt_blocks m (projr (memo_Get m b))) \<le> 1"
    using sum_mono2 [OF _ sample_memo_live(1) [OF assms], of "\<lambda>b. dbt_blocks m (projr (memo_Get m b))"] by simp
  then show ?thesis
    using m assms sample_memo_live(1) [OF assms] sample_memo_text
    by (auto simp: memos_ready_def memo_ok_def memo_room_def memo_stored_def sample_memo_area_def sample_memo_blocks)
qed

section \<open>The properties\<close>





text \<open>C32: \<open>Validate\<close> admits memo fields of four bytes, but the pointers are ten characters: \<open>MemoSet\<close> on such
  a field reports success and stores the first four characters, blanks for the first million blocks,
  so that \<open>MemoGet\<close> finds no memo, whatever the content was.\<close>

theorem MemoSet_narrow_loses:
  assumes "wf_table (a_table (ma_area a))" "t_codec (a_table (ma_area a)) = None"
    and "nullFlagsFieldIndex (t_schema (a_table (ma_area a))) = None" "distinct_names (t_schema (a_table (ma_area a)))"
    and "persisted tables (a_table (ma_area a))" "clock_ok now"
    and "checkWritable (ma_area a) (a_recno (ma_area a)) = Inr ()" "\<not> a_atEOF (ma_area a)"
    and "table_Get pf (a_recno (ma_area a)) (a_table (ma_area a)) = Inr r" "record_storable (t_schema (a_table (ma_area a))) r"
    and "memo_field (t_schema (a_table (ma_area a))) g i" "f_Length (t_schema (a_table (ma_area a)) ! i) = 4"
    and "ma_memo a = Some am" "appendMemo c am = (am', Inr b)" "b \<noteq> 0" "unat b < 10 ^ 6"
  shows "\<exists>a'. MemoSet now pf g c a = (a', Inr ()) \<and> ma_memo a' = Some am' \<and> MemoGet pf g a' = Inr []"
  by (rule MemoSet_narrow [OF assms])

theorem MemoSet_narrow_loses_witness:
  "\<exists>a a' am. ma_memo a = Some am \<and> MemoSet sample_now (\<lambda>_. None) [0x4D] [0x42] a = (a', Inr ()) \<and> MemoGet (\<lambda>_. None) [0x4D] a' = Inr []"
proof -
  obtain t m m' where t: "wf_table t" "persisted sample_tables t" "t_codec t = None" "t_schema t = sample_narrow_schema"
      "table_Get (\<lambda>_. None) 1 t = Inr \<lparr>r_Deleted = False, r_Values = [VStr []]\<rparr>"
    and m: "memo_Append [0x42] m = (m', Inr 1)"
    using one_record_table [OF sample_memo_valid(3,4) sample_flags(2) sample_narrow_record] sample_memo_append [OF sample_memo_text(2)] by blast
  define am where "am m = \<lparr>am_format = MemoFormatDBT, am_dbt = Some m, am_fpt = None\<rparr>" for m :: memo_file
  define a where "a = \<lparr>ma_area = (newArea [0x54] t None)\<lparr>a_recno := 1\<rparr>, ma_memo = Some (am m)\<rparr>"
  have a: "a_table (ma_area a) = t" "a_recno (ma_area a) = 1" "\<not> a_atEOF (ma_area a)" "checkWritable (ma_area a) 1 = Inr ()"
      "ma_memo a = Some (am m)"
    by (simp_all add: a_def newArea_def checkWritable_def)
  have "appendMemo [0x42] (am m) = (am m', Inr 1)"
    using m by (simp add: appendMemo_def am_def)
  moreover have "memo_field sample_narrow_schema [0x4D] 0" "distinct_names sample_narrow_schema"
    "nullFlagsFieldIndex sample_narrow_schema = None" "f_Length (sample_narrow_schema ! 0) = 4"
    by (simp_all add: memo_field_def sample_narrow_schema_def sample_field_def distinct_names_def)
  ultimately have "\<exists>a'. MemoSet sample_now (\<lambda>_. None) [0x4D] [0x42] a = (a', Inr ()) \<and> ma_memo a' = Some (am m')
      \<and> MemoGet (\<lambda>_. None) [0x4D] a' = Inr []"
    using t a sample_clock sample_narrow_record sample_flags(2)
    by (intro MemoSet_narrow_loses [of a sample_tables sample_now "\<lambda>_. None" "\<lparr>r_Deleted = False, r_Values = [VStr []]\<rparr>" "[0x4D]" 0
        "am m" "[0x42]" "am m'" 1]) simp_all
  then show ?thesis
    using a(5) by blast
qed

text \<open>C33: \<open>PackAll\<close> looks for memo pointers only in fields of type M: when a dBASE table refers to its memos
  from B or G fields alone, it succeeds, leaves an empty memo file attached and every pointer as it
  was, so that \<open>MemoGet\<close> fails for every record that had a memo.\<close>

theorem PackAll_forgets_other_pointers:
  assumes "area_ok tables pf (ma_area a)" "checkWritable (ma_area a) 0 = Inr ()" "clock_ok now"
    and "row_count (a_table (ma_area a)) \<le> max_entries" "memoFields (t_schema (a_table (ma_area a))) = []"
    and "ma_memo a = Some \<lparr>am_format = MemoFormatDBT, am_dbt = Some m, am_fpt = None\<rparr>" "dbt_ok m"
    and "MemoFormat_of (a_table (ma_area a)) = MemoFormatDBT"
  shows "\<exists>a' dst' rm bm. PackAll trunc now pf (a, []) = ((a', dst'), Inr (rm, bm))
    \<and> (\<forall>n. snd (Lookup n rm) \<longleftrightarrow> n \<noteq> 0 \<and> unat n \<le> row_count (a_table (ma_area a)) \<and> alive (rows (a_table (ma_area a)) ! (unat n - 1)))
    \<and> (\<forall>n n' r g ptr b. Lookup n rm = (n', True) \<longrightarrow> table_Get pf n (a_table (ma_area a)) = Inr r \<longrightarrow>
         record_Get (t_schema (a_table (ma_area a))) g r = Inr (VStr ptr) \<longrightarrow> ParseMemoPointer ptr = Inr (b, True) \<longrightarrow>
         MemoGet pf g (a'\<lparr>ma_area := (ma_area a')\<lparr>a_recno := n', a_atEOF := False\<rparr>\<rparr>)
           = Inl (Wrap ''memo block is past end of file'' ErrEOF))"
  by (rule PackAll_unscanned [OF assms])

theorem PackAll_forgets_other_pointers_witness:
  "\<exists>a a' dst' rm bm n'. MemoGet (\<lambda>_. None) [0x42] a = Inr [0x41]
    \<and> PackAll True sample_now (\<lambda>_. None) (a, []) = ((a', dst'), Inr (rm, bm)) \<and> Lookup 1 rm = (n', True)
    \<and> MemoGet (\<lambda>_. None) [0x42] (a'\<lparr>ma_area := (ma_area a')\<lparr>a_recno := n', a_atEOF := False\<rparr>\<rparr>)
       = Inl (Wrap ''memo block is past end of file'' ErrEOF)"
proof -
  obtain t m where t: "wf_table t" "persisted sample_tables t" "t_schema t = sample_binary_schema"
      "MemoFormat_of t = MemoFormatDBT" "t_recordCount t = 1" "table_Get (\<lambda>_. None) 1 t = Inr sample_memo_record"
    and m: "dbt_ok m" "dbt_stored m 1 [0x41]"
    using one_record_table [OF sample_memo_valid(5,6) sample_flags(3) sample_memo_storable(2)] sample_memo_append [OF sample_memo_text(1)] by blast
  define a where "a = \<lparr>ma_area = (newArea [0x54] t None)\<lparr>a_recno := 1\<rparr>,
    ma_memo = Some \<lparr>am_format = MemoFormatDBT, am_dbt = Some m, am_fpt = None\<rparr>\<rparr>"
  have get: "record_Get sample_binary_schema [0x42] sample_memo_record = Inr (VStr (FormatMemoPointer 1))"
    by (simp add: record_Get_def schemaFieldIndex_def sample_binary_schema_def sample_field_def sample_memo_record_def GetIndex_def)
  have before: "MemoGet (\<lambda>_. None) [0x42] a = Inr [0x41]"
    using t(3,6) get memo_pointer(1) [of 1] dbt.get_stored [OF m]
    by (simp add: a_def newArea_def MemoGet_def area_Record_def memoAt_def)
  have "alive (rows t ! (unat (1 :: u32) - 1))"
    using alive_record [OF t(1,6)] by (simp add: sample_memo_record_def)
  moreover have "memoFields sample_binary_schema = []"
    by (simp add: memoFields_def sample_binary_schema_def sample_field_def field_types)
  moreover have "area_ok sample_tables (\<lambda>_. None) (ma_area a)" "checkWritable (ma_area a) 0 = Inr ()" "a_table (ma_area a) = t"
      "ma_memo a = Some \<lparr>am_format = MemoFormatDBT, am_dbt = Some m, am_fpt = None\<rparr>" "row_count t \<le> max_entries" "row_count t = 1"
    using t(1,2,5) by (simp_all add: a_def newArea_def area_ok_def checkWritable_def row_count_def max_entries_def)
  ultimately obtain a' dst' rm bm where p: "PackAll True sample_now (\<lambda>_. None) (a, []) = ((a', dst'), Inr (rm, bm))"
      "snd (Lookup 1 rm)" "\<forall>n n' r g ptr b. Lookup n rm = (n', True) \<longrightarrow> table_Get (\<lambda>_. None) n t = Inr r \<longrightarrow>
         record_Get sample_binary_schema g r = Inr (VStr ptr) \<longrightarrow> ParseMemoPointer ptr = Inr (b, True) \<longrightarrow>
         MemoGet (\<lambda>_. None) g (a'\<lparr>ma_area := (ma_area a')\<lparr>a_recno := n', a_atEOF := False\<rparr>\<rparr>)
           = Inl (Wrap ''memo block is past end of file'' ErrEOF)"
    using PackAll_forgets_other_pointers [of sample_tables "\<lambda>_. None" a sample_now m True] t(3,4) m(1) sample_clock by force
  obtain n' where "Lookup 1 rm = (n', True)"
    using p(2) by (cases "Lookup 1 rm") simp
  moreover from this have "MemoGet (\<lambda>_. None) [0x42] (a'\<lparr>ma_area := (ma_area a')\<lparr>a_recno := n', a_atEOF := False\<rparr>\<rparr>)
      = Inl (Wrap ''memo block is past end of file'' ErrEOF)"
    using p(3) t(6) get memo_pointer(1) [of 1] by simp
  ultimately show ?thesis
    using before p(1) by blast
qed

end
