(* ===== verification/Ndx.thy ===== *)
theory Ndx
  imports NtxTree DbfCodec "HOL-Library.Product_Lexorder"
begin

text \<open>
  The dBASE III+ index of package \<open>ndx\<close>: a header page, pages of fixed-size key records, \<open>Build\<close>
  that writes a whole tree from sorted entries level by level, and the traversal with its set of
  visited pages, on which \<open>Entries\<close>, \<open>Count\<close>, \<open>Seek\<close>, \<open>First\<close> and \<open>Last\<close> rest.
\<close>

section \<open>The index\<close>

definition PageSize :: nat where "PageSize = 512"

definition KeyTypeCharacter :: u16 where "KeyTypeCharacter = 0"

definition KeyTypeNumeric :: u16 where "KeyTypeNumeric = 1"

definition ndx_MaxKeyExpr :: nat where "ndx_MaxKeyExpr = PageSize - 24"

definition ndx_MaxKeySize :: u16 where "ndx_MaxKeySize = 100"

definition ErrInvalidHeader :: error where "ErrInvalidHeader = Errorf ''ndx: invalid index header''"

definition ErrKeySize :: error where "ErrKeySize = Errorf ''ndx: key length does not match index''"

record ndx_options =
  no_keyExpr :: bytes
  no_keySize :: u16
  no_keyType :: u16
  no_unique :: bool

record ndx_index =
  nx_rw :: bytes
  nx_keyExpr :: bytes
  nx_keySize :: u16
  nx_keyType :: u16
  nx_unique :: bool
  nx_keysPerPage :: u16
  nx_recordSize :: u32
  nx_root :: u32
  nx_pageCount :: u32

record ndx_entry =
  ne_key :: bytes
  ne_recno :: u32

definition keyRecordSize :: "u16 \<Rightarrow> u32" where
  "keyRecordSize keySize = (let padded = (ucast keySize + 3) div 4 * 4 in 4 + 4 + padded)"

definition keysPerPageFor :: "u32 \<Rightarrow> u16" where
  "keysPerPageFor recordSize = ucast ((word_of_nat (PageSize - 4) :: u32) div recordSize)"

section \<open>The header page\<close>

definition ndx_validate :: "ndx_index \<Rightarrow> error + unit" where
  "ndx_validate ix =
     (if nx_keySize ix = 0 then Inl (Wrap ''key length is zero'' ErrInvalidHeader)
      else if nx_keySize ix > ndx_MaxKeySize then Inl (Wrap ''key length'' ErrInvalidHeader)
      else if nx_keyType ix = KeyTypeNumeric \<and> nx_keySize ix \<noteq> 8 then Inl (Wrap ''numeric key length'' ErrInvalidHeader)
      else if nx_keyType ix \<noteq> KeyTypeCharacter \<and> nx_keyType ix \<noteq> KeyTypeNumeric
        then Inl (Wrap ''unknown key type'' ErrInvalidHeader)
      else if nx_recordSize ix \<noteq> keyRecordSize (nx_keySize ix) then Inl (Wrap ''record size'' ErrInvalidHeader)
      else if nx_keysPerPage ix = 0 then Inl (Wrap ''keys per page is zero'' ErrInvalidHeader)
      else if ucast (nx_keysPerPage ix) * nx_recordSize ix + 4 > word_of_nat PageSize
        then Inl (Wrap ''keys will not fit a page'' ErrInvalidHeader)
      else Inr ())"

text \<open>The whole of \<open>Open\<close>: the stream is kept in the index.\<close>

definition ndx_readHeader :: "bytes \<Rightarrow> error + ndx_index" where
  "ndx_readHeader rw =
     (case readAt rw 0 PageSize of
        Inl e \<Rightarrow> Inl (Wrap ''ndx: read header'' e)
      | Inr raw \<Rightarrow>
          let ix = \<lparr>nx_rw = rw, nx_keyExpr = takeWhile (\<lambda>c. c \<noteq> 0) (drop 24 raw),
                nx_keySize = get_u16 (seg 12 2 raw), nx_keyType = get_u16 (seg 16 2 raw), nx_unique = (raw ! 23 \<noteq> 0),
                nx_keysPerPage = get_u16 (seg 14 2 raw), nx_recordSize = get_u32 (seg 18 4 raw),
                nx_root = get_u32 (seg 0 4 raw), nx_pageCount = get_u32 (seg 4 4 raw)\<rparr>
          in case ndx_validate ix of Inl e \<Rightarrow> Inl e | Inr _ \<Rightarrow> Inr ix)"

definition ndx_Open :: "bytes \<Rightarrow> error + ndx_index" where
  "ndx_Open = ndx_readHeader"

definition ndx_header_bytes :: "ndx_index \<Rightarrow> bytes" where
  "ndx_header_bytes ix =
     (let raw = replicate PageSize 0;
          raw = put_at raw 0 (put_u32 (nx_root ix));
          raw = put_at raw 4 (put_u32 (nx_pageCount ix));
          raw = put_at raw 12 (put_u16 (nx_keySize ix));
          raw = put_at raw 14 (put_u16 (nx_keysPerPage ix));
          raw = put_at raw 16 (put_u16 (nx_keyType ix));
          raw = put_at raw 18 (put_u32 (nx_recordSize ix));
          raw = (if nx_unique ix then put_at raw 23 [1] else raw)
      in put_at raw 24 (take (ndx_MaxKeyExpr - 1) (nx_keyExpr ix)))"

definition ndx_writeHeader :: "(ndx_index, unit) op" where
  "ndx_writeHeader ix = (ix\<lparr>nx_rw := writeAt (nx_rw ix) 0 (ndx_header_bytes ix)\<rparr>, Inr ())"

definition ndx_Create :: "bytes \<Rightarrow> ndx_options \<Rightarrow> error + ndx_index" where
  "ndx_Create rw opts =
     (if no_keySize opts = 0 then Inl (Wrap ''key size must be non-zero'' ErrInvalidHeader)
      else if no_keySize opts > ndx_MaxKeySize then Inl (Wrap ''key size'' ErrInvalidHeader)
      else if no_keyType opts = KeyTypeNumeric \<and> no_keySize opts \<noteq> 8 then Inl (Wrap ''numeric keys are 8 bytes'' ErrInvalidHeader)
      else if no_keyType opts \<noteq> KeyTypeCharacter \<and> no_keyType opts \<noteq> KeyTypeNumeric
        then Inl (Wrap ''unknown key type'' ErrInvalidHeader)
      else if length (no_keyExpr opts) \<ge> ndx_MaxKeyExpr then Inl (Wrap ''key expression'' ErrInvalidHeader)
      else
        let recordSize = keyRecordSize (no_keySize opts); perPage = keysPerPageFor recordSize in
        if perPage < 2 then Inl (Wrap ''key size leaves too little room'' ErrInvalidHeader)
        else
          let ix = \<lparr>nx_rw = rw, nx_keyExpr = no_keyExpr opts, nx_keySize = no_keySize opts, nx_keyType = no_keyType opts,
                nx_unique = no_unique opts, nx_keysPerPage = perPage, nx_recordSize = recordSize, nx_root = 0,
                nx_pageCount = 1\<rparr>
          in case ndx_writeHeader ix of (ix, Inl e) \<Rightarrow> Inl e | (ix, Inr _) \<Rightarrow> Inr ix)"

section \<open>Pages\<close>

record page_entry =
  pe_lower :: u32
  pe_recno :: u32
  pe_key :: bytes

record ndx_page =
  pg_number :: u32
  pg_entries :: "page_entry list"

definition ndx_pageOffset :: "u32 \<Rightarrow> nat" where
  "ndx_pageOffset page = unat page * PageSize"

text \<open>The loops over the key records of a page; \<open>n\<close> records are left from offset \<open>off\<close>.\<close>

fun readEntries :: "ndx_index \<Rightarrow> bytes \<Rightarrow> nat \<Rightarrow> nat \<Rightarrow> page_entry list" where
  "readEntries ix raw 0 off = []"
| "readEntries ix raw (Suc n) off =
     \<lparr>pe_lower = get_u32 (seg off 4 raw), pe_recno = get_u32 (seg (off + 4) 4 raw),
      pe_key = seg (off + 8) (unat (nx_keySize ix)) raw\<rparr> # readEntries ix raw n (off + unat (nx_recordSize ix))"

fun putEntries :: "ndx_index \<Rightarrow> page_entry list \<Rightarrow> nat \<Rightarrow> bytes \<Rightarrow> bytes" where
  "putEntries ix [] off raw = raw"
| "putEntries ix (e # es) off raw =
     (let raw = put_at raw off (put_u32 (pe_lower e));
          raw = put_at raw (off + 4) (put_u32 (pe_recno e));
          raw = put_at raw (off + 8) (take (unat (nx_keySize ix)) (pe_key e))
      in putEntries ix es (off + unat (nx_recordSize ix)) raw)"

definition readPage :: "ndx_index \<Rightarrow> u32 \<Rightarrow> error + ndx_page" where
  "readPage ix number =
     (if number = 0 then Inl (Wrap ''page 0 is the header, not an index page'' ErrCorrupt)
      else case readAt (nx_rw ix) (ndx_pageOffset number) PageSize of
        Inl e \<Rightarrow> Inl (Wrap ''ndx: read page'' e)
      | Inr raw \<Rightarrow>
          let count = get_u32 (seg 0 4 raw) in
          if count > ucast (nx_keysPerPage ix) then Inl (Wrap ''page claims too many entries'' ErrCorrupt)
          else Inr \<lparr>pg_number = number, pg_entries = readEntries ix raw (unat count) 4\<rparr>)"

definition writePage :: "ndx_page \<Rightarrow> (ndx_index, unit) op" where
  "writePage p ix =
     (if length (pg_entries p) > unat (nx_keysPerPage ix) then (ix, Inl (Errorf ''entries exceed page capacity''))
      else
        let raw = put_at (replicate PageSize 0) 0 (put_u32 (word_of_nat (length (pg_entries p))));
            raw = putEntries ix (pg_entries p) 4 raw
        in (ix\<lparr>nx_rw := writeAt (nx_rw ix) (ndx_pageOffset (pg_number p)) raw\<rparr>, Inr ()))"

section \<open>Comparing keys\<close>

definition f64_nan :: "u64 \<Rightarrow> bool" where
  "f64_nan v \<longleftrightarrow> f64_exp v = 2047 \<and> f64_mant v \<noteq> 0"

text \<open>The order of the numbers that are not NaN: sign and magnitude of the bits; the two zeros are equal.\<close>

definition f64_rank :: "u64 \<Rightarrow> int" where
  "f64_rank v = (if f64_sign v then - int (unat (f64_abs v)) else int (unat (f64_abs v)))"

definition f64_less :: "u64 \<Rightarrow> u64 \<Rightarrow> bool" where
  "f64_less x y \<longleftrightarrow> \<not> f64_nan x \<and> \<not> f64_nan y \<and> f64_rank x < f64_rank y"

definition compareDoubles :: "bytes \<Rightarrow> bytes \<Rightarrow> int" where
  "compareDoubles a b =
     (if length a < 8 \<or> length b < 8 then bytes_compare a b
      else
        let x = get_u64 (take 8 a); y = get_u64 (take 8 b) in
        if f64_less x y then - 1 else if f64_less y x then 1 else 0)"

definition compareKeys :: "ndx_index \<Rightarrow> bytes \<Rightarrow> bytes \<Rightarrow> int" where
  "compareKeys ix a b = (if nx_keyType ix = KeyTypeNumeric then compareDoubles a b else bytes_compare a b)"

definition EncodeNumericKey :: "u64 \<Rightarrow> bytes" where
  "EncodeNumericKey v = put_u64 v"

definition DecodeNumericKey :: "bytes \<Rightarrow> error + u64" where
  "DecodeNumericKey key =
     (if length key < 8 then Inl (Wrap ''numeric key'' ErrKeySize) else Inr (get_u64 (take 8 key)))"

section \<open>The traversal\<close>

text \<open>The callback updates a state of the caller's and may fail.  The recursion is given fuel; the state is the
  visited set with the caller's state.\<close>

fun walkPage :: "nat \<Rightarrow> ndx_index \<Rightarrow> (ndx_entry \<Rightarrow> ('s, unit) op) \<Rightarrow> u32 \<Rightarrow> (u32 list \<times> 's, unit) op"
  and walkEntries :: "nat \<Rightarrow> ndx_index \<Rightarrow> (ndx_entry \<Rightarrow> ('s, unit) op) \<Rightarrow> page_entry list \<Rightarrow> (u32 list \<times> 's, unit) op" where
  "walkPage 0 ix fn number st = (st, Inl OutOfFuel)"
| "walkPage (Suc fuel) ix fn number (visited, s) =
     (if number = 0 then ((visited, s), Inr ())
      else if number \<in> set visited then ((visited, s), Inl (Wrap ''page revisited during traversal'' ErrCorrupt))
      else
        let visited = number # visited in
        case readPage ix number of
          Inl e \<Rightarrow> ((visited, s), Inl e)
        | Inr p \<Rightarrow> walkEntries fuel ix fn (pg_entries p) (visited, s))"
| "walkEntries fuel ix fn [] st = (st, Inr ())"
| "walkEntries fuel ix fn (e # es) st =
     (case (if pe_lower e \<noteq> 0 then walkPage fuel ix fn (pe_lower e) st else (st, Inr ())) of
        (st, Inl err) \<Rightarrow> (st, Inl err)
      | ((visited, s), Inr _) \<Rightarrow>
          (case (if pe_recno e \<noteq> 0 then fn \<lparr>ne_key = pe_key e, ne_recno = pe_recno e\<rparr> s else (s, Inr ())) of
             (s, Inl err) \<Rightarrow> ((visited, s), Inl err)
           | (s, Inr _) \<Rightarrow> walkEntries fuel ix fn es (visited, s)))"

text \<open>No page number is visited twice, and only pages inside the file are entered, which bounds the depth.\<close>

definition walk_fuel :: "ndx_index \<Rightarrow> nat" where
  "walk_fuel ix = length (nx_rw ix) div PageSize + 1"

definition walk :: "ndx_index \<Rightarrow> (ndx_entry \<Rightarrow> ('s, unit) op) \<Rightarrow> ('s, unit) op" where
  "walk ix fn s =
     (if nx_root ix = 0 then (s, Inr ())
      else case walkPage (walk_fuel ix) ix fn (nx_root ix) ([], s) of ((_, s), r) \<Rightarrow> (s, r))"

definition Traverse :: "ndx_index \<Rightarrow> (ndx_entry \<Rightarrow> ('s, unit) op) \<Rightarrow> ('s, unit) op" where
  "Traverse ix fn = walk ix fn"

definition Entries :: "ndx_index \<Rightarrow> error + ndx_entry list" where
  "Entries ix = (case walk ix (\<lambda>e out. (out @ [e], Inr ())) [] of (out, r) \<Rightarrow> bindR r (\<lambda>_. Inr out))"

definition Count :: "ndx_index \<Rightarrow> error + nat" where
  "Count ix = (case walk ix (\<lambda>e n. (n + 1, Inr ())) 0 of (n, r) \<Rightarrow> bindR r (\<lambda>_. Inr n))"

definition ndx_Seek :: "bytes \<Rightarrow> ndx_index \<Rightarrow> error + u32 list" where
  "ndx_Seek key ix =
     (if length key \<noteq> unat (nx_keySize ix) then Inl (Wrap ''key'' ErrKeySize)
      else case walk ix (\<lambda>e out. (if compareKeys ix (ne_key e) key = 0 then out @ [ne_recno e] else out, Inr ())) [] of
        (out, r) \<Rightarrow> bindR r (\<lambda>_. Inr out))"

definition ndx_First :: "ndx_index \<Rightarrow> error + ndx_entry option" where
  "ndx_First ix =
     (case walk ix (\<lambda>e first. (if first = None then Some e else first, Inr ())) None of (first, r) \<Rightarrow> bindR r (\<lambda>_. Inr first))"

definition ndx_Last :: "ndx_index \<Rightarrow> error + ndx_entry option" where
  "ndx_Last ix = (case walk ix (\<lambda>e _. (Some e, Inr ())) None of (l, r) \<Rightarrow> bindR r (\<lambda>_. Inr l))"

section \<open>Building\<close>

definition entryLess :: "ndx_index \<Rightarrow> ndx_entry \<Rightarrow> ndx_entry \<Rightarrow> bool" where
  "entryLess ix a b =
     (let c = compareKeys ix (ne_key a) (ne_key b) in if c \<noteq> 0 then c < 0 else ne_recno a < ne_recno b)"

text \<open>The first of each run of equal keys.  The code filters the slice in place; the element before the current
  one is still unchanged when it is compared, because the kept ones are written at or before their own place.\<close>

fun dedupeFrom :: "ndx_index \<Rightarrow> ndx_entry \<Rightarrow> ndx_entry list \<Rightarrow> ndx_entry list" where
  "dedupeFrom ix prev [] = []"
| "dedupeFrom ix prev (e # es) =
     (if compareKeys ix (ne_key prev) (ne_key e) = 0 then dedupeFrom ix e es else e # dedupeFrom ix e es)"

definition dedupe :: "ndx_index \<Rightarrow> ndx_entry list \<Rightarrow> ndx_entry list" where
  "dedupe ix es = (case es of [] \<Rightarrow> [] | e # rest \<Rightarrow> e # dedupeFrom ix e rest)"

text \<open>Both levels of loops cut a list into pieces of \<open>n\<close>; \<open>n\<close> is never zero in an index that was opened.\<close>

function chunks :: "nat \<Rightarrow> 'a list \<Rightarrow> 'a list list" where
  "chunks n xs = (if xs = [] \<or> n = 0 then [] else take n xs # chunks n (drop n xs))"
  by pat_completeness auto
termination
  by (relation "measure (\<lambda>(n, xs). length xs)") auto

declare chunks.simps [simp del]

fun makePages :: "('a \<Rightarrow> page_entry) \<Rightarrow> 'a list list \<Rightarrow> u32 \<Rightarrow> ndx_page list" where
  "makePages entry [] next = []"
| "makePages entry (c # cs) next = \<lparr>pg_number = next, pg_entries = map entry c\<rparr> # makePages entry cs (next + 1)"

definition leafEntry :: "ndx_entry \<Rightarrow> page_entry" where
  "leafEntry e = \<lparr>pe_lower = 0, pe_recno = ne_recno e, pe_key = ne_key e\<rparr>"

definition separatorEntry :: "ndx_page \<Rightarrow> page_entry" where
  "separatorEntry child = \<lparr>pe_lower = pg_number child, pe_recno = 0, pe_key = pe_key (last (pg_entries child))\<rparr>"

text \<open>The interior levels: all pages, the top page and the next page number; \<open>None\<close> when the fuel runs out.\<close>

fun buildLevels :: "nat \<Rightarrow> nat \<Rightarrow> ndx_page list \<Rightarrow> u32 \<Rightarrow> ndx_page list \<Rightarrow> (ndx_page list \<times> ndx_page list \<times> u32) option" where
  "buildLevels 0 perPage level next all = (if length level > 1 then None else Some (all, level, next))"
| "buildLevels (Suc fuel) perPage level next all =
     (if length level > 1 then
        let parents = makePages separatorEntry (chunks perPage level) next in
        buildLevels fuel perPage parents (next + word_of_nat (length parents)) (all @ parents)
      else Some (all, level, next))"

fun writePages :: "ndx_page list \<Rightarrow> (ndx_index, unit) op" where
  "writePages [] ix = (ix, Inr ())"
| "writePages (p # ps) ix = bindS (writePage p) (\<lambda>_. writePages ps) ix"

definition sortEntries :: "ndx_index \<Rightarrow> ndx_entry list \<Rightarrow> ndx_entry list" where
  "sortEntries ix entries =
     (let es = SliceStable (entryLess ix) entries in if nx_unique ix then dedupe ix es else es)"

definition ndx_Build :: "nat \<Rightarrow> ndx_entry list \<Rightarrow> (ndx_index, unit) op" where
  "ndx_Build fuel entries ix =
     (if list_ex (\<lambda>e. length (ne_key e) \<noteq> unat (nx_keySize ix)) entries then (ix, Inl (Wrap ''key'' ErrKeySize))
      else
        let es = sortEntries ix entries in
        if es = [] then ndx_writeHeader (ix\<lparr>nx_root := 0, nx_pageCount := 1\<rparr>)
        else
          let perPage = unat (nx_keysPerPage ix);
              leaves = makePages leafEntry (chunks perPage es) 1
          in case buildLevels fuel perPage leaves (1 + word_of_nat (length leaves)) leaves of
               None \<Rightarrow> (ix, Inl OutOfFuel)
             | Some (all, level, next) \<Rightarrow>
                 bindS (writePages all) (\<lambda>_ ix.
                   ndx_writeHeader (ix\<lparr>nx_root := pg_number (hd level), nx_pageCount := next\<rparr>)) ix)"

end
