(* ===== verification/NdxPage.thy ===== *)
theory NdxPage
  imports Ndx
begin

text \<open>
  The bytes of an NDX file: the header and the pages read back as they were written, and writing a
  set of pages leaves every one of them readable.
\<close>

section \<open>Geometry\<close>

lemma keyRecordSize_nat:
  assumes "ks \<le> ndx_MaxKeySize"
  shows "unat (keyRecordSize ks) = 8 + (unat ks + 3) div 4 * 4"
proof -
  have ks: "unat ks \<le> 100"
    using assms by (simp add: ndx_MaxKeySize_def word_le_nat_alt)
  have "unat (ucast ks :: u32) = unat ks"
    using unsigned_less [of ks, where 'a = nat] by (simp add: unsigned_ucast_eq take_bit_nat_eq_self)
  then have "unat (ucast ks + 3 :: u32) = unat ks + 3"
    using ks by (simp add: unat_word_ariths)
  then have "unat ((ucast ks + 3 :: u32) div 4 * 4) = (unat ks + 3) div 4 * 4"
    using ks by (simp add: unat_word_ariths unat_div)
  then show ?thesis
    using ks by (simp add: keyRecordSize_def Let_def unat_word_ariths)
qed

lemma valid_geometry:
  assumes "ndx_validate ix = Inr ()"
  shows "8 + unat (nx_keySize ix) \<le> unat (nx_recordSize ix)" "4 + unat (nx_keysPerPage ix) * unat (nx_recordSize ix) \<le> PageSize"
    and "0 < unat (nx_keysPerPage ix)"
proof -
  have ks: "nx_keySize ix \<le> ndx_MaxKeySize" and rs: "nx_recordSize ix = keyRecordSize (nx_keySize ix)"
    and kpp: "nx_keysPerPage ix \<noteq> 0" and fit: "\<not> ucast (nx_keysPerPage ix) * nx_recordSize ix + 4 > word_of_nat PageSize"
    using assms by (auto simp: ndx_validate_def not_less split: if_splits)
  have r: "unat (nx_recordSize ix) = 8 + (unat (nx_keySize ix) + 3) div 4 * 4"
    using keyRecordSize_nat [OF ks] rs by simp
  then show "8 + unat (nx_keySize ix) \<le> unat (nx_recordSize ix)"
    by presburger
  have le: "unat (nx_recordSize ix) \<le> 108"
    using r ks by (simp add: ndx_MaxKeySize_def word_le_nat_alt)
  have k: "unat (nx_keysPerPage ix) < 2 ^ 16"
    using unsigned_less [of "nx_keysPerPage ix", where 'a = nat] by simp
  have "unat (nx_keysPerPage ix) * unat (nx_recordSize ix) \<le> 2 ^ 16 * 108"
    using k le by (intro mult_le_mono) simp_all
  moreover have "unat (ucast (nx_keysPerPage ix) :: u32) = unat (nx_keysPerPage ix)"
    using k by (simp add: unsigned_ucast_eq take_bit_nat_eq_self)
  ultimately have "unat (ucast (nx_keysPerPage ix) * nx_recordSize ix + 4 :: u32) = unat (nx_keysPerPage ix) * unat (nx_recordSize ix) + 4"
    by (simp add: unat_word_ariths)
  then show "4 + unat (nx_keysPerPage ix) * unat (nx_recordSize ix) \<le> PageSize"
    using fit by (simp add: not_less word_le_nat_alt PageSize_def)
  show "0 < unat (nx_keysPerPage ix)"
    using kpp by (simp add: unat_gt_0)
qed

lemma ndx_validate_rw: "ndx_validate (ix\<lparr>nx_rw := f\<rparr>) = ndx_validate ix"
  by (simp add: ndx_validate_def)

section \<open>The header reads back\<close>

definition expr_fits :: "bytes \<Rightarrow> bool" where
  "expr_fits e \<longleftrightarrow> length e < ndx_MaxKeyExpr \<and> list_all (\<lambda>c. c \<noteq> 0) e"

lemma length_ndx_header [simp]: "length (ndx_header_bytes ix) = PageSize"
  by (simp add: ndx_header_bytes_def Let_def)

lemma ndx_header_fields:
  "seg 0 4 (ndx_header_bytes ix) = put_u32 (nx_root ix)" "seg 4 4 (ndx_header_bytes ix) = put_u32 (nx_pageCount ix)"
  "seg 12 2 (ndx_header_bytes ix) = put_u16 (nx_keySize ix)" "seg 14 2 (ndx_header_bytes ix) = put_u16 (nx_keysPerPage ix)"
  "seg 16 2 (ndx_header_bytes ix) = put_u16 (nx_keyType ix)" "seg 18 4 (ndx_header_bytes ix) = put_u32 (nx_recordSize ix)"
  "ndx_header_bytes ix ! 23 = (if nx_unique ix then 1 else 0)"
  by (simp_all add: ndx_header_bytes_def Let_def seg_put_at_other seg_put_at_same nth_put_at PageSize_def)

lemma ndx_header_expr:
  assumes "expr_fits (nx_keyExpr ix)"
  shows "takeWhile (\<lambda>c. c \<noteq> 0) (drop 24 (ndx_header_bytes ix)) = nx_keyExpr ix"
proof -
  let ?e = "nx_keyExpr ix"
  have e: "length ?e < 488" "list_all (\<lambda>c. c \<noteq> 0) ?e" "take (ndx_MaxKeyExpr - 1) ?e = ?e"
    using assms by (simp_all add: expr_fits_def ndx_MaxKeyExpr_def PageSize_def)
  define n where "n = 488 - length ?e"
  have "drop 24 (ndx_header_bytes ix) = ?e @ replicate n 0"
  proof (rule nth_equalityI)
    show "length (drop 24 (ndx_header_bytes ix)) = length (?e @ replicate n 0)"
      using e(1) by (simp add: PageSize_def n_def)
    fix i assume "i < length (drop 24 (ndx_header_bytes ix))"
    then have "i < 488"
      by (simp add: PageSize_def)
    then show "drop 24 (ndx_header_bytes ix) ! i = (?e @ replicate n 0) ! i"
      using e(1,3) by (simp add: ndx_header_bytes_def Let_def nth_put_at PageSize_def nth_append n_def)
  qed
  moreover have "takeWhile (\<lambda>c. c \<noteq> 0) (?e @ replicate n 0) = ?e"
    using e(1,2) by (simp add: takeWhile_append2 list_all_iff n_def)
  ultimately show ?thesis
    by simp
qed

lemma ndx_header_reads:
  assumes "ndx_validate ix = Inr ()" "expr_fits (nx_keyExpr ix)" "nx_rw ix = writeAt f 0 (ndx_header_bytes ix)"
  shows "ndx_Open (nx_rw ix) = Inr ix"
proof -
  let ?raw = "ndx_header_bytes ix"
  have r: "readAt (nx_rw ix) 0 PageSize = Inr ?raw"
    unfolding assms(3) by (intro readAt_writeAt_same) (simp_all add: PageSize_def)
  have "\<lparr>nx_rw = nx_rw ix, nx_keyExpr = takeWhile (\<lambda>c. c \<noteq> 0) (drop 24 ?raw), nx_keySize = get_u16 (seg 12 2 ?raw),
      nx_keyType = get_u16 (seg 16 2 ?raw), nx_unique = (?raw ! 23 \<noteq> 0), nx_keysPerPage = get_u16 (seg 14 2 ?raw),
      nx_recordSize = get_u32 (seg 18 4 ?raw), nx_root = get_u32 (seg 0 4 ?raw), nx_pageCount = get_u32 (seg 4 4 ?raw)\<rparr> = ix"
    by (simp add: ndx_header_expr [OF assms(2)] ndx_header_fields get_put_u32 get_put_u16)
  then show ?thesis
    unfolding ndx_Open_def ndx_readHeader_def r sum.case Let_def by (simp add: assms(1))
qed

section \<open>Pages read back\<close>

definition fits_page :: "ndx_index \<Rightarrow> ndx_page \<Rightarrow> bool" where
  "fits_page ix p \<longleftrightarrow> pg_number p \<noteq> 0 \<and> length (pg_entries p) \<le> unat (nx_keysPerPage ix)
     \<and> list_all (\<lambda>e. length (pe_key e) = unat (nx_keySize ix)) (pg_entries p)"

definition same_geometry :: "ndx_index \<Rightarrow> ndx_index \<Rightarrow> bool" where
  "same_geometry ix ix' \<longleftrightarrow> nx_keySize ix' = nx_keySize ix \<and> nx_recordSize ix' = nx_recordSize ix
     \<and> nx_keysPerPage ix' = nx_keysPerPage ix \<and> nx_keyType ix' = nx_keyType ix"

lemma length_putEntries [simp]: "length (putEntries ix es off raw) = length raw"
  by (induction es arbitrary: off raw) (simp_all add: Let_def)

lemma seg_putEntries: "o1 + n \<le> off \<Longrightarrow> o1 + n \<le> length raw \<Longrightarrow> seg o1 n (putEntries ix es off raw) = seg o1 n raw"
  by (induction es arbitrary: off raw) (simp_all add: Let_def seg_put_at_other)

lemma readEntries_put:
  assumes "8 + unat (nx_keySize ix) \<le> unat (nx_recordSize ix)"
    and "off + length es * unat (nx_recordSize ix) \<le> length raw"
    and "list_all (\<lambda>e. length (pe_key e) = unat (nx_keySize ix)) es"
  shows "readEntries ix (putEntries ix es off raw) (length es) off = es"
  using assms(2,3)
proof (induction es arbitrary: off raw)
  case (Cons e es)
  let ?ks = "unat (nx_keySize ix)" and ?rs = "unat (nx_recordSize ix)"
  let ?r1 = "put_at raw off (put_u32 (pe_lower e))"
  let ?r2 = "put_at ?r1 (off + 4) (put_u32 (pe_recno e))"
  let ?r3 = "put_at ?r2 (off + 8) (pe_key e)"
  have k: "length (pe_key e) = ?ks"
    using Cons.prems(2) by simp
  have b: "off + 8 + ?ks \<le> length raw" "off + 8 + ?ks \<le> off + ?rs" "off + ?rs + length es * ?rs \<le> length raw"
    using Cons.prems(1) assms(1) by simp_all
  have seg3: "seg off 4 ?r3 = put_u32 (pe_lower e)" "seg (off + 4) 4 ?r3 = put_u32 (pe_recno e)" "seg (off + 8) ?ks ?r3 = pe_key e"
    using b k by (simp_all add: seg_put_at_other seg_put_at_same)
  have front: "seg o1 n (putEntries ix es (off + ?rs) ?r3) = seg o1 n ?r3" if "o1 + n \<le> off + 8 + ?ks" for o1 n
    using that b by (intro seg_putEntries) simp_all
  have "readEntries ix (putEntries ix es (off + ?rs) ?r3) (length es) (off + ?rs) = es"
    using Cons.IH [of "off + ?rs" ?r3] b(3) Cons.prems(2) by simp
  then show ?case
    using front seg3 k by (simp add: Let_def get_put_u32)
qed simp

lemma page_apart:
  "m \<noteq> n \<Longrightarrow> ndx_pageOffset m + PageSize \<le> ndx_pageOffset n \<or> ndx_pageOffset n + PageSize \<le> ndx_pageOffset m"
  using slot_disjoint [of "unat m" "unat n" PageSize] by (auto simp: ndx_pageOffset_def word_unat_eq_iff)

text \<open>What \<open>readPage\<close> depends on.\<close>

lemma readEntries_cong: "same_geometry ix ix' \<Longrightarrow> readEntries ix' raw n off = readEntries ix raw n off"
  by (induction n arbitrary: off) (simp_all add: same_geometry_def)

lemma readPage_cong:
  assumes "same_geometry ix ix'" "readPage ix n = Inr q" "seg (ndx_pageOffset n) PageSize (nx_rw ix') = seg (ndx_pageOffset n) PageSize (nx_rw ix)"
    and "length (nx_rw ix) \<le> length (nx_rw ix')"
  shows "readPage ix' n = Inr q"
proof -
  have n: "n \<noteq> 0" and r: "readAt (nx_rw ix) (ndx_pageOffset n) PageSize = Inr (seg (ndx_pageOffset n) PageSize (nx_rw ix))"
    using assms(2) by (auto simp: readPage_def readAt_def PageSize_def split: if_splits sum.splits)
  then have "readAt (nx_rw ix') (ndx_pageOffset n) PageSize = Inr (seg (ndx_pageOffset n) PageSize (nx_rw ix))"
    using assms(3,4) by (auto simp: readAt_def PageSize_def split: if_splits)
  then have "readPage ix' n = readPage ix n"
    using assms(1) n r readEntries_cong [OF assms(1)] by (simp add: readPage_def Let_def same_geometry_def)
  then show ?thesis
    using assms(2) by simp
qed

lemma readPage_length: "readPage ix n = Inr q \<Longrightarrow> ndx_pageOffset n + PageSize \<le> length (nx_rw ix)"
  by (auto simp: readPage_def readAt_def PageSize_def split: if_splits sum.splits)

lemma writePage_ok:
  assumes v: "ndx_validate ix = Inr ()" and p: "fits_page ix p"
  shows "\<exists>f. writePage p ix = (ix\<lparr>nx_rw := f\<rparr>, Inr ()) \<and> readPage (ix\<lparr>nx_rw := f\<rparr>) (pg_number p) = Inr p
    \<and> (\<forall>n q. n \<noteq> pg_number p \<longrightarrow> readPage ix n = Inr q \<longrightarrow> readPage (ix\<lparr>nx_rw := f\<rparr>) n = Inr q)"
proof -
  let ?n = "length (pg_entries p)" and ?rs = "unat (nx_recordSize ix)"
  define raw0 where "raw0 = put_at (replicate PageSize 0) 0 (put_u32 (word_of_nat ?n))"
  define raw where "raw = putEntries ix (pg_entries p) 4 raw0"
  define f where "f = writeAt (nx_rw ix) (ndx_pageOffset (pg_number p)) raw"
  note g = valid_geometry [OF v]
  have n: "?n \<le> unat (nx_keysPerPage ix)" "pg_number p \<noteq> 0"
    using p by (simp_all add: fits_page_def)
  have len: "length raw0 = PageSize" "length raw = PageSize"
    by (simp_all add: raw0_def raw_def)
  have "?n * ?rs \<le> unat (nx_keysPerPage ix) * ?rs"
    using n(1) by (rule mult_le_mono1)
  then have "4 + ?n * ?rs \<le> length raw0"
    using g(2) len(1) by linarith
  then have es: "readEntries ix raw ?n 4 = pg_entries p"
    using readEntries_put [OF g(1)] p by (simp add: raw_def fits_page_def)
  have "seg 0 4 raw = put_u32 (word_of_nat ?n)"
    unfolding raw_def using len by (subst seg_putEntries) (simp_all add: raw0_def PageSize_def seg_put_at_same)
  then have c: "get_u32 (seg 0 4 raw) = word_of_nat ?n"
    by (simp add: get_put_u32)
  have small: "?n < 2 ^ 16"
    using n(1) unsigned_less [of "nx_keysPerPage ix", where 'a = nat] by simp
  then have u: "unat (word_of_nat ?n :: u32) = ?n"
    by (simp add: unat_of_nat)
  have "unat (ucast (nx_keysPerPage ix) :: u32) = unat (nx_keysPerPage ix)"
    using unsigned_less [of "nx_keysPerPage ix", where 'a = nat] by (simp add: unsigned_ucast_eq take_bit_nat_eq_self)
  then have cap: "\<not> (word_of_nat ?n :: u32) > ucast (nx_keysPerPage ix)"
    using n(1) u by (simp add: word_less_nat_alt)
  have same: "same_geometry ix (ix\<lparr>nx_rw := f\<rparr>)"
    by (simp add: same_geometry_def)
  have "readAt f (ndx_pageOffset (pg_number p)) PageSize = Inr raw"
    unfolding f_def using len by (intro readAt_writeAt_same) (simp_all add: PageSize_def)
  then have "readPage (ix\<lparr>nx_rw := f\<rparr>) (pg_number p) = Inr p"
    using n(2) c u cap es readEntries_cong [OF same] by (simp add: readPage_def Let_def)
  moreover have "readPage (ix\<lparr>nx_rw := f\<rparr>) m = Inr q" if m: "m \<noteq> pg_number p" and q: "readPage ix m = Inr q" for m q
  proof (rule readPage_cong [OF same q])
    show "seg (ndx_pageOffset m) PageSize (nx_rw (ix\<lparr>nx_rw := f\<rparr>)) = seg (ndx_pageOffset m) PageSize (nx_rw ix)"
      using readPage_length [OF q] page_apart [OF m] len by (simp add: f_def seg_writeAt_other)
    show "length (nx_rw ix) \<le> length (nx_rw (ix\<lparr>nx_rw := f\<rparr>))"
      by (simp add: f_def length_writeAt)
  qed
  ultimately show ?thesis
    using n(1) by (intro exI [of _ f]) (simp add: writePage_def Let_def f_def raw_def raw0_def)
qed

lemma writePages_ok:
  assumes "ndx_validate ix = Inr ()" "distinct (map pg_number ps)" "\<forall>p \<in> set ps. fits_page ix p"
  shows "\<exists>f. writePages ps ix = (ix\<lparr>nx_rw := f\<rparr>, Inr ()) \<and> (\<forall>p \<in> set ps. readPage (ix\<lparr>nx_rw := f\<rparr>) (pg_number p) = Inr p)
    \<and> (\<forall>n q. n \<notin> pg_number ` set ps \<longrightarrow> readPage ix n = Inr q \<longrightarrow> readPage (ix\<lparr>nx_rw := f\<rparr>) n = Inr q)"
  using assms
proof (induction ps arbitrary: ix)
  case Nil
  then show ?case
    by (intro exI [of _ "nx_rw ix"]) simp
next
  case (Cons p ps)
  obtain f where f: "writePage p ix = (ix\<lparr>nx_rw := f\<rparr>, Inr ())" "readPage (ix\<lparr>nx_rw := f\<rparr>) (pg_number p) = Inr p"
      "\<forall>n q. n \<noteq> pg_number p \<longrightarrow> readPage ix n = Inr q \<longrightarrow> readPage (ix\<lparr>nx_rw := f\<rparr>) n = Inr q"
    using writePage_ok [OF Cons.prems(1)] Cons.prems(3) by (metis list.set_intros(1))
  let ?ix = "ix\<lparr>nx_rw := f\<rparr>"
  have "ndx_validate ?ix = Inr ()" "\<forall>p \<in> set ps. fits_page ?ix p"
    using Cons.prems(1,3) by (simp_all add: ndx_validate_rw fits_page_def)
  then obtain g where g: "writePages ps ?ix = (?ix\<lparr>nx_rw := g\<rparr>, Inr ())" "\<forall>p \<in> set ps. readPage (?ix\<lparr>nx_rw := g\<rparr>) (pg_number p) = Inr p"
      "\<forall>n q. n \<notin> pg_number ` set ps \<longrightarrow> readPage ?ix n = Inr q \<longrightarrow> readPage (?ix\<lparr>nx_rw := g\<rparr>) n = Inr q"
    using Cons.IH [of ?ix] Cons.prems(2) by auto
  have "readPage (?ix\<lparr>nx_rw := g\<rparr>) (pg_number p) = Inr p"
    using g(3) f(2) Cons.prems(2) by auto
  then show ?case
    using f g by (intro exI [of _ g]) (auto simp: bindS_def)
qed

text \<open>Writing the header leaves every page.\<close>

lemma writeHeader_pages:
  assumes "readPage ix n = Inr q" "same_geometry ix ix'" "nx_rw ix' = writeAt (nx_rw ix) 0 (ndx_header_bytes ix'')"
  shows "readPage ix' n = Inr q"
proof (rule readPage_cong [OF assms(2,1)])
  have "n \<noteq> 0"
    using assms(1) by (auto simp: readPage_def)
  then have "PageSize \<le> ndx_pageOffset n"
    by (cases "unat n") (simp_all add: ndx_pageOffset_def unat_eq_0)
  then show "seg (ndx_pageOffset n) PageSize (nx_rw ix') = seg (ndx_pageOffset n) PageSize (nx_rw ix)"
    using readPage_length [OF assms(1)] by (simp add: assms(3) seg_writeAt_other)
  show "length (nx_rw ix) \<le> length (nx_rw ix')"
    by (simp add: assms(3) length_writeAt)
qed

end
