(* ===== verification/NdxWalk.thy ===== *)
theory NdxWalk
  imports NdxPage
begin

text \<open>
  The traversal of an NDX file: it ends on every file, the queries that rest on it agree with the
  list \<open>Entries\<close> returns, and on a tree of stored pages it hands the entries over in their order.
\<close>

section \<open>The traversal ends\<close>

text \<open>The pages of the file that have not been visited.\<close>

definition unvisited :: "ndx_index \<Rightarrow> u32 list \<Rightarrow> nat set" where
  "unvisited ix visited = {1..<length (nx_rw ix) div PageSize} - unat ` set visited"

lemma unvisited_mono: "set v \<subseteq> set v' \<Longrightarrow> card (unvisited ix v') \<le> card (unvisited ix v)"
  by (intro card_mono) (auto simp: unvisited_def)

lemma page_inside:
  assumes "readPage ix n = Inr p"
  shows "unat n \<in> {1..<length (nx_rw ix) div PageSize}"
proof -
  have "(unat n + 1) * PageSize \<le> length (nx_rw ix)"
    using readPage_length [OF assms] by (simp add: ndx_pageOffset_def)
  then have "unat n + 1 \<le> length (nx_rw ix) div PageSize"
    by (metis PageSize_def div_le_mono nonzero_mult_div_cancel_right zero_neq_numeral)
  moreover have "0 < unat n"
    using assms by (cases "n = 0") (simp_all add: readPage_def unat_gt_0)
  ultimately show ?thesis
    by simp
qed

lemma unvisited_step:
  assumes "readPage ix n = Inr p" "n \<notin> set visited"
  shows "card (unvisited ix (n # visited)) < card (unvisited ix visited)"
proof (rule psubset_card_mono)
  have "m = n" if "unat n = unat m" for m :: u32
    using that by (simp add: word_unat_eq_iff)
  then have "unat n \<notin> unat ` set visited"
    using assms(2) by blast
  then have "unat n \<in> unvisited ix visited"
    using page_inside [OF assms(1)] assms(2) by (auto simp: unvisited_def)
  then show "unvisited ix (n # visited) \<subset> unvisited ix visited"
    by (auto simp: unvisited_def)
qed (simp add: unvisited_def)

lemma readPage_fuel: "readPage ix n \<noteq> Inl OutOfFuel"
  by (auto simp: readPage_def Let_def split: sum.split)

text \<open>The two halves of one step of \<open>walkEntries\<close>.\<close>

definition enter :: "nat \<Rightarrow> ndx_index \<Rightarrow> (ndx_entry \<Rightarrow> ('s, unit) op) \<Rightarrow> page_entry \<Rightarrow> (u32 list \<times> 's, unit) op" where
  "enter fuel ix fn e = (if pe_lower e \<noteq> 0 then walkPage fuel ix fn (pe_lower e) else returnS ())"

definition visit :: "(ndx_entry \<Rightarrow> ('s, unit) op) \<Rightarrow> page_entry \<Rightarrow> (u32 list \<times> 's, unit) op" where
  "visit fn e st = (case (if pe_recno e \<noteq> 0 then fn \<lparr>ne_key = pe_key e, ne_recno = pe_recno e\<rparr> (snd st) else (snd st, Inr ()))
     of (s, r) \<Rightarrow> ((fst st, s), r))"

lemma walkEntries_Cons:
  "walkEntries fuel ix fn (e # es) = bindS (enter fuel ix fn e) (\<lambda>_. bindS (visit fn e) (\<lambda>_. walkEntries fuel ix fn es))"
  by (rule ext) (auto simp: enter_def visit_def bindS_def returnS_def split: prod.split sum.split)

lemma walkPage_Suc:
  "walkPage (Suc fuel) ix fn n st =
     (if n = 0 then (st, Inr ())
      else if n \<in> set (fst st) then (st, Inl (Wrap ''page revisited during traversal'' ErrCorrupt))
      else case readPage ix n of
        Inl e \<Rightarrow> ((n # fst st, snd st), Inl e)
      | Inr p \<Rightarrow> walkEntries fuel ix fn (pg_entries p) (n # fst st, snd st))"
  by (cases st) (auto simp: Let_def split: sum.split)

declare walkPage.simps(2) [simp del] walkEntries.simps(2) [simp del]

definition grows :: "(u32 list \<times> 's, unit) op \<Rightarrow> bool" where
  "grows m \<longleftrightarrow> (\<forall>st. set (fst st) \<subseteq> set (fst (fst (m st))))"

lemma grows_bind: "grows m \<Longrightarrow> grows k \<Longrightarrow> grows (bindS m (\<lambda>_. k))"
  unfolding grows_def bindS_def by (fastforce split: prod.split sum.split)

lemma grows_visit: "grows (visit fn e)"
  by (simp add: grows_def visit_def split: prod.split)

lemma grows_entries:
  assumes "\<And>n. grows (walkPage fuel ix fn n)"
  shows "grows (walkEntries fuel ix fn es)"
proof (induction es)
  case (Cons e es)
  have "grows (enter fuel ix fn e)"
    using assms by (simp add: enter_def grows_def returnS_def)
  then show ?case
    unfolding walkEntries_Cons by (intro grows_bind grows_visit Cons.IH)
qed (simp add: grows_def)

lemma walk_grows: "grows (walkPage fuel ix fn n)"
proof (induction fuel arbitrary: n)
  case (Suc fuel)
  then have "grows (walkEntries fuel ix fn es)" for es
    by (rule grows_entries)
  then show ?case
    unfolding grows_def walkPage_Suc by (force split: sum.split)
qed (simp add: grows_def)

text \<open>With more fuel than pages left the traversal does not run out of it.\<close>

definition within :: "ndx_index \<Rightarrow> nat \<Rightarrow> (u32 list \<times> 's, unit) op \<Rightarrow> bool" where
  "within ix fuel m \<longleftrightarrow> (\<forall>st. card (unvisited ix (fst st)) < fuel \<longrightarrow> snd (m st) \<noteq> Inl OutOfFuel)"

lemma within_bind:
  assumes "within ix fuel m" "grows m" "within ix fuel k"
  shows "within ix fuel (bindS m (\<lambda>_. k))"
  unfolding within_def
proof (intro allI impI)
  fix st :: "u32 list \<times> 'a" assume c: "card (unvisited ix (fst st)) < fuel"
  obtain st' r where m: "m st = (st', r)"
    by fastforce
  have r: "r \<noteq> Inl OutOfFuel"
    using assms(1) c m unfolding within_def by (metis snd_conv)
  have "set (fst st) \<subseteq> set (fst st')"
    using assms(2) m unfolding grows_def by (metis fst_conv)
  then have "card (unvisited ix (fst st')) < fuel"
    using c unvisited_mono [of "fst st" "fst st'" ix] by linarith
  then have "snd (k st') \<noteq> Inl OutOfFuel"
    using assms(3) unfolding within_def by blast
  then show "snd (bindS m (\<lambda>_. k) st) \<noteq> Inl OutOfFuel"
    using m r by (cases r) (simp_all add: bindS_def)
qed

definition answers :: "(ndx_entry \<Rightarrow> ('s, unit) op) \<Rightarrow> bool" where
  "answers fn \<longleftrightarrow> (\<forall>e s. snd (fn e s) \<noteq> Inl OutOfFuel)"

lemma within_visit: "answers fn \<Longrightarrow> within ix fuel (visit fn e)"
  by (auto simp: within_def visit_def answers_def split: prod.split) (metis snd_conv)

lemma within_entries:
  assumes "\<And>n. within ix fuel (walkPage fuel ix fn n)" "answers fn"
  shows "within ix fuel (walkEntries fuel ix fn es)"
proof (induction es)
  case (Cons e es)
  have "within ix fuel (enter fuel ix fn e)" "grows (enter fuel ix fn e)"
    using assms(1) walk_grows [of fuel ix fn] by (simp_all add: enter_def within_def grows_def returnS_def)
  then show ?case
    unfolding walkEntries_Cons by (intro within_bind grows_visit within_visit assms(2) Cons.IH)
qed (simp add: within_def)

lemma walk_within: "answers fn \<Longrightarrow> within ix fuel (walkPage fuel ix fn n)"
proof (induction fuel arbitrary: n)
  case (Suc fuel)
  have es: "within ix fuel (walkEntries fuel ix fn es)" for es
    using Suc by (intro within_entries)
  show ?case
    unfolding within_def
  proof (intro allI impI)
    fix st :: "u32 list \<times> 'a" assume c: "card (unvisited ix (fst st)) < Suc fuel"
    have "snd (walkEntries fuel ix fn (pg_entries p) (n # fst st, snd st)) \<noteq> Inl OutOfFuel"
      if "n \<notin> set (fst st)" "readPage ix n = Inr p" for p
      using es [of "pg_entries p"] unvisited_step [OF that(2,1)] c by (simp add: within_def)
    then show "snd (walkPage (Suc fuel) ix fn n st) \<noteq> Inl OutOfFuel"
      using readPage_fuel [of ix n] by (auto simp: walkPage_Suc split: sum.split)
  qed
qed (simp add: within_def)

lemma unvisited_bound: "card (unvisited ix v) < walk_fuel ix"
proof -
  have "card (unvisited ix v) \<le> card {1..<length (nx_rw ix) div PageSize}"
    by (intro card_mono) (auto simp: unvisited_def)
  then show ?thesis
    by (simp add: walk_fuel_def)
qed

text \<open>C18: a traversal ends on every file, whatever its pages hold: the set of visited pages stops a cycle of page
  numbers, so the depth is bounded by the number of pages in the file, the fuel \<open>walk_fuel\<close> gives.  The
  outcome is the end, an error of the file or an error of the callback.\<close>

theorem walk_terminates:
  assumes "\<And>e s. snd (fn e s) \<noteq> Inl OutOfFuel"
  shows "snd (Traverse ix fn s) \<noteq> Inl OutOfFuel"
proof -
  have "within ix (walk_fuel ix) (walkPage (walk_fuel ix) ix fn (nx_root ix))"
    using assms by (intro walk_within) (simp add: answers_def)
  then have "snd (walkPage (walk_fuel ix) ix fn (nx_root ix) ([], s)) \<noteq> Inl OutOfFuel"
    using unvisited_bound [of ix "[]"] by (simp add: within_def)
  then show ?thesis
    by (auto simp: Traverse_def walk_def split: prod.split)
qed

text \<open>A page whose only entry points at the page itself.\<close>

definition cyclic_index :: ndx_index where
  "cyclic_index = \<lparr>nx_rw = replicate PageSize 0 @ put_at (replicate PageSize 0) 0 [1, 0, 0, 0, 1, 0, 0, 0],
     nx_keyExpr = [], nx_keySize = 4, nx_keyType = KeyTypeCharacter, nx_unique = False, nx_keysPerPage = 42,
     nx_recordSize = 12, nx_root = 1, nx_pageCount = 2\<rparr>"

theorem walk_terminates_witness:
  "snd (Traverse cyclic_index (\<lambda>e n. (n + 1 :: nat, Inr ())) 0) \<noteq> Inl OutOfFuel"
  by (rule walk_terminates) simp

section \<open>One list of entries for every query\<close>

text \<open>A callback that never fails.\<close>

abbreviation total :: "(ndx_entry \<Rightarrow> 's \<Rightarrow> 's) \<Rightarrow> ndx_entry \<Rightarrow> ('s, unit) op" where
  "total g \<equiv> \<lambda>e s. (g e s, Inr ())"

text \<open>Two runs that hand over the same entries: one collects them, the other folds a function over them.\<close>

definition collects :: "(u32 list \<times> ndx_entry list, unit) op \<Rightarrow> ((ndx_entry \<Rightarrow> 's \<Rightarrow> 's) \<Rightarrow> (u32 list \<times> 's, unit) op) \<Rightarrow> bool" where
  "collects c m \<longleftrightarrow> (\<forall>v. \<exists>v' es r. (\<forall>out. c (v, out) = ((v', out @ es), r)) \<and> (\<forall>g s. m g (v, s) = ((v', fold g es s), r)))"

lemma collects_bind:
  assumes "collects c m" "collects d k"
  shows "collects (bindS c (\<lambda>_. d)) (\<lambda>g. bindS (m g) (\<lambda>_. k g))"
  unfolding collects_def
proof
  fix v
  obtain v1 es r where 1: "\<And>out. c (v, out) = ((v1, out @ es), r)" "\<And>g s. m g (v, s) = ((v1, fold g es s), r)"
    using assms(1) unfolding collects_def by meson
  obtain v2 fs q where 2: "\<And>out. d (v1, out) = ((v2, out @ fs), q)" "\<And>g s. k g (v1, s) = ((v2, fold g fs s), q)"
    using assms(2) unfolding collects_def by meson
  show "\<exists>v' es r. (\<forall>out. bindS c (\<lambda>_. d) (v, out) = ((v', out @ es), r)) \<and> (\<forall>g s. bindS (m g) (\<lambda>_. k g) (v, s) = ((v', fold g es s), r))"
  proof (cases r)
    case (Inl e)
    then show ?thesis
      by (intro exI [of _ v1] exI [of _ es] exI [of _ r]) (simp add: bindS_def 1)
  next
    case (Inr u)
    then show ?thesis
      by (intro exI [of _ v2] exI [of _ "es @ fs"] exI [of _ q]) (simp add: bindS_def 1 2)
  qed
qed

lemma collectsE:
  assumes "collects c m"
  obtains v' es r where "\<And>out. c (v, out) = ((v', out @ es), r)" "\<And>g s. m g (v, s) = ((v', fold g es s), r)"
proof -
  obtain v' es r where "(\<forall>out. c (v, out) = ((v', out @ es), r)) \<and> (\<forall>g s. m g (v, s) = ((v', fold g es s), r))"
    using assms unfolding collects_def by meson
  then show ?thesis
    using that by simp
qed

lemma collects_return: "collects (returnS ()) (\<lambda>g. returnS ())"
  unfolding collects_def returnS_def by (auto intro!: exI [of _ "[]"])

lemma collects_visit: "collects (visit (total (\<lambda>e out. out @ [e])) e) (\<lambda>g. visit (total g) e)"
proof (cases "pe_recno e = 0")
  case True
  then show ?thesis
    using collects_return by (simp add: collects_def visit_def returnS_def)
next
  case False
  then show ?thesis
    unfolding collects_def by (auto simp: visit_def intro!: exI [of _ "[\<lparr>ne_key = pe_key e, ne_recno = pe_recno e\<rparr>]"])
qed

lemma collects_entries:
  assumes "\<And>n. collects (walkPage fuel ix (total (\<lambda>e out. out @ [e])) n) (\<lambda>g :: ndx_entry \<Rightarrow> 's \<Rightarrow> 's. walkPage fuel ix (total g) n)"
  shows "collects (walkEntries fuel ix (total (\<lambda>e out. out @ [e])) es) (\<lambda>g :: ndx_entry \<Rightarrow> 's \<Rightarrow> 's. walkEntries fuel ix (total g) es)"
proof (induction es)
  case Nil
  then show ?case
    unfolding collects_def by (auto intro!: exI [of _ "[]"])
next
  case (Cons e es)
  have "collects (enter fuel ix (total (\<lambda>e out. out @ [e])) e) (\<lambda>g :: ndx_entry \<Rightarrow> 's \<Rightarrow> 's. enter fuel ix (total g) e)"
    using assms by (simp add: enter_def collects_return)
  then show ?case
    unfolding walkEntries_Cons by (intro collects_bind collects_visit Cons.IH)
qed

lemma walk_collects: "collects (walkPage fuel ix (total (\<lambda>e out. out @ [e])) n) (\<lambda>g :: ndx_entry \<Rightarrow> 's \<Rightarrow> 's. walkPage fuel ix (total g) n)"
proof (induction fuel arbitrary: n)
  case 0
  then show ?case
    unfolding collects_def by (auto intro!: exI [of _ "[]"])
next
  case (Suc fuel)
  then have es: "collects (walkEntries fuel ix (total (\<lambda>e out. out @ [e])) es) (\<lambda>g :: ndx_entry \<Rightarrow> 's \<Rightarrow> 's. walkEntries fuel ix (total g) es)" for es
    by (rule collects_entries)
  show ?case
    unfolding collects_def
  proof
    fix v
    show "\<exists>v' es r. (\<forall>out. walkPage (Suc fuel) ix (total (\<lambda>e out. out @ [e])) n (v, out) = ((v', out @ es), r))
        \<and> (\<forall>(g :: ndx_entry \<Rightarrow> 's \<Rightarrow> 's) s. walkPage (Suc fuel) ix (total g) n (v, s) = ((v', fold g es s), r))"
    proof (cases "n = 0 \<or> n \<in> set v \<or> (\<exists>e. readPage ix n = Inl e)")
      case True
      then show ?thesis
        by (intro exI [of _ "fst (fst (walkPage (Suc fuel) ix (total (\<lambda>e out. out @ [e])) n (v, [])))"] exI [of _ "[]"]
            exI [of _ "snd (walkPage (Suc fuel) ix (total (\<lambda>e out. out @ [e])) n (v, []))"]) (auto simp: walkPage_Suc)
    next
      case False
      then obtain p where p: "readPage ix n = Inr p"
        by (cases "readPage ix n") auto
      obtain v' fs r where "\<And>out. walkEntries fuel ix (total (\<lambda>e out. out @ [e])) (pg_entries p) (n # v, out) = ((v', out @ fs), r)"
          "\<And>(g :: ndx_entry \<Rightarrow> 's \<Rightarrow> 's) s. walkEntries fuel ix (total g) (pg_entries p) (n # v, s) = ((v', fold g fs s), r)"
        using collectsE [OF es [of "pg_entries p"]] by blast
      then show ?thesis
        using False p by (intro exI [of _ v'] exI [of _ fs] exI [of _ r]) (simp add: walkPage_Suc)
    qed
  qed
qed

lemma walk_fold:
  fixes g :: "ndx_entry \<Rightarrow> 's \<Rightarrow> 's"
  assumes "Entries ix = Inr es"
  shows "walk ix (total g) s = (fold g es s, Inr ())"
proof (cases "nx_root ix = 0")
  case False
  obtain v' fs r where w: "\<And>out. walkPage (walk_fuel ix) ix (total (\<lambda>e out. out @ [e])) (nx_root ix) ([], out) = ((v', out @ fs), r)"
      "\<And>(g :: ndx_entry \<Rightarrow> 's \<Rightarrow> 's) s. walkPage (walk_fuel ix) ix (total g) (nx_root ix) ([], s) = ((v', fold g fs s), r)"
    by (rule collectsE [OF walk_collects]) blast
  have "r = Inr () \<and> fs = es"
    using assms False w(1) [of "[]"] by (cases r) (simp_all add: Entries_def walk_def bindR_def)
  then show ?thesis
    using False w(2) by (simp add: walk_def)
qed (use assms in \<open>simp add: walk_def Entries_def bindR_def\<close>)

lemma fold_count: "fold (\<lambda>e. Suc) es k = k + length es"
  by (induction es arbitrary: k) simp_all

lemma fold_filter: "fold (\<lambda>e out. if P e then out @ [f e] else out) es out = out @ map f (filter P es)"
  by (induction es arbitrary: out) simp_all

lemma fold_first: "fold (\<lambda>e first. if first = None then Some e else first) es (Some x) = Some x"
  by (induction es) simp_all

lemma fold_last: "fold (\<lambda>e _. Some e) es x = (if es = [] then x else Some (last es))"
  by (induction es arbitrary: x) simp_all

section \<open>Trees of stored pages\<close>

text \<open>The callback run over a list of entries, up to its first error.\<close>

fun run :: "(ndx_entry \<Rightarrow> ('s, unit) op) \<Rightarrow> ndx_entry list \<Rightarrow> ('s, unit) op" where
  "run fn [] = returnS ()"
| "run fn (e # es) = bindS (fn e) (\<lambda>_. run fn es)"

text \<open>A page of the set \<open>S\<close> that is the root of a tree with the entries \<open>es\<close> and the page numbers \<open>ns\<close>.\<close>

inductive yields :: "ndx_page set \<Rightarrow> ndx_page \<Rightarrow> ndx_entry list \<Rightarrow> u32 list \<Rightarrow> bool"
  and belows :: "ndx_page set \<Rightarrow> ndx_page list \<Rightarrow> ndx_entry list \<Rightarrow> u32 list \<Rightarrow> bool" for S where
  leaf_page: "p \<in> S \<Longrightarrow> pg_number p \<noteq> 0 \<Longrightarrow> pg_entries p = map leafEntry es \<Longrightarrow> \<forall>e \<in> set es. ne_recno e \<noteq> 0
    \<Longrightarrow> yields S p es [pg_number p]"
| node_page: "p \<in> S \<Longrightarrow> pg_number p \<noteq> 0 \<Longrightarrow> pg_entries p = map separatorEntry cs \<Longrightarrow> belows S cs es ns
    \<Longrightarrow> yields S p es (pg_number p # ns)"
| belows_Nil: "belows S [] [] []"
| belows_Cons: "yields S c es ns \<Longrightarrow> belows S cs es' ns' \<Longrightarrow> belows S (c # cs) (es @ es') (ns @ ns')"

inductive_cases belows_ConsE: "belows S (c # cs) es ns"

inductive_simps belows_Nil_iff [simp]: "belows S [] es ns"

lemma run_append: "run fn (es @ fs) = bindS (run fn es) (\<lambda>_. run fn fs)"
  by (induction es) (auto simp: bindS_def returnS_def fun_eq_iff split: prod.split sum.split)

text \<open>The outcome of running a callback over entries \<open>es\<close> from the pages \<open>ns\<close>.\<close>

definition runs_over :: "(u32 list \<times> 's, unit) op \<Rightarrow> ('s, unit) op \<Rightarrow> u32 list \<Rightarrow> u32 list \<Rightarrow> bool" where
  "runs_over m k v ns \<longleftrightarrow> (\<forall>s s' r. k s = (s', r) \<longrightarrow> (\<exists>v'. m (v, s) = ((v', s'), r) \<and> (r = Inr () \<longrightarrow> set v' = set v \<union> set ns)))"

lemma runs_over_bind:
  assumes "runs_over m k v ns" "\<And>v'. set v' = set v \<union> set ns \<Longrightarrow> runs_over m' k' v' ns'"
  shows "runs_over (bindS m (\<lambda>_. m')) (bindS k (\<lambda>_. k')) v (ns @ ns')"
  unfolding runs_over_def
proof (intro allI impI)
  fix s s' r assume b: "bindS k (\<lambda>_. k') s = (s', r)"
  obtain s1 r1 where k: "k s = (s1, r1)"
    by fastforce
  then obtain v1 where 1: "m (v, s) = ((v1, s1), r1)" "r1 = Inr () \<Longrightarrow> set v1 = set v \<union> set ns"
    using assms(1) unfolding runs_over_def by blast
  show "\<exists>v'. bindS m (\<lambda>_. m') (v, s) = ((v', s'), r) \<and> (r = Inr () \<longrightarrow> set v' = set v \<union> set (ns @ ns'))"
  proof (cases r1)
    case (Inl e)
    then show ?thesis
      using b k 1 by (auto simp: bindS_def)
  next
    case (Inr u)
    then have "k' s1 = (s', r)" and v1: "set v1 = set v \<union> set ns"
      using b k 1(2) by (simp_all add: bindS_def)
    then obtain v2 where "m' (v1, s1) = ((v2, s'), r)" "r = Inr () \<Longrightarrow> set v2 = set v1 \<union> set ns'"
      using assms(2) [OF v1] unfolding runs_over_def by blast
    then show ?thesis
      using Inr 1(1) v1 by (auto simp: bindS_def)
  qed
qed

lemma walk_leaf:
  assumes "\<forall>e \<in> set es. ne_recno e \<noteq> 0"
  shows "runs_over (walkEntries fuel ix fn (map leafEntry es)) (run fn es) v []"
  using assms
proof (induction es arbitrary: v)
  case (Cons e es)
  have "bindS (enter fuel ix fn (leafEntry e)) (\<lambda>_. k) = k" for k :: "(u32 list \<times> 'a, unit) op"
    by (simp add: enter_def leafEntry_def returnS_def bindS_def)
  moreover have first: "runs_over (visit fn (leafEntry e)) (fn e) v []"
    using Cons.prems by (cases e) (auto simp: runs_over_def visit_def leafEntry_def)
  moreover have rest: "runs_over (walkEntries fuel ix fn (map leafEntry es)) (run fn es) v' []" if "set v' = set v \<union> set []" for v'
    using Cons by simp
  ultimately show ?case
    using runs_over_bind [OF first rest] by (simp add: walkEntries_Cons)
qed (simp add: runs_over_def returnS_def)

lemma walk_yields:
  assumes S: "\<forall>p \<in> S. readPage ix (pg_number p) = Inr p"
  shows "yields S p es ns \<Longrightarrow> distinct ns \<Longrightarrow> set ns \<inter> set v = {} \<Longrightarrow> length ns \<le> fuel
      \<Longrightarrow> runs_over (walkPage fuel ix fn (pg_number p)) (run fn es) v ns"
    and "belows S cs es ns \<Longrightarrow> distinct ns \<Longrightarrow> set ns \<inter> set v = {} \<Longrightarrow> length ns \<le> fuel
      \<Longrightarrow> runs_over (walkEntries fuel ix fn (map separatorEntry cs)) (run fn es) v ns"
proof (induction arbitrary: v fuel and v fuel rule: yields_belows.inducts)
  case (leaf_page p es)
  obtain f where f: "fuel = Suc f"
    using leaf_page.prems(3) by (cases fuel) simp_all
  have "runs_over (walkEntries f ix fn (map leafEntry es)) (run fn es) (pg_number p # v) []"
    using leaf_page.hyps by (intro walk_leaf) blast
  then show ?case
    using leaf_page S f by (simp add: runs_over_def walkPage_Suc)
next
  case (node_page p cs es ns)
  obtain f where f: "fuel = Suc f" "length ns \<le> f"
    using node_page.prems(3) by (cases fuel) simp_all
  have "runs_over (walkEntries f ix fn (map separatorEntry cs)) (run fn es) (pg_number p # v) ns"
    using node_page.prems f(2) by (intro node_page.IH) auto
  then show ?case
    using node_page S f by (simp add: runs_over_def walkPage_Suc)
next
  case belows_Nil
  then show ?case
    by (simp add: runs_over_def returnS_def)
next
  case (belows_Cons c es ns cs es' ns')
  have c0: "pg_number c \<noteq> 0"
    using belows_Cons(1) by (auto elim: yields.cases)
  have first: "runs_over (walkPage fuel ix fn (pg_number c)) (run fn es) v ns"
    using belows_Cons.prems by (intro belows_Cons.IH(2)) auto
  have rest: "runs_over (walkEntries fuel ix fn (map separatorEntry cs)) (run fn es') v' ns'" if "set v' = set v \<union> set ns" for v'
    using belows_Cons.prems that by (intro belows_Cons.IH(4)) auto
  have "enter fuel ix fn (separatorEntry c) = walkPage fuel ix fn (pg_number c)"
    using c0 by (simp add: enter_def separatorEntry_def)
  moreover have "bindS (visit fn (separatorEntry c)) (\<lambda>_. k) = k" for k :: "(u32 list \<times> 'a, unit) op"
    by (rule ext) (simp add: visit_def separatorEntry_def bindS_def)
  ultimately show ?case
    using runs_over_bind [OF first rest] by (simp add: walkEntries_Cons run_append)
qed

end
