(* ===== verification/NdxSpec.thy ===== *)
theory NdxSpec
  imports NdxWalk "HOL-Library.Multiset"
begin

text \<open>
  \<open>Build\<close> against its specification: the entries sorted by the value of their keys, packed into a
  tree of pages that a traversal of the reopened file reads in that order.
\<close>

section \<open>Sorting\<close>

text \<open>The value of a key: its bytes, or the number it encodes.\<close>

definition key_rank :: "ndx_index \<Rightarrow> bytes \<Rightarrow> int list" where
  "key_rank ix k = (if nx_keyType ix = KeyTypeNumeric then [f64_rank (get_u64 (take 8 k))] else map uint k)"

text \<open>A key of the right size; a numeric key is not a NaN.\<close>

definition proper_key :: "ndx_index \<Rightarrow> bytes \<Rightarrow> bool" where
  "proper_key ix k \<longleftrightarrow> length k = unat (nx_keySize ix) \<and> (nx_keyType ix = KeyTypeNumeric \<longrightarrow> 8 \<le> length k \<and> \<not> f64_nan (get_u64 (take 8 k)))"

definition entry_rank :: "ndx_index \<Rightarrow> ndx_entry \<Rightarrow> int list \<times> u32" where
  "entry_rank ix e = (key_rank ix (ne_key e), ne_recno e)"

text \<open>The first element of each value of \<open>f\<close>.\<close>

fun first_of_each :: "('a \<Rightarrow> 'b) \<Rightarrow> 'a list \<Rightarrow> 'a list" where
  "first_of_each f [] = []"
| "first_of_each f (x # xs) = x # filter (\<lambda>y. f y \<noteq> f x) (first_of_each f xs)"

definition index_order :: "ndx_index \<Rightarrow> ndx_entry list \<Rightarrow> ndx_entry list" where
  "index_order ix es =
     (let es = sort_key (entry_rank ix) es in if nx_unique ix then first_of_each (key_rank ix \<circ> ne_key) es else es)"

lemma bytes_compare_rank:
  "bytes_compare a b < 0 \<longleftrightarrow> map uint a < map uint b"
  "bytes_compare a b = 0 \<longleftrightarrow> map uint a = map uint b"
  by (induction a b rule: bytes_compare.induct) (auto simp: word_less_def)

lemma compareKeys_rank:
  assumes "proper_key ix a" "proper_key ix b"
  shows "compareKeys ix a b < 0 \<longleftrightarrow> key_rank ix a < key_rank ix b" "compareKeys ix a b = 0 \<longleftrightarrow> key_rank ix a = key_rank ix b"
  using assms bytes_compare_rank [of a b]
  by (auto simp: compareKeys_def key_rank_def proper_key_def compareDoubles_def Let_def f64_less_def)

lemma entryLess_rank:
  assumes "proper_key ix (ne_key a)" "proper_key ix (ne_key b)"
  shows "entryLess ix a b \<longleftrightarrow> entry_rank ix a < entry_rank ix b"
  using compareKeys_rank [OF assms] by (auto simp: entryLess_def entry_rank_def Let_def less_prod_def)

lemma first_of_each_subset: "set (first_of_each f xs) \<subseteq> set xs"
  by (induction xs) auto

lemma dedupeFrom_first:
  fixes f :: "ndx_entry \<Rightarrow> 'b :: linorder"
  assumes "\<And>x y. x \<in> set (prev # es) \<Longrightarrow> y \<in> set (prev # es) \<Longrightarrow> compareKeys ix (ne_key x) (ne_key y) = 0 \<longleftrightarrow> f x = f y"
    and "sorted (map f (prev # es))"
  shows "dedupeFrom ix prev es = filter (\<lambda>y. f y \<noteq> f prev) (first_of_each f es)"
  using assms
proof (induction es arbitrary: prev)
  case (Cons e es)
  have ih: "dedupeFrom ix e es = filter (\<lambda>y. f y \<noteq> f e) (first_of_each f es)"
    using Cons.prems by (intro Cons.IH) auto
  show ?case
  proof (cases "f prev = f e")
    case True
    then show ?thesis
      using ih Cons.prems(1) [of prev e] by simp
  next
    case False
    have "f y \<noteq> f prev" if "y \<in> set es" for y
      using that False Cons.prems(2) by (force dest: order_trans)
    then have "filter (\<lambda>y. f y \<noteq> f e \<and> f y \<noteq> f prev) (first_of_each f es) = filter (\<lambda>y. f y \<noteq> f e) (first_of_each f es)"
      using first_of_each_subset [of f es] by (intro filter_cong) auto
    then show ?thesis
      using ih False Cons.prems(1) [of prev e] by simp
  qed
qed simp

lemma sortEntries_order:
  assumes "\<And>e. e \<in> set es \<Longrightarrow> proper_key ix (ne_key e)"
  shows "sortEntries ix es = index_order ix es"
proof -
  let ?es = "sort_key (entry_rank ix) es" and ?f = "key_rank ix \<circ> ne_key"
  have sort: "SliceStable (entryLess ix) es = ?es"
    using assms by (intro SliceStable_sort) (simp add: entryLess_rank)
  have le: "?f a \<le> ?f b" if "entry_rank ix a \<le> entry_rank ix b" for a b
    using that by (auto simp: entry_rank_def less_eq_prod_def)
  have "sorted_wrt (\<lambda>a b. entry_rank ix a \<le> entry_rank ix b) ?es"
    using sorted_sort_key [of "entry_rank ix" es] by (simp add: sorted_map)
  then have "sorted_wrt (\<lambda>a b. ?f a \<le> ?f b) ?es"
    by (rule sorted_wrt_mono_rel [rotated]) (rule le)
  then have "sorted (map ?f ?es)"
    by (simp add: sorted_map)
  moreover have "compareKeys ix (ne_key x) (ne_key y) = 0 \<longleftrightarrow> ?f x = ?f y" if "x \<in> set ?es" "y \<in> set ?es" for x y
    using that assms compareKeys_rank(2) [of ix "ne_key x" "ne_key y"] by simp
  ultimately have "dedupe ix ?es = first_of_each ?f ?es"
    using dedupeFrom_first [of "hd ?es" "tl ?es" ix ?f] by (cases ?es) (simp_all add: dedupe_def)
  then show ?thesis
    by (simp add: sortEntries_def index_order_def sort Let_def)
qed

section \<open>Cutting into pages\<close>

lemma chunks_Nil [simp]: "chunks n [] = []"
  by (simp add: chunks.simps)

lemma chunks_step: "xs \<noteq> [] \<Longrightarrow> 0 < n \<Longrightarrow> chunks n xs = take n xs # chunks n (drop n xs)"
  by (subst chunks.simps) simp

lemma concat_chunks: "0 < n \<Longrightarrow> concat (chunks n xs) = xs"
proof (induction n xs rule: chunks.induct)
  case (1 n xs)
  then show ?case
    by (cases "xs = []") (simp_all add: chunks_step)
qed

lemma chunks_piece: "c \<in> set (chunks n xs) \<Longrightarrow> c \<noteq> [] \<and> length c \<le> n"
proof (induction n xs rule: chunks.induct)
  case (1 n xs)
  then show ?case
    by (cases "xs = [] \<or> n = 0") (auto simp: chunks_step chunks.simps [of 0])
qed

lemma chunks_half: "2 \<le> n \<Longrightarrow> 2 * length (chunks n xs) \<le> length xs + 1"
proof (induction n xs rule: chunks.induct)
  case (1 n xs)
  show ?case
  proof (cases "xs = []")
    case False
    then have "2 * length (chunks n (drop n xs)) \<le> length xs - n + 1"
      using "1.IH" "1.prems" by simp
    moreover have "chunks n xs = take n xs # chunks n (drop n xs)"
      using False "1.prems" by (simp add: chunks_step)
    moreover have "length (chunks n (drop n xs)) = 0" if "length xs \<le> n"
      using that by simp
    ultimately show ?thesis
      using False "1.prems" by (cases "length xs \<le> n") (auto simp: Suc_le_eq)
  qed simp
qed

lemma chunks_nonempty: "xs \<noteq> [] \<Longrightarrow> 0 < n \<Longrightarrow> chunks n xs \<noteq> []"
  by (simp add: chunks_step)

lemma length_makePages [simp]: "length (makePages f cs n) = length cs"
  by (induction cs arbitrary: n) simp_all

lemma makePages_numbers:
  "map pg_number (makePages f cs (word_of_nat m)) = map word_of_nat [m..<m + length cs]"
proof (induction cs arbitrary: m)
  case (Cons c cs)
  have "map pg_number (makePages f cs (word_of_nat (Suc m))) = map word_of_nat [Suc m..<Suc m + length cs]"
    by (rule Cons.IH)
  moreover have "(word_of_nat m + 1 :: u32) = word_of_nat (Suc m)"
    by simp
  moreover have "[m..<m + length (c # cs)] = m # [Suc m..<Suc m + length cs]"
    by (simp add: upt_conv_Cons del: upt_Suc)
  ultimately show ?case
    by (simp del: of_nat_Suc upt_Suc)
qed simp

lemma makePages_entries: "p \<in> set (makePages f cs n) \<Longrightarrow> \<exists>c \<in> set cs. pg_entries p = map f c"
  by (induction cs arbitrary: n) auto

section \<open>The tree grows level by level\<close>

lemma yields_mono: "yields S p es ns \<Longrightarrow> S \<subseteq> T \<Longrightarrow> yields T p es ns" "belows S cs es ns \<Longrightarrow> S \<subseteq> T \<Longrightarrow> belows T cs es ns"
proof (induction rule: yields_belows.inducts)
  case (node_page p cs es ns)
  then show ?case
    by (intro yields_belows.node_page) auto
qed (auto intro: yields_belows.intros)

lemma belows_append:
  "belows S (xs @ ys) es ns \<longleftrightarrow> (\<exists>es1 es2 ns1 ns2. belows S xs es1 ns1 \<and> belows S ys es2 ns2 \<and> es = es1 @ es2 \<and> ns = ns1 @ ns2)"
proof (induction xs arbitrary: es ns)
  case (Cons x xs)
  show ?case
  proof
    assume "belows S ((x # xs) @ ys) es ns"
    then obtain es1 ns1 es2 ns2 where x: "yields S x es1 ns1" "belows S (xs @ ys) es2 ns2" "es = es1 @ es2" "ns = ns1 @ ns2"
      by (auto elim: belows_ConsE)
    then show "\<exists>es1 es2 ns1 ns2. belows S (x # xs) es1 ns1 \<and> belows S ys es2 ns2 \<and> es = es1 @ es2 \<and> ns = ns1 @ ns2"
      using Cons.IH [of es2 ns2] belows_Cons [OF x(1)] by (metis append.assoc)
  next
    assume "\<exists>es1 es2 ns1 ns2. belows S (x # xs) es1 ns1 \<and> belows S ys es2 ns2 \<and> es = es1 @ es2 \<and> ns = ns1 @ ns2"
    then obtain a es1 es2 na ns1 ns2 where x: "yields S x a na" "belows S xs es1 ns1" "belows S ys es2 ns2"
        "es = a @ es1 @ es2" "ns = na @ ns1 @ ns2"
      by (auto elim: belows_ConsE)
    then have "belows S (xs @ ys) (es1 @ es2) (ns1 @ ns2)"
      using Cons.IH by blast
    then show "belows S ((x # xs) @ ys) es ns"
      using belows_Cons [OF x(1)] x(4,5) by simp
  qed
qed simp

lemma belows_leaves:
  assumes "\<forall>e \<in> set (concat css). ne_recno e \<noteq> 0" "set (makePages leafEntry css n) \<subseteq> S"
    "0 \<notin> pg_number ` set (makePages leafEntry css n)"
  shows "belows S (makePages leafEntry css n) (concat css) (map pg_number (makePages leafEntry css n))"
  using assms
proof (induction css arbitrary: n)
  case (Cons c css)
  let ?p = "\<lparr>pg_number = n, pg_entries = map leafEntry c\<rparr>"
  have "yields S ?p c [pg_number ?p]"
    using Cons.prems by (intro leaf_page) auto
  moreover have "belows S (makePages leafEntry css (n + 1)) (concat css) (map pg_number (makePages leafEntry css (n + 1)))"
    using Cons.prems by (intro Cons.IH) auto
  ultimately show ?case
    using belows_Cons [of S ?p c "[n]"] by simp
qed simp

lemma belows_parents:
  assumes "belows S (concat css) es ns" "set (makePages separatorEntry css n) \<subseteq> S"
    "0 \<notin> pg_number ` set (makePages separatorEntry css n)"
  shows "\<exists>ns'. belows S (makePages separatorEntry css n) es ns' \<and> mset ns' = mset ns + mset (map pg_number (makePages separatorEntry css n))"
  using assms
proof (induction css arbitrary: n es ns)
  case (Cons c css)
  let ?p = "\<lparr>pg_number = n, pg_entries = map separatorEntry c\<rparr>"
  obtain es1 es2 ns1 ns2 where c: "belows S c es1 ns1" "belows S (concat css) es2 ns2" "es = es1 @ es2" "ns = ns1 @ ns2"
    using Cons.prems(1) by (auto simp: belows_append)
  obtain ns' where ns': "belows S (makePages separatorEntry css (n + 1)) es2 ns'"
      "mset ns' = mset ns2 + mset (map pg_number (makePages separatorEntry css (n + 1)))"
    using Cons.IH [OF c(2), of "n + 1"] Cons.prems(2,3) by auto
  have "yields S ?p es1 (pg_number ?p # ns1)"
    using Cons.prems c(1) by (intro node_page [of _ _ c]) auto
  then have "belows S (?p # makePages separatorEntry css (n + 1)) (es1 @ es2) ((n # ns1) @ ns')"
    using belows_Cons [OF _ ns'(1), of ?p es1 "n # ns1"] by simp
  then show ?case
    using c(3,4) ns'(2) by (intro exI [of _ "(n # ns1) @ ns'"]) simp
qed simp

text \<open>The state of the loop over the levels: \<open>all\<close> holds pages 1, 2, ... in order, the pages of \<open>level\<close> are the
  roots of trees that use every page once and hold the entries \<open>es\<close> in order.\<close>

definition numbered :: "ndx_page list \<Rightarrow> bool" where
  "numbered all \<longleftrightarrow> map pg_number all = map word_of_nat [1..<1 + length all]"

definition level_inv :: "ndx_index \<Rightarrow> ndx_entry list \<Rightarrow> ndx_page list \<Rightarrow> u32 \<Rightarrow> ndx_page list \<Rightarrow> bool" where
  "level_inv ix es level next all \<longleftrightarrow> level \<noteq> [] \<and> set level \<subseteq> set all \<and> next = word_of_nat (1 + length all) \<and> numbered all
     \<and> (\<forall>p \<in> set all. pg_entries p \<noteq> [] \<and> fits_page ix p)
     \<and> length all + 2 * length level \<le> 3 * length es
     \<and> (\<exists>ns. belows (set all) level es ns \<and> mset ns = mset (map pg_number all))"

lemma distinct_numbers:
  assumes "n < 2 ^ 32"
  shows "distinct (map (word_of_nat :: nat \<Rightarrow> u32) [1..<1 + n])" "0 \<notin> set (map (word_of_nat :: nat \<Rightarrow> u32) [1..<1 + n])"
proof -
  have u: "unat (word_of_nat m :: u32) = m" if "m \<le> n" for m
    using that assms by (simp add: unat_of_nat)
  then have "inj_on (word_of_nat :: nat \<Rightarrow> u32) {1..n}"
    by (intro inj_on_inverseI [of _ unat]) simp
  then show "distinct (map (word_of_nat :: nat \<Rightarrow> u32) [1..<1 + n])"
    by (simp add: distinct_map atLeastLessThanSuc_atLeastAtMost del: upt_Suc)
  show "0 \<notin> set (map (word_of_nat :: nat \<Rightarrow> u32) [1..<1 + n])"
  proof
    assume "0 \<in> set (map (word_of_nat :: nat \<Rightarrow> u32) [1..<1 + n])"
    then obtain m where "m \<in> set [1..<1 + n]" "0 = (word_of_nat m :: u32)"
      unfolding set_map image_iff by blast
    then have "0 < m" "m \<le> n" "(word_of_nat m :: u32) = 0"
      by auto
    then show False
      using u [of m] by (simp only: unsigned_0)
  qed
qed

lemma numbered_append:
  assumes "numbered all" "ps = makePages f cs (word_of_nat (1 + length all))"
  shows "numbered (all @ ps)"
proof -
  have "map pg_number ps = map word_of_nat [1 + length all..<1 + length all + length cs]"
    unfolding assms(2) by (rule makePages_numbers)
  moreover have "[1..<1 + length all] @ [1 + length all..<1 + length all + length cs] = [1..<1 + length all + length cs]"
    using upt_add_eq_append [of 1 "1 + length all" "length cs"] by simp
  ultimately have "map pg_number (all @ ps) = map word_of_nat [1..<1 + length all + length cs]"
    using assms(1) unfolding numbered_def by (metis map_append)
  then show ?thesis
    by (simp add: numbered_def assms(2) add.assoc del: upt_Suc)
qed

lemma numbered_nonzero: "numbered all \<Longrightarrow> length all < 2 ^ 32 \<Longrightarrow> 0 \<notin> pg_number ` set all"
  using distinct_numbers(2) [of "length all"] unfolding numbered_def by (metis image_set)

lemma level_step:
  assumes inv: "level_inv ix es level next all" and small: "3 * length es < 2 ^ 32" and n: "n = unat (nx_keysPerPage ix)" "2 \<le> n"
    and two: "1 < length level" and ps: "ps = makePages separatorEntry (chunks n level) next"
  shows "level_inv ix es ps (next + word_of_nat (length ps)) (all @ ps)"
proof -
  have l: "set level \<subseteq> set all" "level \<noteq> []" "next = word_of_nat (1 + length all)" "numbered all"
      "length all + 2 * length level \<le> 3 * length es"
    and good: "p \<in> set all \<Longrightarrow> pg_entries p \<noteq> [] \<and> fits_page ix p" for p
    using inv by (auto simp: level_inv_def)
  obtain ns where ns: "belows (set all) level es ns" "mset ns = mset (map pg_number all)"
    using inv by (auto simp: level_inv_def)
  have len: "length ps = length (chunks n level)"
    by (simp add: ps)
  have "3 * length ps \<le> 2 * length level"
    using chunks_half [OF n(2), of level] two unfolding len by linarith
  then have bound: "length (all @ ps) + 2 * length ps \<le> 3 * length es"
    using l(5) by simp
  have num: "numbered (all @ ps)"
    using l(3,4) ps by (intro numbered_append) simp_all
  have nz: "0 \<notin> pg_number ` set (all @ ps)"
    using num bound small by (intro numbered_nonzero) simp_all
  have "pg_entries p \<noteq> [] \<and> fits_page ix p" if p: "p \<in> set ps" for p
  proof -
    obtain c where c: "c \<in> set (chunks n level)" "pg_entries p = map separatorEntry c"
      using makePages_entries p ps by blast
    have "set c \<subseteq> set level"
      using c(1) concat_chunks [of n level] n(2) by (metis UN_upper le_zero_eq linorder_not_less not_gr_zero set_concat zero_neq_numeral)
    then have "length (pe_key (separatorEntry q)) = unat (nx_keySize ix)" if "q \<in> set c" for q
      using that l(1) good [of q] by (auto simp: separatorEntry_def fits_page_def list_all_iff)
    then show ?thesis
      using chunks_piece [OF c(1)] c(2) n(1) nz p by (auto simp: fits_page_def list_all_iff)
  qed
  moreover obtain ns' where "belows (set (all @ ps)) ps es ns'" "mset ns' = mset ns + mset (map pg_number ps)"
    using belows_parents [of "set (all @ ps)" "chunks n level" es ns "next"] yields_mono(2) [OF ns(1), of "set (all @ ps)"]
      concat_chunks [of n level] n(2) nz by (auto simp: ps)
  moreover have "ps \<noteq> []"
    using chunks_nonempty [OF l(2), of n] n(2) len by auto
  moreover have "next + word_of_nat (length ps) = word_of_nat (1 + length (all @ ps))"
    by (simp add: l(3))
  ultimately show ?thesis
    using good ns(2) num bound by (auto simp: level_inv_def)
qed

lemma buildLevels_ok:
  assumes small: "3 * length es < 2 ^ 32" and n: "n = unat (nx_keysPerPage ix)" "2 \<le> n"
  shows "level_inv ix es level next all \<Longrightarrow> length level \<le> fuel
    \<Longrightarrow> \<exists>all' p next'. buildLevels fuel n level next all = Some (all', [p], next') \<and> level_inv ix es [p] next' all'"
proof (induction fuel arbitrary: level "next" all)
  case 0
  then show ?case
    by (simp add: level_inv_def)
next
  case (Suc fuel)
  show ?case
  proof (cases "1 < length level")
    case True
    let ?ps = "makePages separatorEntry (chunks n level) next"
    have "length ?ps \<le> fuel"
      using chunks_half [OF n(2), of level] True Suc.prems(2) by simp
    then show ?thesis
      using Suc.IH [OF level_step [OF Suc.prems(1) small n True refl]] True by (simp add: Let_def)
  next
    case False
    then obtain p where "level = [p]"
      using Suc.prems(1) by (cases level) (auto simp: level_inv_def)
    then show ?thesis
      using Suc.prems(1) by simp
  qed
qed

section \<open>Build and reopen\<close>

lemma ndx_validate_root: "ndx_validate (ix\<lparr>nx_root := r, nx_pageCount := n\<rparr>) = ndx_validate ix"
  by (simp add: ndx_validate_def)

lemma header_bytes_rw: "ndx_header_bytes (ix\<lparr>nx_rw := f\<rparr>) = ndx_header_bytes ix"
  by (simp add: ndx_header_bytes_def)

lemma writeHeader_opens:
  assumes "ndx_validate ix = Inr ()" "expr_fits (nx_keyExpr ix)" "ndx_writeHeader ix = (ix', r)"
  shows "ndx_Open (nx_rw ix') = Inr ix' \<and> r = Inr () \<and> nx_rw ix' = writeAt (nx_rw ix) 0 (ndx_header_bytes ix) \<and> nx_root ix' = nx_root ix
    \<and> same_geometry ix ix'"
proof -
  have ix': "ix' = ix\<lparr>nx_rw := writeAt (nx_rw ix) 0 (ndx_header_bytes ix)\<rparr>" "r = Inr ()"
    using assms(3) by (simp_all add: ndx_writeHeader_def)
  moreover have "ndx_Open (nx_rw ix') = Inr ix'"
    using assms(1,2) by (intro ndx_header_reads) (simp_all add: ix' ndx_validate_rw header_bytes_rw)
  ultimately show ?thesis
    by (simp add: same_geometry_def)
qed

lemma pages_fit:
  assumes "\<forall>n \<in> set ns. \<exists>p. readPage ix n = Inr p" "distinct ns"
  shows "length ns \<le> walk_fuel ix"
proof -
  have "length ns = card (unat ` set ns)"
    using assms(2) by (simp add: distinct_card card_image inj_on_def word_unat_eq_iff)
  also have "\<dots> \<le> card {1..<length (nx_rw ix) div PageSize}"
    using assms(1) page_inside by (intro card_mono) blast+
  finally show ?thesis
    by (simp add: walk_fuel_def)
qed

text \<open>The file holds a readable tree with the entries \<open>es\<close>.\<close>

definition ndx_holds :: "ndx_index \<Rightarrow> ndx_entry list \<Rightarrow> bool" where
  "ndx_holds ix es \<longleftrightarrow> nx_root ix = 0 \<and> es = []
     \<or> (\<exists>S p ns. (\<forall>q \<in> S. readPage ix (pg_number q) = Inr q) \<and> yields S p es ns \<and> distinct ns \<and> set ns \<subseteq> pg_number ` S
          \<and> nx_root ix = pg_number p)"

lemma holds_traverse:
  assumes "ndx_holds ix es"
  shows "Traverse ix fn s = run fn es s"
  using assms unfolding ndx_holds_def
proof (elim disjE exE conjE)
  assume "nx_root ix = 0" "es = []"
  then show ?thesis
    by (simp add: Traverse_def walk_def returnS_def)
next
  fix S p ns assume S: "\<forall>q \<in> S. readPage ix (pg_number q) = Inr q" and y: "yields S p es ns" and d: "distinct ns" "set ns \<subseteq> pg_number ` S"
    and r: "nx_root ix = pg_number p"
  have "length ns \<le> walk_fuel ix"
    using S d by (intro pages_fit) auto
  then have "runs_over (walkPage (walk_fuel ix) ix fn (pg_number p)) (run fn es) [] ns"
    using walk_yields(1) [OF S y d(1), of "[]"] by simp
  then obtain v where "walkPage (walk_fuel ix) ix fn (nx_root ix) ([], s) = ((v, fst (run fn es s)), snd (run fn es s))"
    unfolding runs_over_def r by (metis prod.collapse)
  moreover have "nx_root ix \<noteq> 0"
    using y r by (auto elim: yields.cases)
  ultimately show ?thesis
    by (simp add: Traverse_def walk_def)
qed

lemma run_collect: "run (total (\<lambda>e out. out @ [e])) es out = (out @ es, Inr ())"
  by (induction es arbitrary: out) (simp_all add: returnS_def bindS_def)

lemma holds_entries: "ndx_holds ix es \<Longrightarrow> Entries ix = Inr es"
  using holds_traverse [of ix es "total (\<lambda>e out. out @ [e])" "[]"] by (simp add: Entries_def Traverse_def run_collect bindR_def)

lemma length_first_of_each: "length (first_of_each f xs) \<le> length xs"
  by (induction xs) (auto intro: le_trans [OF length_filter_le])

lemma index_order_length: "length (index_order ix es) \<le> length es"
  using length_first_of_each [of _ "sort_key (entry_rank ix) es"] by (auto simp: index_order_def Let_def) 

lemma index_order_subset: "set (index_order ix es) \<subseteq> set es"
  using first_of_each_subset [of _ "sort_key (entry_rank ix) es"] by (auto simp: index_order_def Let_def)

lemma first_level:
  assumes v: "ndx_validate ix = Inr ()" and es: "es \<noteq> []" "\<forall>e \<in> set es. length (ne_key e) = unat (nx_keySize ix) \<and> ne_recno e \<noteq> 0"
    and small: "3 * length es < 2 ^ 32" and n: "n = unat (nx_keysPerPage ix)" "2 \<le> n" and ls: "ls = makePages leafEntry (chunks n es) 1"
  shows "level_inv ix es ls (1 + word_of_nat (length ls)) ls" "length ls \<le> length es"
proof -
  have len: "length ls = length (chunks n es)"
    by (simp add: ls)
  show le: "length ls \<le> length es"
    using chunks_half [OF n(2), of es] es(1) unfolding len by (cases es) auto
  have "map pg_number ls = map word_of_nat [1..<1 + length (chunks n es)]"
    using makePages_numbers [of leafEntry "chunks n es" 1] by (simp add: ls)
  then have num: "numbered ls"
    unfolding numbered_def len .
  have nz: "0 \<notin> pg_number ` set ls"
    using num le small by (intro numbered_nonzero) simp_all
  have cc: "concat (chunks n es) = es"
    using n(2) by (simp add: concat_chunks)
  have "pg_entries p \<noteq> [] \<and> fits_page ix p" if p: "p \<in> set ls" for p
  proof -
    obtain c where c: "c \<in> set (chunks n es)" "pg_entries p = map leafEntry c"
      using makePages_entries p ls by blast
    have "set c \<subseteq> set es"
      using c(1) cc by (metis UN_upper set_concat)
    then show ?thesis
      using chunks_piece [OF c(1)] c(2) n(1) nz p es(2) by (auto simp: fits_page_def list_all_iff leafEntry_def)
  qed
  moreover have "belows (set ls) ls es (map pg_number ls)"
    using belows_leaves [of "chunks n es" 1 "set ls"] nz es(2) by (simp add: cc flip: ls)
  moreover have "ls \<noteq> []"
    using chunks_nonempty [OF es(1), of n] n(2) len by auto
  ultimately show "level_inv ix es ls (1 + word_of_nat (length ls)) ls"
    using num le by (auto simp: level_inv_def)
qed

lemma Build_holds:
  assumes v: "ndx_validate ix = Inr ()" and e: "expr_fits (nx_keyExpr ix)" and two: "2 \<le> nx_keysPerPage ix"
    and es: "\<forall>e \<in> set es. proper_key ix (ne_key e) \<and> ne_recno e \<noteq> 0" and small: "3 * length es < 2 ^ 32" and fuel: "length es \<le> fuel"
  obtains ix' where "ndx_Build fuel es ix = (ix', Inr ())" "ndx_Open (nx_rw ix') = Inr ix'" "ndx_holds ix' (index_order ix es)"
    "same_geometry ix ix'"
proof -
  let ?es = "index_order ix es" and ?n = "unat (nx_keysPerPage ix)"
  have keys: "\<not> list_ex (\<lambda>e. length (ne_key e) \<noteq> unat (nx_keySize ix)) es"
    using es by (simp add: list_ex_iff proper_key_def)
  have sort: "sortEntries ix es = ?es"
    using es by (intro sortEntries_order) simp
  have n: "2 \<le> ?n"
    using two by (simp add: word_le_nat_alt)
  show ?thesis
  proof (cases "?es = []")
    case True
    obtain ix' r where w: "ndx_writeHeader (ix\<lparr>nx_root := 0, nx_pageCount := 1\<rparr>) = (ix', r)"
      by fastforce
    have pre: "ndx_validate (ix\<lparr>nx_root := 0, nx_pageCount := 1\<rparr>) = Inr ()"
        "expr_fits (nx_keyExpr (ix\<lparr>nx_root := 0, nx_pageCount := 1\<rparr>))"
      using v e by (simp_all add: ndx_validate_root)
    note h = writeHeader_opens [OF pre w]
    have "ndx_Open (nx_rw ix') = Inr ix'" "r = Inr ()"
      using h by blast+
    moreover have "nx_root ix' = 0" "same_geometry ix ix'"
      using h by (simp_all add: same_geometry_def)
    ultimately show ?thesis
      using w True keys sort by (intro that [of ix']) (simp_all add: ndx_Build_def ndx_holds_def)
  next
    case False
    define ls where "ls = makePages leafEntry (chunks ?n ?es) 1"
    have es': "\<forall>e \<in> set ?es. length (ne_key e) = unat (nx_keySize ix) \<and> ne_recno e \<noteq> 0"
      using es index_order_subset [of ix es] by (auto simp: proper_key_def)
    have small': "3 * length ?es < 2 ^ 32"
      using small index_order_length [of ix es] by linarith
    note first = first_level [OF v False es' small' refl n ls_def]
    have "length ls \<le> fuel"
      using first(2) index_order_length [of ix es] fuel by linarith
    then obtain all p pn where levels: "buildLevels fuel ?n ls (1 + word_of_nat (length ls)) ls = Some (all, [p], pn)"
        and inv: "level_inv ix ?es [p] pn all"
      using buildLevels_ok [OF small' refl n first(1)] by blast
    obtain ns where ns: "yields (set all) p ?es ns" "mset ns = mset (map pg_number all)"
      using inv by (auto simp: level_inv_def elim: belows_ConsE)
    have len: "length all < 2 ^ 32" and num: "numbered all"
      using inv small' by (simp_all add: level_inv_def)
    have d: "distinct (map pg_number all)"
      using distinct_numbers(1) [OF len] num by (simp add: numbered_def)
    obtain f where f: "writePages all ix = (ix\<lparr>nx_rw := f\<rparr>, Inr ())" "\<forall>q \<in> set all. readPage (ix\<lparr>nx_rw := f\<rparr>) (pg_number q) = Inr q"
      using writePages_ok [OF v d] inv by (auto simp: level_inv_def)
    let ?ix = "ix\<lparr>nx_rw := f, nx_root := pg_number p, nx_pageCount := pn\<rparr>"
    obtain ix' r where w: "ndx_writeHeader ?ix = (ix', r)"
      by fastforce
    have pre: "ndx_validate ?ix = Inr ()" "expr_fits (nx_keyExpr ?ix)"
      using v e by (simp_all add: ndx_validate_root ndx_validate_rw)
    note h = writeHeader_opens [OF pre w]
    have ix'': "ndx_Open (nx_rw ix') = Inr ix'" "r = Inr ()"
      using h by blast+
    have "nx_rw ix' = writeAt f 0 (ndx_header_bytes ?ix)" "nx_root ix' = pg_number p" "same_geometry ix ix'"
      using h by (simp_all add: same_geometry_def)
    then have ix': "ndx_Open (nx_rw ix') = Inr ix' \<and> r = Inr () \<and> nx_rw ix' = writeAt f 0 (ndx_header_bytes ?ix)
        \<and> nx_root ix' = pg_number p \<and> same_geometry ix ix'"
      using ix'' by blast
    have "readPage ix' (pg_number q) = Inr q" if "q \<in> set all" for q
    proof (rule writeHeader_pages)
      show "readPage (ix\<lparr>nx_rw := f\<rparr>) (pg_number q) = Inr q"
        using f(2) that by blast
      show "same_geometry (ix\<lparr>nx_rw := f\<rparr>) ix'"
        using ix' by (simp add: same_geometry_def)
      show "nx_rw ix' = writeAt (nx_rw (ix\<lparr>nx_rw := f\<rparr>)) 0 (ndx_header_bytes ?ix)"
        using ix' by simp
    qed
    moreover have "distinct ns" "set ns \<subseteq> pg_number ` set all"
      using d mset_eq_imp_distinct_iff [OF ns(2)] mset_eq_setD [OF ns(2)] by simp_all
    ultimately have "ndx_holds ix' ?es"
      using ns(1) ix' unfolding ndx_holds_def by blast
    moreover have "length (chunks ?n ?es) = length ls"
      by (simp add: ls_def)
    then have "ndx_Build fuel es ix = (ix', Inr ())"
      using keys False sort levels f(1) w ix' by (simp add: ndx_Build_def Let_def bindS_def flip: ls_def)
    ultimately show ?thesis
      using ix' by (intro that [of ix']) blast+
  qed
qed

text \<open>C17: \<open>Build\<close> writes an index that means what it was given.  The file it leaves opens, and any callback
  traversed over it sees the entries in key order - the value of the key, for a numeric index the number -
  and record order within a key, the first record only when the index is unique.  The keys have the index's
  size and are not NaNs, and the page numbers fit a u32.\<close>

theorem Build_Traverse:
  assumes "ndx_validate ix = Inr ()" "expr_fits (nx_keyExpr ix)" "2 \<le> nx_keysPerPage ix"
    and "\<forall>e \<in> set es. proper_key ix (ne_key e) \<and> ne_recno e \<noteq> 0" "3 * length es < 2 ^ 32" "length es \<le> fuel"
  shows "\<exists>ix'. ndx_Build fuel es ix = (ix', Inr ()) \<and> ndx_Open (nx_rw ix') = Inr ix'
    \<and> Traverse ix' fn s = run fn (index_order ix es) s \<and> Entries ix' = Inr (index_order ix es)"
  using Build_holds [OF assms] holds_traverse holds_entries by metis

text \<open>An index on two-byte keys, and five records.\<close>

definition sample_options :: ndx_options where
  "sample_options = \<lparr>no_keyExpr = [78], no_keySize = 100, no_keyType = KeyTypeCharacter, no_unique = True\<rparr>"

definition sample_index :: ndx_index where
  "sample_index = (case ndx_Create [] sample_options of Inr ix \<Rightarrow> ix | Inl _ \<Rightarrow> undefined)"

definition sample_key :: "byte \<Rightarrow> bytes" where
  "sample_key b = b # replicate 99 32"

definition sample_entries :: "ndx_entry list" where
  "sample_entries = map (\<lambda>(b, n). \<lparr>ne_key = sample_key b, ne_recno = n\<rparr>) [(66, 2), (65, 4), (67, 1), (65, 3), (70, 5), (69, 6)]"

lemma sample_ndx_valid: "ndx_validate sample_index = Inr ()" "expr_fits (nx_keyExpr sample_index)" "2 \<le> nx_keysPerPage sample_index"
    "nx_keySize sample_index = 100" "nx_keyType sample_index = KeyTypeCharacter" "nx_unique sample_index"
  by (simp_all add: sample_index_def sample_options_def ndx_Create_def ndx_writeHeader_def Let_def ndx_validate_def expr_fits_def
      KeyTypeCharacter_def KeyTypeNumeric_def ndx_MaxKeySize_def ndx_MaxKeyExpr_def PageSize_def keyRecordSize_def keysPerPageFor_def)

lemma sample_proper: "\<forall>e \<in> set sample_entries. proper_key sample_index (ne_key e) \<and> ne_recno e \<noteq> 0"
  by (simp add: sample_entries_def proper_key_def sample_ndx_valid sample_key_def KeyTypeCharacter_def KeyTypeNumeric_def)

lemma sample_order: "map ne_recno (index_order sample_index sample_entries) = [3, 2, 1, 6, 5]"
  by (simp add: index_order_def Let_def sample_entries_def entry_rank_def key_rank_def sample_ndx_valid sample_key_def
      KeyTypeCharacter_def KeyTypeNumeric_def insort_key_def)

theorem Build_Traverse_witness:
  "\<exists>ix'. ndx_Build 6 sample_entries sample_index = (ix', Inr ()) \<and> ndx_Open (nx_rw ix') = Inr ix'
    \<and> Traverse ix' (\<lambda>e n. (n + 1 :: nat, Inr ())) 0 = run (\<lambda>e n. (n + 1, Inr ())) (index_order sample_index sample_entries) 0
    \<and> Entries ix' = Inr (index_order sample_index sample_entries)"
  using sample_ndx_valid sample_proper by (intro Build_Traverse) (simp_all add: sample_entries_def)

text \<open>C2: \<open>Count\<close>, \<open>First\<close>, \<open>Last\<close> and \<open>Seek\<close> each walk the file on their own; on every file whose
  entries can be listed they agree with that list.\<close>

theorem queries_agree:
  assumes "Entries ix = Inr es"
  shows "Count ix = Inr (length es)
    \<and> ndx_First ix = Inr (case es of [] \<Rightarrow> None | e # _ \<Rightarrow> Some e)
    \<and> ndx_Last ix = Inr (if es = [] then None else Some (last es))
    \<and> ndx_Seek key ix = (if length key \<noteq> unat (nx_keySize ix) then Inl (Wrap ''key'' ErrKeySize)
         else Inr (map ne_recno (filter (\<lambda>e. compareKeys ix (ne_key e) key = 0) es)))"
proof (intro conjI)
  show "Count ix = Inr (length es)"
    using walk_fold [OF assms, of "\<lambda>e. Suc" 0] by (simp add: Count_def fold_count bindR_def)
  show "ndx_First ix = Inr (case es of [] \<Rightarrow> None | e # _ \<Rightarrow> Some e)"
    using walk_fold [OF assms, of "\<lambda>e first. if first = None then Some e else first" None]
    by (cases es) (simp_all add: ndx_First_def bindR_def fold_first)
  show "ndx_Last ix = Inr (if es = [] then None else Some (last es))"
    using walk_fold [OF assms, of "\<lambda>e _. Some e" None] by (simp add: ndx_Last_def bindR_def fold_last)
  show "ndx_Seek key ix = (if length key \<noteq> unat (nx_keySize ix) then Inl (Wrap ''key'' ErrKeySize)
      else Inr (map ne_recno (filter (\<lambda>e. compareKeys ix (ne_key e) key = 0) es)))"
    using walk_fold [OF assms, of "\<lambda>e out. if compareKeys ix (ne_key e) key = 0 then out @ [ne_recno e] else out" "[]"]
    by (simp add: ndx_Seek_def bindR_def fold_filter)
qed

definition sample_built :: ndx_index where
  "sample_built = fst (ndx_Build 6 sample_entries sample_index)"

lemma sample_entries_read: "Entries sample_built = Inr (index_order sample_index sample_entries)"
proof -
  obtain ix' where "ndx_Build 6 sample_entries sample_index = (ix', Inr ())" "ndx_holds ix' (index_order sample_index sample_entries)"
    by (rule Build_holds [OF sample_ndx_valid(1-3) sample_proper, of 6]) (simp_all add: sample_entries_def)
  then show ?thesis
    by (simp add: sample_built_def holds_entries)
qed

theorem queries_agree_witness:
  "Count sample_built = Inr 5 \<and> (\<exists>a b. ndx_First sample_built = Inr (Some a) \<and> ne_recno a = 3 \<and> ndx_Last sample_built = Inr (Some b) \<and> ne_recno b = 5)"
proof -
  let ?es = "index_order sample_index sample_entries"
  obtain a b c d e where es: "?es = [a, b, c, d, e]" "ne_recno a = 3" "ne_recno e = 5"
    using sample_order by (auto simp: map_eq_Cons_conv)
  show ?thesis
    using queries_agree [OF sample_entries_read, of "[]"] by (simp add: es)
qed

section \<open>One key per page\<close>

lemma chunks_one: "length (chunks 1 xs) = length xs"
  by (induction xs) (simp_all add: chunks_step)

lemma buildLevels_one: "1 < length level \<Longrightarrow> buildLevels fuel 1 level next all = None"
  by (induction fuel arbitrary: level "next" all) (simp_all add: Let_def chunks_one [simplified])

text \<open>C34: \<open>Open\<close> admits a header of one key per page, which \<open>Create\<close> refuses; \<open>Build\<close> on such an index never
  ends once there are two entries, because every level has as many pages as the one below it: no fuel is
  enough.\<close>

theorem Build_one_key_loops:
  assumes "ndx_Open f = Inr ix" "nx_keysPerPage ix = 1"
    and "\<forall>e \<in> set es. proper_key ix (ne_key e)" "2 \<le> length (index_order ix es)"
  shows "ndx_Build fuel es ix = (ix, Inl OutOfFuel)"
proof -
  let ?ls = "makePages leafEntry (chunks 1 (index_order ix es)) 1"
  have keys: "\<not> list_ex (\<lambda>e. length (ne_key e) \<noteq> unat (nx_keySize ix)) es"
    using assms(3) by (simp add: list_ex_iff proper_key_def)
  have "sortEntries ix es = index_order ix es"
    using assms(3) by (intro sortEntries_order) simp
  moreover have "buildLevels fuel 1 ?ls n ?ls = None" for n
    using assms(4) by (intro buildLevels_one) (simp only: length_makePages chunks_one)
  moreover have "index_order ix es \<noteq> []"
    using assms(4) by auto
  ultimately show ?thesis
    using keys assms(2) by (simp add: ndx_Build_def Let_def)
qed

definition narrow_index :: ndx_index where
  "narrow_index = sample_index\<lparr>nx_keysPerPage := 1, nx_rw := ndx_header_bytes (sample_index\<lparr>nx_keysPerPage := 1\<rparr>)\<rparr>"

theorem Build_one_key_loops_witness:
  "ndx_Open (nx_rw narrow_index) = Inr narrow_index \<and> ndx_Build 1000 sample_entries narrow_index = (narrow_index, Inl OutOfFuel)"
proof -
  have "ndx_validate narrow_index = Inr ()"
    by (simp add: narrow_index_def sample_index_def sample_options_def ndx_Create_def ndx_writeHeader_def Let_def ndx_validate_def
      KeyTypeCharacter_def KeyTypeNumeric_def ndx_MaxKeySize_def ndx_MaxKeyExpr_def PageSize_def keyRecordSize_def keysPerPageFor_def)
  moreover have "expr_fits (nx_keyExpr narrow_index)"
    using sample_ndx_valid(2) by (simp add: narrow_index_def)
  moreover have "nx_rw narrow_index = writeAt [] 0 (ndx_header_bytes narrow_index)"
    by (simp add: narrow_index_def header_bytes_rw writeAt_def put_at_def)
  ultimately have o: "ndx_Open (nx_rw narrow_index) = Inr narrow_index"
    by (rule ndx_header_reads)
  have order: "index_order narrow_index sample_entries = index_order sample_index sample_entries"
  proof -
    have k: "key_rank narrow_index = key_rank sample_index"
      by (simp add: key_rank_def narrow_index_def fun_eq_iff)
    have "entry_rank narrow_index = entry_rank sample_index"
      by (simp add: entry_rank_def fun_eq_iff k)
    moreover have "nx_unique narrow_index = nx_unique sample_index"
      by (simp add: narrow_index_def)
    ultimately show ?thesis
      by (simp only: index_order_def k)
  qed
  then have "length (index_order narrow_index sample_entries) = 5"
    using arg_cong [OF sample_order, of length] by simp
  moreover have "\<forall>e \<in> set sample_entries. proper_key narrow_index (ne_key e)"
    using sample_proper by (auto simp: proper_key_def narrow_index_def)
  ultimately show ?thesis
    using o Build_one_key_loops [OF o, of sample_entries 1000] by (simp add: narrow_index_def)
qed

end
