(* ===== verification/Spec2Isabelle.thy ===== *)
theory Spec2Isabelle
  imports NtxDeleteSpec Lock DbfSpec RegistrySpec DbfMemoIV AreaMemoSpec NdxSpec
begin

text \<open>
  A model of \<open>blipper\<close>: xBase tables, Clipper indexes and work areas in Go.
\<close>

end
